(* ===== verification/Prelude.thy ===== *)
theory Prelude
  imports Main "HOL-Library.Word" "HOL-Library.Monad_Syntax"
begin

text \<open>
  The C abstract machine that the components of the C library share: a byte addressed memory
  in which an access to an address that is not mapped, or a misaligned access to a \<open>long\<close>, is
  a fault; little endian \<open>long\<close> accesses; byte blocks and C strings in that memory; and
  the word-at-a-time tests of \<open>newlib/libc/string/local.h\<close>.

  Computations are in the \<open>option\<close> type: \<open>None\<close> is a fault (or, for a
  \<open>partial_function\<close>, a loop that never ends).
\<close>

unbundle bit_operations_syntax

named_theorems mem_simps \<open>reading, writing and framing byte blocks\<close>
named_theorems loop_simps \<open>one-step unfoldings of loops at a known state\<close>

section \<open>Memory\<close>

type_synonym byte = "8 word"
type_synonym ulong = "64 word"
type_synonym addr = nat
type_synonym mem = "nat \<rightharpoonup> 8 word"

abbreviation (input) NULL :: addr where "NULL \<equiv> 0"

definition ld8 :: "mem \<Rightarrow> addr \<Rightarrow> byte option" where
  [simp]: "ld8 m a = m a"

definition st8 :: "mem \<Rightarrow> addr \<Rightarrow> byte \<Rightarrow> mem option" where
  "st8 m a b = (case m a of None \<Rightarrow> None | Some _ \<Rightarrow> Some (m(a \<mapsto> b)))"

fun rd :: "mem \<Rightarrow> addr \<Rightarrow> nat \<Rightarrow> byte list option" where
  "rd m a 0 = Some []"
| "rd m a (Suc n) = do { b \<leftarrow> ld8 m a; bs \<leftarrow> rd m (Suc a) n; Some (b # bs) }"

fun wr :: "mem \<Rightarrow> addr \<Rightarrow> byte list \<Rightarrow> mem option" where
  "wr m a [] = Some m"
| "wr m a (b # bs) = do { m \<leftarrow> st8 m a b; wr m (Suc a) bs }"

definition put :: "mem \<Rightarrow> addr \<Rightarrow> byte list \<Rightarrow> mem" where
  "put m p bs = (\<lambda>a. if p \<le> a \<and> a < p + length bs then Some (bs ! (a - p)) else m a)"

definition mapped :: "mem \<Rightarrow> addr \<Rightarrow> nat \<Rightarrow> bool" where
  "mapped m p n \<longleftrightarrow> (\<forall>i<n. m (p + i) \<noteq> None)"

definition disj :: "addr \<Rightarrow> nat \<Rightarrow> addr \<Rightarrow> nat \<Rightarrow> bool" where
  "disj p n q k \<longleftrightarrow> p + n \<le> q \<or> q + k \<le> p"

lemma rd_Suc_Some:
  "rd m p (Suc n) = Some (b # bs) \<longleftrightarrow> m p = Some b \<and> rd m (Suc p) n = Some bs"
  by (auto simp: bind_eq_Some_conv)

lemma rd_Some_iff:
  "rd m p n = Some bs \<longleftrightarrow> length bs = n \<and> (\<forall>i<n. m (p + i) = Some (bs ! i))"
proof (induction n arbitrary: p bs)
  case 0 then show ?case by auto
next
  case (Suc n)
  show ?case
  proof (cases bs)
    case Nil then show ?thesis by (auto simp: bind_eq_Some_conv)
  next
    case (Cons b bs')
    then show ?thesis
      by (simp add: rd_Suc_Some Suc.IH All_less_Suc2 del: rd.simps) blast
  qed
qed

lemma rd_length: "rd m p n = Some bs \<Longrightarrow> length bs = n"
  by (simp add: rd_Some_iff)

lemma rd_mapped: "mapped m p n \<longleftrightarrow> (\<exists>bs. rd m p n = Some bs)"
proof
  assume "mapped m p n"
  then show "\<exists>bs. rd m p n = Some bs"
    by (intro exI[of _ "map (\<lambda>i. the (m (p + i))) [0..<n]"])
      (auto simp: rd_Some_iff mapped_def)
qed (auto simp: rd_Some_iff mapped_def)

lemma mapped_0 [simp]: "mapped m p 0"
  by (simp add: mapped_def)

lemma mapped_Suc: "mapped m p (Suc n) \<longleftrightarrow> m p \<noteq> None \<and> mapped m (Suc p) n"
  by (auto simp: mapped_def All_less_Suc2)

lemma mapped_split: "mapped m p (n + k) \<longleftrightarrow> mapped m p n \<and> mapped m (p + n) k"
  by (induction n arbitrary: p) (auto simp: mapped_Suc)

lemma mapped_le: "mapped m p n \<Longrightarrow> k \<le> n \<Longrightarrow> mapped m p k"
  by (auto simp: mapped_def)

lemma rd_split:
  "rd m p (n + k) = do { xs \<leftarrow> rd m p n; ys \<leftarrow> rd m (p + n) k; Some (xs @ ys) }"
  by (induction n arbitrary: p) (auto simp: bind_eq_Some_conv)

lemma rd_add_Some:
  "rd m p n = Some xs \<Longrightarrow> rd m (p + n) k = Some ys \<Longrightarrow> rd m p (n + k) = Some (xs @ ys)"
  by (simp add: rd_split)

lemma rd_append_iff:
  "rd m p (length xs + k) = Some (xs @ ys) \<longleftrightarrow>
   rd m p (length xs) = Some xs \<and> rd m (p + length xs) k = Some ys"
  by (auto simp: rd_split split: bind_splits dest: rd_length)

lemma rd_take: "rd m p n = Some bs \<Longrightarrow> k \<le> n \<Longrightarrow> rd m p k = Some (take k bs)"
  by (auto simp: rd_Some_iff)

lemma rd_drop: "rd m p n = Some bs \<Longrightarrow> k \<le> n \<Longrightarrow> rd m (p + k) (n - k) = Some (drop k bs)"
  by (auto simp: rd_Some_iff add.assoc)

lemma rd_nth: "rd m p n = Some bs \<Longrightarrow> i < n \<Longrightarrow> m (p + i) = Some (bs ! i)"
  by (auto simp: rd_Some_iff)

lemma put_Nil [simp]: "put m p [] = m"
  by (rule ext) (auto simp: put_def)

lemma put_Cons: "put m p (b # bs) = put (m(p \<mapsto> b)) (Suc p) bs"
  by (rule ext) (auto simp: put_def nth_Cons' Suc_le_eq)

lemma put_append: "put m p (xs @ ys) = put (put m p xs) (p + length xs) ys"
  by (induction xs arbitrary: m p) (auto simp: put_Cons)

lemma put_snoc: "put m p (xs @ [y]) = (put m p xs)(p + length xs \<mapsto> y)"
  by (simp add: put_append put_Cons)

lemma put_apply_out [mem_simps]: "a < p \<or> p + length bs \<le> a \<Longrightarrow> put m p bs a = m a"
  by (auto simp: put_def)

lemma put_apply_in [mem_simps]: "i < length bs \<Longrightarrow> put m p bs (p + i) = Some (bs ! i)"
  by (auto simp: put_def)

lemma rd_put_same [mem_simps]: "n = length bs \<Longrightarrow> rd (put m p bs) p n = Some bs"
  by (auto simp: rd_Some_iff mem_simps)

lemma rd_cong: "(\<And>i. i < n \<Longrightarrow> m (p + i) = m' (q + i)) \<Longrightarrow> rd m p n = rd m' q n"
proof (induction n arbitrary: p q)
  case (Suc n)
  from Suc.prems[of 0] have "m p = m' q" by simp
  moreover have "rd m (Suc p) n = rd m' (Suc q) n"
    by (rule Suc.IH) (use Suc.prems[of "Suc i" for i] in auto)
  ultimately show ?case by simp
qed simp

lemma block_cases:
  fixes a p n :: nat
  obtains (inside) i where "a = p + i" "i < n" | (outside) "\<not> (p \<le> a \<and> a < p + n)"
  by (metis le_Suc_ex nat_add_left_cancel_less)

lemma rd_put_disj [mem_simps]: "disj p (length bs) q n \<Longrightarrow> rd (put m p bs) q n = rd m q n"
  by (rule rd_cong) (auto simp: disj_def put_def)

lemma put_dom:
  assumes "mapped m p (length bs)" shows "put m p bs a = None \<longleftrightarrow> m a = None"
proof (cases "p \<le> a \<and> a < p + length bs")
  case True
  then obtain i where "a = p + i" "i < length bs" using le_Suc_ex by force
  with assms show ?thesis by (simp add: put_def mapped_def)
qed (auto simp: put_def)

lemma mapped_put [mem_simps]: "mapped m p n \<Longrightarrow> mapped (put m q bs) p n"
  by (auto simp: mapped_def put_def)

lemma mapped_upd [mem_simps]: "mapped m p n \<Longrightarrow> mapped (m(q \<mapsto> b)) p n"
  by (auto simp: mapped_def)

lemma st8_Some: "m a \<noteq> None \<Longrightarrow> st8 m a b = Some (m(a \<mapsto> b))"
  by (auto simp: st8_def)

lemma wr_put: "mapped m p (length bs) \<Longrightarrow> wr m p bs = Some (put m p bs)"
proof (induction bs arbitrary: m p)
  case (Cons b bs)
  then have "m p \<noteq> None" and "mapped (m(p \<mapsto> b)) (Suc p) (length bs)"
    by (simp_all add: mapped_Suc mapped_upd)
  with Cons.IH show ?case by (simp add: st8_Some put_Cons)
qed simp

lemma wr_append: "wr m p (xs @ ys) = do { m \<leftarrow> wr m p xs; wr m (p + length xs) ys }"
  by (induction xs arbitrary: m p) (auto simp: bind_eq_Some_conv)

lemma put_put_disj:
  "disj p (length xs) q (length ys) \<Longrightarrow> put (put m p xs) q ys = put (put m q ys) p xs"
  by (rule ext) (auto simp: put_def disj_def)

lemma put_put_same: "length xs = length ys \<Longrightarrow> put (put m p xs) p ys = put m p ys"
  by (rule ext) (auto simp: put_def)

lemma put_rd_same: "rd m p n = Some bs \<Longrightarrow> put m p bs = m"
proof (rule ext)
  fix a assume rd: "rd m p n = Some bs"
  show "put m p bs a = m a"
  proof (cases "p \<le> a \<and> a < p + length bs")
    case True
    then obtain i where "a = p + i" "i < length bs" using le_Suc_ex by force
    with rd show ?thesis by (simp add: put_def rd_Some_iff)
  qed (auto simp: put_def)
qed

lemma disj_sym: "disj p n q k = disj q k p n"
  by (auto simp: disj_def)

lemma disj_mono: "disj p n q k \<Longrightarrow> p \<le> p' \<Longrightarrow> p' + n' \<le> p + n \<Longrightarrow> q \<le> q' \<Longrightarrow> q' + k' \<le> q + k \<Longrightarrow>
    disj p' n' q' k'"
  by (auto simp: disj_def)

section \<open>Delimited blocks and C strings\<close>

text \<open>\<open>delim_at m p d s\<close>: the bytes \<open>s\<close>, none of them \<open>d\<close>, and then \<open>d\<close>. A C string is delimited by 0.\<close>

definition delim_at :: "mem \<Rightarrow> addr \<Rightarrow> byte \<Rightarrow> byte list \<Rightarrow> bool" where
  "delim_at m p d s \<longleftrightarrow> rd m p (Suc (length s)) = Some (s @ [d]) \<and> d \<notin> set s"

abbreviation cstr_at :: "mem \<Rightarrow> addr \<Rightarrow> byte list \<Rightarrow> bool" where
  "cstr_at m p s \<equiv> delim_at m p 0 s"

lemma delim_at_Nil [simp]: "delim_at m p d [] \<longleftrightarrow> m p = Some d"
  by (auto simp: delim_at_def bind_eq_Some_conv)

lemma delim_at_Cons [simp]:
  "delim_at m p d (c # s) \<longleftrightarrow> m p = Some c \<and> c \<noteq> d \<and> delim_at m (Suc p) d s"
  by (auto simp: delim_at_def bind_eq_Some_conv)

lemma delim_at_append:
  "delim_at m p d (xs @ ys) \<longleftrightarrow>
   rd m p (length xs) = Some xs \<and> d \<notin> set xs \<and> delim_at m (p + length xs) d ys"
  by (induction xs arbitrary: p) (auto simp: bind_eq_Some_conv)

lemma delim_at_rd: "delim_at m p d s \<Longrightarrow> rd m p (Suc (length s)) = Some (s @ [d])"
  by (simp add: delim_at_def)

lemma delim_at_rd_body: "delim_at m p d s \<Longrightarrow> rd m p (length s) = Some s"
  using delim_at_append[of m p d s "[]"] by simp

lemma delim_at_nth: "delim_at m p d s \<Longrightarrow> i \<le> length s \<Longrightarrow> m (p + i) = Some ((s @ [d]) ! i)"
  using rd_nth[OF delim_at_rd, of m p d s i] by simp

lemma delim_at_end: "delim_at m p d s \<Longrightarrow> m (p + length s) = Some d"
  using delim_at_nth[of m p d s "length s"] by simp

lemma delim_at_mapped: "delim_at m p d s \<Longrightarrow> mapped m p (Suc (length s))"
  unfolding rd_mapped by (blast dest: delim_at_rd)

lemma delim_at_drop: "delim_at m p d s \<Longrightarrow> k \<le> length s \<Longrightarrow> delim_at m (p + k) d (drop k s)"
  using delim_at_append[of m p d "take k s" "drop k s"] by simp

lemma delim_at_notin: "delim_at m p d s \<Longrightarrow> d \<notin> set s"
  by (simp add: delim_at_def)

lemma delim_at_unique: "delim_at m p d s \<Longrightarrow> delim_at m p d t \<Longrightarrow> s = t"
proof (induction s arbitrary: p t)
  case Nil then show ?case by (cases t) auto
next
  case (Cons c s) then show ?case by (cases t) auto
qed

lemma delim_at_put_disj [mem_simps]:
  "disj q (length bs) p (Suc (length s)) \<Longrightarrow> delim_at (put m q bs) p d s \<longleftrightarrow> delim_at m p d s"
  by (simp only: delim_at_def rd_put_disj)

lemma delim_at_put_same: "d \<notin> set s \<Longrightarrow> delim_at (put m p (s @ [d])) p d s"
  by (simp add: delim_at_def rd_put_same del: rd.simps)

section \<open>Words in memory\<close>

fun le_int :: "byte list \<Rightarrow> int" where
  "le_int [] = 0"
| "le_int (b # bs) = uint b + 256 * le_int bs"

definition word_of_bytes :: "byte list \<Rightarrow> ulong" where
  "word_of_bytes bs = word_of_int (le_int bs)"

definition bytes_of_word :: "ulong \<Rightarrow> byte list" where
  "bytes_of_word w = map (\<lambda>i. ucast (drop_bit (8 * i) w)) [0..<8]"

text \<open>A \<open>long\<close> is read and written at an address that is a multiple of its size.\<close>

definition ld64 :: "mem \<Rightarrow> addr \<Rightarrow> ulong option" where
  "ld64 m a = (if a mod 8 = 0 then map_option word_of_bytes (rd m a 8) else None)"

definition st64 :: "mem \<Rightarrow> addr \<Rightarrow> ulong \<Rightarrow> mem option" where
  "st64 m a w = (if a mod 8 = 0 then wr m a (bytes_of_word w) else None)"

text \<open>The assignment \<open>*d = *s\<close> of \<open>long\<close>s.\<close>

definition copy64 :: "mem \<Rightarrow> addr \<Rightarrow> addr \<Rightarrow> mem option" where
  "copy64 m d s = do { w \<leftarrow> ld64 m s; st64 m d w }"

lemma length_bytes_of_word [simp]: "length (bytes_of_word w) = 8"
  by (simp add: bytes_of_word_def)

lemma le_int_bounds: "0 \<le> le_int bs \<and> le_int bs < 256 ^ length bs"
proof (induction bs)
  case (Cons b bs)
  have "0 \<le> uint b" "uint b < 256" using uint_lt2p[of b] by simp_all
  with Cons show ?case by simp
qed simp

lemma bit_byte_cons:
  fixes b Y :: int assumes "0 \<le> b" "b < 256"
  shows "bit (b + 256 * Y) n = (if n < 8 then bit b n else bit Y (n - 8))"
proof -
  have "b + 256 * Y = concat_bit 8 b Y"
    using assms by (simp add: concat_bit_eq take_bit_int_eq_self push_bit_eq_mult)
  then show ?thesis by (auto simp: bit_concat_bit_iff)
qed

lemma bit_le_int:
  "bit (le_int bs) n \<longleftrightarrow> n div 8 < length bs \<and> bit (bs ! (n div 8)) (n mod 8)"
proof (induction bs arbitrary: n)
  case (Cons b bs)
  have b: "0 \<le> uint b" "uint b < 256" using uint_lt2p[of b] by simp_all
  show ?case
  proof (cases "n < 8")
    case True
    then show ?thesis by (simp add: bit_byte_cons[OF b] bit_uint_iff)
  next
    case False
    then have "n div 8 = Suc ((n - 8) div 8)" "n mod 8 = (n - 8) mod 8"
      by (simp_all add: le_div_geq le_mod_geq)
    with False show ?thesis by (simp add: bit_byte_cons[OF b] Cons)
  qed
qed simp

lemma bytes_of_word_of_bytes: "length bs = 8 \<Longrightarrow> bytes_of_word (word_of_bytes bs) = bs"
proof (rule nth_equalityI)
  fix i assume "length bs = 8" "i < length (bytes_of_word (word_of_bytes bs))"
  then have i: "i < 8" "length bs = 8" by simp_all
  show "bytes_of_word (word_of_bytes bs) ! i = bs ! i"
  proof (rule bit_word_eqI)
    fix n assume "n < LENGTH(8)"
    then have n: "n < 8" by simp
    then have "(8 * i + n) div 8 = i" "(8 * i + n) mod 8 = n" "8 * i + n < 64"
      using i by auto
    with i n show "bit (bytes_of_word (word_of_bytes bs) ! i) n = bit (bs ! i) n"
      by (simp add: bytes_of_word_def word_of_bytes_def bit_le_int bit_ucast_iff bit_drop_bit_eq
          bit_word_of_int_iff)
  qed
qed simp

lemma word_of_bytes_of_word: "word_of_bytes (bytes_of_word w) = w"
proof (rule bit_word_eqI)
  fix n assume "n < LENGTH(64)"
  then have n: "n div 8 < 8" "n < 64" by auto
  then have "bytes_of_word w ! (n div 8) = ucast (drop_bit (8 * (n div 8)) w)"
    by (simp add: bytes_of_word_def)
  with n show "bit (word_of_bytes (bytes_of_word w)) n = bit w n"
    by (simp add: word_of_bytes_def bit_le_int bit_word_of_int_iff bit_ucast_iff bit_drop_bit_eq)
qed

lemma word_of_bytes_inj:
  "length xs = 8 \<Longrightarrow> length ys = 8 \<Longrightarrow> word_of_bytes xs = word_of_bytes ys \<longleftrightarrow> xs = ys"
  by (metis bytes_of_word_of_bytes)

lemma ld64_Some: "a mod 8 = 0 \<Longrightarrow> rd m a 8 = Some bs \<Longrightarrow> ld64 m a = Some (word_of_bytes bs)"
  by (simp add: ld64_def)

lemma copy64_put:
  assumes "d mod 8 = 0" "s mod 8 = 0" "rd m s 8 = Some bs" "mapped m d 8"
  shows "copy64 m d s = Some (put m d bs)"
  using assms rd_length[OF assms(3)]
  by (simp add: copy64_def ld64_def st64_def bytes_of_word_of_bytes wr_put)

lemma st64_put: "a mod 8 = 0 \<Longrightarrow> mapped m a 8 \<Longrightarrow> st64 m a w = Some (put m a (bytes_of_word w))"
  by (simp add: st64_def wr_put)

text \<open>
  Memory is mapped in units of whole aligned words, as pages are. The word-at-a-time
  scans read up to the end of the word that holds the terminating byte.
\<close>

definition word_mapped :: "mem \<Rightarrow> bool" where
  "word_mapped m \<longleftrightarrow> (\<forall>a. m a \<noteq> None \<longrightarrow> mapped m (8 * (a div 8)) 8)"

lemma word_mappedD: "word_mapped m \<Longrightarrow> m a \<noteq> None \<Longrightarrow> a mod 8 = 0 \<Longrightarrow> mapped m a 8"
  by (auto simp: word_mapped_def minus_mod_eq_mult_div [symmetric])

lemma word_mapped_put [mem_simps]:
  "mapped m p (length bs) \<Longrightarrow> word_mapped m \<Longrightarrow> word_mapped (put m p bs)"
  by (simp add: word_mapped_def put_dom mapped_put)

section \<open>The macros of string/local.h\<close>

definition UNALIGNED_X :: "addr \<Rightarrow> bool" where
  "UNALIGNED_X x \<longleftrightarrow> x mod 8 \<noteq> 0"

definition UNALIGNED_X_Y :: "addr \<Rightarrow> addr \<Rightarrow> bool" where
  "UNALIGNED_X_Y x y \<longleftrightarrow> x mod 8 \<noteq> 0 \<or> y mod 8 \<noteq> 0"

definition LITTLE_BLOCK_SIZE :: nat where "LITTLE_BLOCK_SIZE = 8"

definition BIG_BLOCK_SIZE :: nat where "BIG_BLOCK_SIZE = 32"

definition TOO_SMALL_LITTLE_BLOCK :: "nat \<Rightarrow> bool" where
  "TOO_SMALL_LITTLE_BLOCK len \<longleftrightarrow> len < LITTLE_BLOCK_SIZE"

definition TOO_SMALL_BIG_BLOCK :: "nat \<Rightarrow> bool" where
  "TOO_SMALL_BIG_BLOCK len \<longleftrightarrow> len < BIG_BLOCK_SIZE"

definition DETECT_NULL :: "ulong \<Rightarrow> ulong" where
  "DETECT_NULL x = (x - 0x0101010101010101) AND NOT x AND 0x8080808080808080"

definition DETECT_CHAR :: "ulong \<Rightarrow> ulong \<Rightarrow> ulong" where
  "DETECT_CHAR x msk = DETECT_NULL (x XOR msk)"

lemmas block_defs [termination_simp] = UNALIGNED_X_def UNALIGNED_X_Y_def LITTLE_BLOCK_SIZE_def BIG_BLOCK_SIZE_def
  TOO_SMALL_LITTLE_BLOCK_def TOO_SMALL_BIG_BLOCK_def

lemma and_byte_cons:
  fixes a b Y Z :: int assumes "0 \<le> a" "a < 256" "0 \<le> b" "b < 256"
  shows "(a + 256 * Y) AND (b + 256 * Z) = (a AND b) + 256 * (Y AND Z)"
proof -
  have ab: "0 \<le> (a AND b)" "(a AND b) < 256"
    using assms by (auto intro: le_less_trans[OF AND_upper1])
  show ?thesis
    by (rule bit_eqI)
      (simp add: bit_byte_cons[OF assms(1,2)] bit_byte_cons[OF assms(3,4)] bit_byte_cons[OF ab] bit_and_iff)
qed

lemma not_byte_cons: "NOT (b + 256 * Y) = (255 - b) + 256 * (NOT Y)" for b Y :: int
  by (simp add: not_int_def)

text \<open>The test over an unbounded integer with \<open>n\<close> bytes, for the induction over the bytes.\<close>

primrec byte_ones :: "nat \<Rightarrow> int" where
  "byte_ones 0 = 0"
| "byte_ones (Suc n) = 1 + 256 * byte_ones n"

definition detect_int :: "nat \<Rightarrow> int \<Rightarrow> int" where
  "detect_int n x = (x - byte_ones n) AND NOT x AND (128 * byte_ones n)"

lemma detect_byte: "1 \<le> b \<Longrightarrow> b < 256 \<Longrightarrow> (b - 1) AND ((255 - b) AND 128) = (0::int)"
proof -
  assume "1 \<le> b" "b < 256"
  then have "b \<in> set [1..255]" by simp
  moreover have "\<forall>b\<in>set [1..255]. (b - 1) AND ((255 - b) AND 128) = (0::int)" by code_simp
  ultimately show ?thesis by blast
qed

lemma detect_int_zero_byte: "detect_int (Suc n) (256 * Y) \<noteq> 0"
proof -
  have 1: "256 * Y - byte_ones (Suc n) = 255 + 256 * (Y - byte_ones n - 1)" by simp
  have 2: "128 * byte_ones (Suc n) = 128 + 256 * (128 * byte_ones n)" by simp
  have 3: "NOT (256 * Y) = 255 + 256 * NOT Y" using not_byte_cons[of 0 Y] by simp
  have "detect_int (Suc n) (256 * Y) =
      128 + 256 * ((Y - byte_ones n - 1) AND (NOT Y AND (128 * byte_ones n)))"
    unfolding detect_int_def 1 2 3 by (subst and_byte_cons; (subst and_byte_cons)?; simp)
  then show ?thesis by presburger
qed

lemma detect_int_other_byte:
  assumes "1 \<le> b" "b < 256"
  shows "detect_int (Suc n) (b + 256 * Y) = 256 * detect_int n Y"
proof -
  have 1: "b + 256 * Y - byte_ones (Suc n) = (b - 1) + 256 * (Y - byte_ones n)" by simp
  have 2: "128 * byte_ones (Suc n) = 128 + 256 * (128 * byte_ones n)" by simp
  have 3: "0 \<le> ((255 - b) AND 128)" "((255 - b) AND 128) < 256"
    using assms by (auto intro: le_less_trans[OF AND_upper1])
  show ?thesis using assms 3
    unfolding detect_int_def 1 2 not_byte_cons
    by (subst and_byte_cons; (subst and_byte_cons)?; simp add: detect_byte)
qed

lemma detect_int_le_int: "detect_int (length bs) (le_int bs) = 0 \<longleftrightarrow> 0 \<notin> set bs"
proof (induction bs)
  case Nil then show ?case by (simp add: detect_int_def)
next
  case (Cons b bs)
  show ?case
  proof (cases "b = 0")
    case True then show ?thesis using detect_int_zero_byte[of "length bs" "le_int bs"] by simp
  next
    case False
    then have "uint b \<noteq> 0" by (simp add: uint_0_iff)
    moreover have "0 \<le> uint b" "uint b < 256" using uint_lt2p[of b] by simp_all
    ultimately have "1 \<le> uint b" "uint b < 256" by linarith+
    with Cons False show ?thesis by (simp add: detect_int_other_byte)
  qed
qed

lemma DETECT_NULL_bytes:
  assumes "length bs = 8"
  shows "DETECT_NULL (word_of_bytes bs) = 0 \<longleftrightarrow> 0 \<notin> set bs"
proof -
  have "DETECT_NULL (word_of_bytes bs) = word_of_int (detect_int 8 (le_int bs))"
    by (simp add: DETECT_NULL_def detect_int_def word_of_bytes_def eval_nat_numeral
        of_int_and_eq of_int_not_eq)
  moreover have "0 \<le> detect_int 8 (le_int bs)" "detect_int 8 (le_int bs) < 2 ^ 64"
  proof -
    have 1: "(0::int) \<le> 128 * byte_ones 8" "128 * byte_ones 8 < 2 ^ 64"
      by (simp_all add: eval_nat_numeral)
    then show "0 \<le> detect_int 8 (le_int bs)" by (simp add: detect_int_def)
    show "detect_int 8 (le_int bs) < 2 ^ 64"
      unfolding detect_int_def using 1 by (auto intro!: le_less_trans[OF AND_upper2 1(2)])
  qed
  ultimately show ?thesis
    using detect_int_le_int[of bs] assms zdvd_imp_le[of "2 ^ 64" "detect_int 8 (le_int bs)"]
    by (auto simp: word_of_int_eq_0_iff)
qed

text \<open>Memory images for concrete runs.\<close>

lemma mapped_code [code]: "mapped m p n \<longleftrightarrow> rd m p n \<noteq> None"
  by (auto simp: rd_mapped)

definition mem_image :: "addr \<Rightarrow> byte list \<Rightarrow> mem" where
  "mem_image p bs = put Map.empty p bs"

lemma word_mapped_mem_image:
  assumes "8 dvd p" "8 dvd length bs"
  shows "word_mapped (mem_image p bs)"
proof -
  obtain k l where kl: "p = 8 * k" "length bs = 8 * l" using assms unfolding dvd_def by auto
  show ?thesis unfolding word_mapped_def mapped_def mem_image_def
  proof (intro allI impI)
    fix a i :: nat
    assume "put Map.empty p bs a \<noteq> None" and i: "i < 8"
    then have "8 * k \<le> a" "a < 8 * (k + l)" using kl by (auto simp: put_def split: if_splits)
    then have "k \<le> a div 8" "a div 8 < k + l" by auto
    then have "8 * k \<le> 8 * (a div 8) + i" "8 * (a div 8) + i < 8 * k + 8 * l" using i by auto
    then show "put Map.empty p bs (8 * (a div 8) + i) \<noteq> None" using kl by (auto simp: put_def)
  qed
qed

end
