(* ===== verification/MemFns.thy ===== *)
theory MemFns
  imports Prelude
begin

text \<open>
  The block functions of \<open>newlib/libc/string\<close>: \<open>memcpy\<close>, \<open>mempcpy\<close>, \<open>memmove\<close>,
  \<open>memset\<close>, \<open>memcmp\<close>, \<open>memchr\<close>, \<open>rawmemchr\<close>, \<open>memccpy\<close> and the functions that
  call them. Each has two bodies, chosen by \<open>PREFER_SIZE_OVER_SPEED\<close>: the byte loop (suffix
  \<open>_small\<close> here) and the one that works on aligned \<open>long\<close>s. A \<open>size_t\<close> is a natural number.
\<close>

section \<open>Definitions\<close>

subsection \<open>Copying\<close>

text \<open>\<open>while (len0--) *dst++ = *src++;\<close>\<close>

fun copy_bytes :: "mem \<Rightarrow> addr \<Rightarrow> addr \<Rightarrow> nat \<Rightarrow> (mem \<times> addr) option" where
  "copy_bytes m dst src 0 = Some (m, dst)"
| "copy_bytes m dst src (Suc len) = do {
     c \<leftarrow> ld8 m src;
     m \<leftarrow> st8 m dst c;
     copy_bytes m (dst + 1) (src + 1) len }"

text \<open>The loop unrolled four times, and the loop over single \<open>long\<close>s.\<close>

fun copy_big :: "mem \<Rightarrow> addr \<Rightarrow> addr \<Rightarrow> nat \<Rightarrow> (mem \<times> addr \<times> addr \<times> nat) option" where
  "copy_big m dst src len =
     (if TOO_SMALL_BIG_BLOCK len then Some (m, dst, src, len)
      else do {
        m \<leftarrow> copy64 m dst src;
        m \<leftarrow> copy64 m (dst + 8) (src + 8);
        m \<leftarrow> copy64 m (dst + 16) (src + 16);
        m \<leftarrow> copy64 m (dst + 24) (src + 24);
        copy_big m (dst + 32) (src + 32) (len - BIG_BLOCK_SIZE) })"

fun copy_little :: "mem \<Rightarrow> addr \<Rightarrow> addr \<Rightarrow> nat \<Rightarrow> (mem \<times> addr \<times> addr \<times> nat) option" where
  "copy_little m dst src len =
     (if TOO_SMALL_LITTLE_BLOCK len then Some (m, dst, src, len)
      else do {
        m \<leftarrow> copy64 m dst src;
        copy_little m (dst + 8) (src + 8) (len - LITTLE_BLOCK_SIZE) })"

declare copy_big.simps [simp del] copy_little.simps [simp del]

definition memcpy_small :: "mem \<Rightarrow> addr \<Rightarrow> addr \<Rightarrow> nat \<Rightarrow> (mem \<times> addr) option" where
  "memcpy_small m dst0 src0 len0 = do {
     (m, dst) \<leftarrow> copy_bytes m dst0 src0 len0;
     Some (m, dst0) }"

definition memcpy :: "mem \<Rightarrow> addr \<Rightarrow> addr \<Rightarrow> nat \<Rightarrow> (mem \<times> addr) option" where
  "memcpy m dst0 src0 len0 = do {
     (m, dst, src, len) \<leftarrow>
       (if \<not> TOO_SMALL_LITTLE_BLOCK len0 \<and> \<not> UNALIGNED_X_Y src0 dst0
        then do { (m, dst, src, len) \<leftarrow> copy_big m dst0 src0 len0;
                  copy_little m dst src len }
        else Some (m, dst0, src0, len0));
     (m, dst) \<leftarrow> copy_bytes m dst src len;
     Some (m, dst0) }"

definition mempcpy_small :: "mem \<Rightarrow> addr \<Rightarrow> addr \<Rightarrow> nat \<Rightarrow> (mem \<times> addr) option" where
  "mempcpy_small m dst0 src0 len0 = copy_bytes m dst0 src0 len0"

definition mempcpy :: "mem \<Rightarrow> addr \<Rightarrow> addr \<Rightarrow> nat \<Rightarrow> (mem \<times> addr) option" where
  "mempcpy m dst0 src0 len0 = do {
     (m, dst, src, len) \<leftarrow>
       (if \<not> TOO_SMALL_LITTLE_BLOCK len0 \<and> \<not> UNALIGNED_X_Y src0 dst0
        then do { (m, dst, src, len) \<leftarrow> copy_big m dst0 src0 len0;
                  copy_little m dst src len }
        else Some (m, dst0, src0, len0));
     copy_bytes m dst src len }"

text \<open>The descending loops of \<open>memmove\<close>: \<open>dst\<close> and \<open>src\<close> point past the block.\<close>

fun copy_bytes_down :: "mem \<Rightarrow> addr \<Rightarrow> addr \<Rightarrow> nat \<Rightarrow> mem option" where
  "copy_bytes_down m dst src 0 = Some m"
| "copy_bytes_down m dst src (Suc len) = do {
     c \<leftarrow> ld8 m (src - 1);
     m \<leftarrow> st8 m (dst - 1) c;
     copy_bytes_down m (dst - 1) (src - 1) len }"

fun copy_little_down :: "mem \<Rightarrow> addr \<Rightarrow> addr \<Rightarrow> nat \<Rightarrow> (mem \<times> addr \<times> addr \<times> nat) option" where
  "copy_little_down m dst src len =
     (if TOO_SMALL_LITTLE_BLOCK len then Some (m, dst, src, len)
      else do {
        m \<leftarrow> copy64 m (dst - 8) (src - 8);
        copy_little_down m (dst - 8) (src - 8) (len - LITTLE_BLOCK_SIZE) })"

declare copy_little_down.simps [simp del]

definition memmove_small :: "mem \<Rightarrow> addr \<Rightarrow> addr \<Rightarrow> nat \<Rightarrow> (mem \<times> addr) option" where
  "memmove_small m dst src len =
     (if src < dst \<and> dst < src + len
      then do { m \<leftarrow> copy_bytes_down m (dst + len) (src + len) len; Some (m, dst) }
      else do { (m, _) \<leftarrow> copy_bytes m dst src len; Some (m, dst) })"

definition memmove :: "mem \<Rightarrow> addr \<Rightarrow> addr \<Rightarrow> nat \<Rightarrow> (mem \<times> addr) option" where
  "memmove m dst0 src0 len0 =
     (if src0 < dst0 \<and> dst0 < src0 + len0
      then let src = src0 + len0; dst = dst0 + len0 in do {
        (m, dst, src, len) \<leftarrow>
          (if \<not> TOO_SMALL_LITTLE_BLOCK len0 \<and> \<not> UNALIGNED_X_Y src dst
           then copy_little_down m dst src len0
           else Some (m, dst, src, len0));
        m \<leftarrow> copy_bytes_down m dst src len;
        Some (m, dst0) }
      else do {
        (m, dst, src, len) \<leftarrow>
          (if \<not> TOO_SMALL_LITTLE_BLOCK len0 \<and> \<not> UNALIGNED_X_Y src0 dst0
           then do { (m, dst, src, len) \<leftarrow> copy_big m dst0 src0 len0;
                     copy_little m dst src len }
           else Some (m, dst0, src0, len0));
        (m, _) \<leftarrow> copy_bytes m dst src len;
        Some (m, dst0) })"

definition bcopy :: "mem \<Rightarrow> addr \<Rightarrow> addr \<Rightarrow> nat \<Rightarrow> mem option" where
  "bcopy m b1 b2 len = do { (m, _) \<leftarrow> memmove m b2 b1 len; Some m }"

subsection \<open>Filling\<close>

text \<open>The byte \<open>d\<close> in every byte of a \<open>long\<close>: the loop over \<open>i\<close> runs for \<open>i = 32\<close> only.\<close>

definition fill_mask :: "byte \<Rightarrow> ulong" where
  "fill_mask d =
     (let w = ucast d; mask1 = push_bit 8 w OR w; mask2 = push_bit 16 mask1 OR mask1
      in fold (\<lambda>i msk. push_bit i msk OR msk) [32] mask2)"

fun set_bytes :: "mem \<Rightarrow> addr \<Rightarrow> byte \<Rightarrow> nat \<Rightarrow> mem option" where
  "set_bytes m s c 0 = Some m"
| "set_bytes m s c (Suc n) = do { m \<leftarrow> st8 m s c; set_bytes m (s + 1) c n }"

text \<open>Up to a \<open>long\<close> boundary. \<open>Inl\<close> is the early return, \<open>Inr\<close> the state after the loop.\<close>

fun set_unaligned :: "mem \<Rightarrow> addr \<Rightarrow> byte \<Rightarrow> nat \<Rightarrow> (mem + mem \<times> addr \<times> nat) option" where
  "set_unaligned m s c n =
     (if UNALIGNED_X s
      then (case n of 0 \<Rightarrow> Some (Inl m)
            | Suc n' \<Rightarrow> do { m \<leftarrow> st8 m s c; set_unaligned m (s + 1) c n' })
      else Some (Inr (m, s, n)))"

fun set_big :: "mem \<Rightarrow> addr \<Rightarrow> ulong \<Rightarrow> nat \<Rightarrow> (mem \<times> addr \<times> nat) option" where
  "set_big m s buffer n =
     (if TOO_SMALL_BIG_BLOCK n then Some (m, s, n)
      else do {
        m \<leftarrow> st64 m s buffer;
        m \<leftarrow> st64 m (s + 8) buffer;
        m \<leftarrow> st64 m (s + 16) buffer;
        m \<leftarrow> st64 m (s + 24) buffer;
        set_big m (s + 32) buffer (n - BIG_BLOCK_SIZE) })"

fun set_little :: "mem \<Rightarrow> addr \<Rightarrow> ulong \<Rightarrow> nat \<Rightarrow> (mem \<times> addr \<times> nat) option" where
  "set_little m s buffer n =
     (if TOO_SMALL_LITTLE_BLOCK n then Some (m, s, n)
      else do {
        m \<leftarrow> st64 m s buffer;
        set_little m (s + 8) buffer (n - LITTLE_BLOCK_SIZE) })"

declare set_unaligned.simps [simp del] set_big.simps [simp del] set_little.simps [simp del]

definition memset_small :: "mem \<Rightarrow> addr \<Rightarrow> int \<Rightarrow> nat \<Rightarrow> (mem \<times> addr) option" where
  "memset_small m p c n = do { m \<leftarrow> set_bytes m p (word_of_int c) n; Some (m, p) }"

definition memset :: "mem \<Rightarrow> addr \<Rightarrow> int \<Rightarrow> nat \<Rightarrow> (mem \<times> addr) option" where
  "memset m p c n = do {
     r \<leftarrow> set_unaligned m p (word_of_int c) n;
     (case r of
        Inl m \<Rightarrow> Some (m, p)
      | Inr (m, s, n) \<Rightarrow> do {
          (m, s, n) \<leftarrow>
            (if \<not> TOO_SMALL_LITTLE_BLOCK n
             then do { (m, s, n) \<leftarrow> set_big m s (fill_mask (word_of_int c)) n;
                       set_little m s (fill_mask (word_of_int c)) n }
             else Some (m, s, n));
          m \<leftarrow> set_bytes m s (word_of_int c) n;
          Some (m, p) }) }"

definition bzero :: "mem \<Rightarrow> addr \<Rightarrow> nat \<Rightarrow> mem option" where
  "bzero m b len = do { (m, _) \<leftarrow> memset m b 0 len; Some m }"

subsection \<open>Comparing\<close>

fun cmp_bytes :: "mem \<Rightarrow> addr \<Rightarrow> addr \<Rightarrow> nat \<Rightarrow> int option" where
  "cmp_bytes m s1 s2 0 = Some 0"
| "cmp_bytes m s1 s2 (Suc n) = do {
     a \<leftarrow> ld8 m s1;
     b \<leftarrow> ld8 m s2;
     if a \<noteq> b then Some (uint a - uint b) else cmp_bytes m (s1 + 1) (s2 + 1) n }"

fun cmp_words :: "mem \<Rightarrow> addr \<Rightarrow> addr \<Rightarrow> nat \<Rightarrow> (addr \<times> addr \<times> nat) option" where
  "cmp_words m a1 a2 n =
     (if TOO_SMALL_LITTLE_BLOCK n then Some (a1, a2, n)
      else do {
        x \<leftarrow> ld64 m a1;
        y \<leftarrow> ld64 m a2;
        if x \<noteq> y then Some (a1, a2, n) else cmp_words m (a1 + 8) (a2 + 8) (n - LITTLE_BLOCK_SIZE) })"

declare cmp_words.simps [simp del]

definition memcmp_small :: "mem \<Rightarrow> addr \<Rightarrow> addr \<Rightarrow> nat \<Rightarrow> int option" where
  "memcmp_small m m1 m2 n = cmp_bytes m m1 m2 n"

definition memcmp :: "mem \<Rightarrow> addr \<Rightarrow> addr \<Rightarrow> nat \<Rightarrow> int option" where
  "memcmp m m1 m2 n = do {
     (s1, s2, n) \<leftarrow>
       (if \<not> TOO_SMALL_LITTLE_BLOCK n \<and> \<not> UNALIGNED_X_Y m1 m2 then cmp_words m m1 m2 n
        else Some (m1, m2, n));
     cmp_bytes m s1 s2 n }"

definition bcmp :: "mem \<Rightarrow> addr \<Rightarrow> addr \<Rightarrow> nat \<Rightarrow> int option" where
  "bcmp m m1 m2 n = memcmp m m1 m2 n"

subsection \<open>Searching\<close>

fun chr_bytes :: "mem \<Rightarrow> addr \<Rightarrow> byte \<Rightarrow> nat \<Rightarrow> addr option" where
  "chr_bytes m src d 0 = Some NULL"
| "chr_bytes m src d (Suc n) = do {
     c \<leftarrow> ld8 m src;
     if c = d then Some src else chr_bytes m (src + 1) d n }"

fun chr_unaligned :: "mem \<Rightarrow> addr \<Rightarrow> byte \<Rightarrow> nat \<Rightarrow> (addr + addr \<times> nat) option" where
  "chr_unaligned m src d n =
     (if UNALIGNED_X src
      then (case n of 0 \<Rightarrow> Some (Inl NULL)
            | Suc n' \<Rightarrow> do {
                c \<leftarrow> ld8 m src;
                if c = d then Some (Inl src) else chr_unaligned m (src + 1) d n' })
      else Some (Inr (src, n)))"

fun chr_words :: "mem \<Rightarrow> addr \<Rightarrow> ulong \<Rightarrow> nat \<Rightarrow> (addr \<times> nat) option" where
  "chr_words m asrc msk n =
     (if TOO_SMALL_LITTLE_BLOCK n then Some (asrc, n)
      else do {
        w \<leftarrow> ld64 m asrc;
        if DETECT_CHAR w msk \<noteq> 0 then Some (asrc, n)
        else chr_words m (asrc + 8) msk (n - LITTLE_BLOCK_SIZE) })"

declare chr_unaligned.simps [simp del] chr_words.simps [simp del]

definition memchr_small :: "mem \<Rightarrow> addr \<Rightarrow> int \<Rightarrow> nat \<Rightarrow> addr option" where
  "memchr_small m src c len = chr_bytes m src (word_of_int c) len"

definition memchr :: "mem \<Rightarrow> addr \<Rightarrow> int \<Rightarrow> nat \<Rightarrow> addr option" where
  "memchr m src c len = do {
     r \<leftarrow> chr_unaligned m src (word_of_int c) len;
     (case r of
        Inl ret \<Rightarrow> Some ret
      | Inr (src, len) \<Rightarrow> do {
          (src, len) \<leftarrow>
            (if \<not> TOO_SMALL_LITTLE_BLOCK len
             then chr_words m src (fill_mask (word_of_int c)) len
             else Some (src, len));
          chr_bytes m src (word_of_int c) len }) }"


text \<open>
  The three loops of \<open>rawmemchr\<close>, none of which is bounded by a length. The condition that
  ends the second and the third is a parameter, since the string functions have the same
  loops with other conditions.
\<close>

partial_function (option) scan_unaligned :: "mem \<Rightarrow> byte \<Rightarrow> addr \<Rightarrow> (addr + addr) option" where
  "scan_unaligned m d src =
     (if UNALIGNED_X src
      then do { c \<leftarrow> ld8 m src;
                if c = d then Some (Inl src) else scan_unaligned m d (src + 1) }
      else Some (Inr src))"

partial_function (option) scan_words :: "mem \<Rightarrow> (ulong \<Rightarrow> bool) \<Rightarrow> addr \<Rightarrow> addr option" where
  "scan_words m stop asrc = do {
     w \<leftarrow> ld64 m asrc;
     if stop w then Some asrc else scan_words m stop (asrc + 8) }"

partial_function (option) scan_bytes :: "mem \<Rightarrow> (byte \<Rightarrow> bool) \<Rightarrow> addr \<Rightarrow> addr option" where
  "scan_bytes m stop src = do {
     c \<leftarrow> ld8 m src;
     if stop c then Some src else scan_bytes m stop (src + 1) }"

declare scan_unaligned.simps [code] scan_words.simps [code] scan_bytes.simps [code]

definition rawmemchr_small :: "mem \<Rightarrow> addr \<Rightarrow> int \<Rightarrow> addr option" where
  "rawmemchr_small m src c = scan_bytes m (\<lambda>b. b = word_of_int c) src"

definition rawmemchr :: "mem \<Rightarrow> addr \<Rightarrow> int \<Rightarrow> addr option" where
  "rawmemchr m src c = do {
     r \<leftarrow> scan_unaligned m (word_of_int c) src;
     (case r of
        Inl ret \<Rightarrow> Some ret
      | Inr src \<Rightarrow> do {
          src \<leftarrow> scan_words m (\<lambda>w. DETECT_CHAR w (fill_mask (word_of_int c)) \<noteq> 0) src;
          scan_bytes m (\<lambda>b. b = word_of_int c) src }) }"

subsection \<open>Copying up to a byte\<close>

fun ccpy_bytes :: "mem \<Rightarrow> addr \<Rightarrow> addr \<Rightarrow> byte \<Rightarrow> nat \<Rightarrow> (mem \<times> addr) option" where
  "ccpy_bytes m dst src endchar 0 = Some (m, NULL)"
| "ccpy_bytes m dst src endchar (Suc n) = do {
     c \<leftarrow> ld8 m src;
     m \<leftarrow> st8 m dst c;
     if c = endchar then Some (m, dst + 1) else ccpy_bytes m (dst + 1) (src + 1) endchar n }"

fun ccpy_words :: "mem \<Rightarrow> addr \<Rightarrow> addr \<Rightarrow> ulong \<Rightarrow> nat \<Rightarrow> (mem \<times> addr \<times> addr \<times> nat) option" where
  "ccpy_words m dst src msk n =
     (if TOO_SMALL_LITTLE_BLOCK n then Some (m, dst, src, n)
      else do {
        buffer \<leftarrow> ld64 m src;
        if DETECT_NULL (buffer XOR msk) \<noteq> 0 then Some (m, dst, src, n)
        else do {
          m \<leftarrow> copy64 m dst src;
          ccpy_words m (dst + 8) (src + 8) msk (n - LITTLE_BLOCK_SIZE) } })"

declare ccpy_words.simps [simp del]

definition memccpy_small :: "mem \<Rightarrow> addr \<Rightarrow> addr \<Rightarrow> int \<Rightarrow> nat \<Rightarrow> (mem \<times> addr) option" where
  "memccpy_small m dst0 src0 endchar0 len0 = ccpy_bytes m dst0 src0 (word_of_int endchar0) len0"

definition memccpy :: "mem \<Rightarrow> addr \<Rightarrow> addr \<Rightarrow> int \<Rightarrow> nat \<Rightarrow> (mem \<times> addr) option" where
  "memccpy m dst0 src0 endchar0 len0 = do {
     (m, dst, src, len) \<leftarrow>
       (if \<not> TOO_SMALL_LITTLE_BLOCK len0 \<and> \<not> UNALIGNED_X_Y src0 dst0
        then ccpy_words m dst0 src0 (fill_mask (word_of_int endchar0)) len0
        else Some (m, dst0, src0, len0));
     ccpy_bytes m dst src (word_of_int endchar0) len }"

section \<open>Copying is a simultaneous move of the block\<close>

text \<open>\<open>blit m d s n\<close>: every byte of the destination gets the byte the source had before.\<close>

definition blit :: "mem \<Rightarrow> addr \<Rightarrow> addr \<Rightarrow> nat \<Rightarrow> mem" where
  "blit m d s n = (\<lambda>a. if d \<le> a \<and> a < d + n then m (s + (a - d)) else m a)"

definition ascending_ok :: "addr \<Rightarrow> addr \<Rightarrow> nat \<Rightarrow> bool" where
  "ascending_ok d s n \<longleftrightarrow> d \<le> s \<or> s + n \<le> d"

definition descending_ok :: "addr \<Rightarrow> addr \<Rightarrow> nat \<Rightarrow> bool" where
  "descending_ok d s n \<longleftrightarrow> s \<le> d \<or> d + n \<le> s"

lemma blit_0 [simp]: "blit m d s 0 = m"
  by (rule ext) (auto simp: blit_def)

lemma blit_ascending:
  "ascending_ok d s (k + n) \<Longrightarrow> blit (blit m d s k) (d + k) (s + k) n = blit m d s (k + n)"
  by (rule ext) (auto simp: blit_def ascending_ok_def)

lemma blit_descending:
  "descending_ok d s (k + n) \<Longrightarrow> blit (blit m (d + k) (s + k) n) d s k = blit m d s (k + n)"
  by (rule ext) (auto simp: blit_def descending_ok_def)

lemma put_rd_blit: "rd m s n = Some bs \<Longrightarrow> put m d bs = blit m d s n"
proof (rule ext)
  fix a assume "rd m s n = Some bs"
  then show "put m d bs a = blit m d s n a"
    by (cases a d n rule: block_cases) (auto simp: put_def blit_def rd_Some_iff)
qed

lemma rd_blit_same: "rd (blit m d s n) d n = rd m s n"
  by (rule rd_cong) (simp add: blit_def)

lemma mapped_blit [mem_simps]:
  "mapped m s n \<Longrightarrow> mapped m q k \<Longrightarrow> mapped (blit m d s n) q k"
proof (unfold mapped_def, intro allI impI)
  fix i assume "\<forall>i<n. m (s + i) \<noteq> None" "\<forall>i<k. m (q + i) \<noteq> None" "i < k"
  then show "blit m d s n (q + i) \<noteq> None"
    by (cases "q + i" d n rule: block_cases) (auto simp: blit_def)
qed

lemma copy64_blit:
  assumes "d mod 8 = 0" "s mod 8 = 0" "mapped m s 8" "mapped m d 8"
  shows "copy64 m d s = Some (blit m d s 8)"
proof -
  obtain bs where "rd m s 8 = Some bs" using assms(3) rd_mapped by blast
  with assms show ?thesis by (simp add: copy64_put put_rd_blit)
qed

lemma copy_bytes_blit:
  "mapped m s n \<Longrightarrow> mapped m d n \<Longrightarrow> ascending_ok d s n \<Longrightarrow>
   copy_bytes m d s n = Some (blit m d s n, d + n)"
proof (induction n arbitrary: m d s)
  case (Suc n)
  have 1: "mapped m s 1" "mapped m d 1" using Suc.prems by (auto simp: mapped_Suc)
  obtain c where c: "m s = Some c" using Suc.prems by (auto simp: mapped_Suc)
  have b: "blit m d s (Suc 0) = m(d \<mapsto> c)" by (rule ext) (auto simp: blit_def c)
  have "mapped m (Suc s) n" "mapped m (Suc d) n" using Suc.prems by (auto simp: mapped_Suc)
  then have "copy_bytes (blit m d s 1) (d + 1) (s + 1) n
      = Some (blit (blit m d s 1) (d + 1) (s + 1) n, d + 1 + n)"
    using Suc.prems 1 by (intro Suc.IH) (auto simp: mem_simps ascending_ok_def)
  also have "blit (blit m d s 1) (d + 1) (s + 1) n = blit m d s (Suc n)"
    using blit_ascending[of d s 1 n m] Suc.prems by (simp add: ascending_ok_def)
  finally show ?case using c Suc.prems(2) by (simp add: st8_Some mapped_Suc flip: b)
qed simp


text \<open>Every loop copies some prefix (a suffix, when it descends) of what is left.\<close>

lemma copy_little_blit:
  "d mod 8 = 0 \<Longrightarrow> s mod 8 = 0 \<Longrightarrow> mapped m s n \<Longrightarrow> mapped m d n \<Longrightarrow> ascending_ok d s n \<Longrightarrow>
   \<exists>k\<le>n. copy_little m d s n = Some (blit m d s k, d + k, s + k, n - k)"
proof (induction n arbitrary: m d s rule: less_induct)
  case (less n)
  show ?case
  proof (cases "n < 8")
    case True
    then show ?thesis by (intro exI[of _ 0]) (simp add: copy_little.simps block_defs)
  next
    case False
    then obtain r where n: "n = 8 + r" using le_Suc_ex not_less by blast
    have "copy64 m d s = Some (blit m d s 8)"
      using less.prems n by (auto intro!: copy64_blit simp: mapped_split)
    then have w: "copy_little m d s n = copy_little (blit m d s 8) (d + 8) (s + 8) r"
      using n by (subst copy_little.simps) (simp add: block_defs)
    have "\<exists>k\<le>r. copy_little (blit m d s 8) (d + 8) (s + 8) r
        = Some (blit (blit m d s 8) (d + 8) (s + 8) k, d + 8 + k, s + 8 + k, r - k)"
      using less.prems n by (intro less.IH) (auto simp: mapped_split mem_simps ascending_ok_def)
    then obtain k where k: "k \<le> r" "copy_little (blit m d s 8) (d + 8) (s + 8) r
        = Some (blit m d s (8 + k), d + (8 + k), s + (8 + k), r - k)"
      using less.prems n by (auto simp: blit_ascending ascending_ok_def add.assoc)
    show ?thesis using k n w by (intro exI[of _ "8 + k"]) simp
  qed
qed

lemma copy64_four_blit:
  assumes "d mod 8 = 0" "s mod 8 = 0" "mapped m s 32" "mapped m d 32" "ascending_ok d s 32"
  shows "do { m \<leftarrow> copy64 m d s; m \<leftarrow> copy64 m (d + 8) (s + 8);
              m \<leftarrow> copy64 m (d + 16) (s + 16); m \<leftarrow> copy64 m (d + 24) (s + 24); f m }
         = f (blit m d s 32)"
proof -
  have sp: "mapped m p 8" "mapped m (p + 8) 8" "mapped m (p + 16) 8" "mapped m (p + 24) 8"
    if "mapped m p 32" for p
    using that mapped_split[of m p 8 24] mapped_split[of m "p + 8" 8 16] mapped_split[of m "p + 16" 8 8]
    by (auto simp: add.assoc)
  have al: "(d + 8) mod 8 = 0" "(d + 16) mod 8 = 0" "(d + 24) mod 8 = 0"
      "(s + 8) mod 8 = 0" "(s + 16) mod 8 = 0" "(s + 24) mod 8 = 0" using assms by auto
  have b: "blit (blit m d s 8) (d + 8) (s + 8) 8 = blit m d s 16"
      "blit (blit m d s 16) (d + 16) (s + 16) 8 = blit m d s 24"
      "blit (blit m d s 24) (d + 24) (s + 24) 8 = blit m d s 32"
    using assms(5) blit_ascending[of d s 8 8 m] blit_ascending[of d s 16 8 m] blit_ascending[of d s 24 8 m]
    by (auto simp: ascending_ok_def)
  have pre: "mapped m s 16" "mapped m s 24" using assms(3) by (auto elim: mapped_le)
  show ?thesis
    using assms sp[OF assms(3)] sp[OF assms(4)] al pre
    by (simp add: copy64_blit mapped_blit b)
qed

lemma copy_big_blit:
  "d mod 8 = 0 \<Longrightarrow> s mod 8 = 0 \<Longrightarrow> mapped m s n \<Longrightarrow> mapped m d n \<Longrightarrow> ascending_ok d s n \<Longrightarrow>
   \<exists>k\<le>n. k mod 8 = 0 \<and> copy_big m d s n = Some (blit m d s k, d + k, s + k, n - k)"
proof (induction n arbitrary: m d s rule: less_induct)
  case (less n)
  show ?case
  proof (cases "n < 32")
    case True
    then show ?thesis by (intro exI[of _ 0]) (simp add: copy_big.simps block_defs)
  next
    case False
    then obtain r where n: "n = 32 + r" using le_Suc_ex not_less by blast
    have w: "copy_big m d s n = copy_big (blit m d s 32) (d + 32) (s + 32) r"
    proof -
      have "ascending_ok d s 32" using less.prems n by (auto simp: ascending_ok_def)
      then show ?thesis using less.prems n
        by (subst copy_big.simps) (simp add: block_defs mapped_split copy64_four_blit del: bind_assoc)
    qed
    have "\<exists>k\<le>r. k mod 8 = 0 \<and> copy_big (blit m d s 32) (d + 32) (s + 32) r
        = Some (blit (blit m d s 32) (d + 32) (s + 32) k, d + 32 + k, s + 32 + k, r - k)"
      using less.prems n by (intro less.IH) (auto simp: mapped_split mem_simps ascending_ok_def)
    then obtain k where k: "k \<le> r" "k mod 8 = 0" "copy_big (blit m d s 32) (d + 32) (s + 32) r
        = Some (blit m d s (32 + k), d + (32 + k), s + (32 + k), r - k)"
      using less.prems n by (auto simp: blit_ascending ascending_ok_def add.assoc)
    from k(2) have "(32 + k) mod 8 = 0" by presburger
    then show ?thesis using k n w by (intro exI[of _ "32 + k"]) simp
  qed
qed

text \<open>The whole ascending copy, as \<open>memcpy\<close>, \<open>mempcpy\<close> and \<open>memmove\<close> do it.\<close>

lemma copy_ascending_blit:
  assumes "mapped m s n" "mapped m d n" "ascending_ok d s n"
  shows "do { (m, d, s, n) \<leftarrow>
             (if \<not> TOO_SMALL_LITTLE_BLOCK n \<and> \<not> UNALIGNED_X_Y s d
              then do { (m, d, s, n) \<leftarrow> copy_big m d s n; copy_little m d s n }
              else Some (m, d, s, n));
           copy_bytes m d s n } = Some (blit m d s n, d + n)"
proof (cases "\<not> TOO_SMALL_LITTLE_BLOCK n \<and> \<not> UNALIGNED_X_Y s d")
  case False
  then show ?thesis using assms by (simp only: if_False) (simp add: copy_bytes_blit)
next
  case True
  then have al: "d mod 8 = 0" "s mod 8 = 0" by (auto simp: block_defs)
  from copy_big_blit[OF al assms] obtain k where k: "k \<le> n" "k mod 8 = 0"
    "copy_big m d s n = Some (blit m d s k, d + k, s + k, n - k)" by auto
  have ok: "mapped m s (k + (n - k))" "mapped m d (k + (n - k))" using assms k by simp_all
  have "\<exists>j\<le>n - k. copy_little (blit m d s k) (d + k) (s + k) (n - k)
      = Some (blit (blit m d s k) (d + k) (s + k) j, d + k + j, s + k + j, n - k - j)"
    using ok k al assms(3) unfolding mapped_split
    by (intro copy_little_blit) (auto simp: mem_simps ascending_ok_def)
  moreover have "blit (blit m d s k) (d + k) (s + k) j = blit m d s (k + j)" if "j \<le> n - k" for j
    using that assms(3) k(1) by (intro blit_ascending) (auto simp: ascending_ok_def)
  ultimately obtain j where "j \<le> n - k" "copy_little (blit m d s k) (d + k) (s + k) (n - k)
      = Some (blit m d s (k + j), d + (k + j), s + (k + j), n - (k + j))"
    by (auto simp: add.assoc)
  then obtain i where i: "i \<le> n" "copy_little (blit m d s k) (d + k) (s + k) (n - k)
      = Some (blit m d s i, d + i, s + i, n - i)" using k(1) by (metis le_diff_conv2 add.commute)
  have "mapped m s (i + (n - i))" "mapped m d (i + (n - i))" using assms i by simp_all
  then have "copy_bytes (blit m d s i) (d + i) (s + i) (n - i)
      = Some (blit (blit m d s i) (d + i) (s + i) (n - i), d + i + (n - i))"
    using assms(3) i unfolding mapped_split
    by (intro copy_bytes_blit) (auto simp: mem_simps ascending_ok_def)
  also have "\<dots> = Some (blit m d s n, d + n)"
    using assms(3) i by (subst blit_ascending) (auto simp: ascending_ok_def)
  finally show ?thesis using True k i by (simp only: if_True) simp
qed

lemma copy_bytes_down_blit:
  "mapped m s n \<Longrightarrow> mapped m d n \<Longrightarrow> descending_ok d s n \<Longrightarrow>
   copy_bytes_down m (d + n) (s + n) n = Some (blit m d s n)"
proof (induction n arbitrary: m)
  case (Suc n)
  have mp: "mapped m s n" "mapped m d n" "mapped m (s + n) 1" "mapped m (d + n) 1"
    using Suc.prems mapped_split[of m _ n 1] by auto
  then obtain c where c: "m (s + n) = Some c" by (auto simp: mapped_Suc)
  have b: "blit m (d + n) (s + n) (Suc 0) = m(d + n \<mapsto> c)" by (rule ext) (auto simp: blit_def c)
  have "copy_bytes_down (blit m (d + n) (s + n) 1) (d + n) (s + n) n
      = Some (blit (blit m (d + n) (s + n) 1) d s n)"
    using Suc.prems mp by (intro Suc.IH) (auto simp: mem_simps descending_ok_def)
  also have "blit (blit m (d + n) (s + n) 1) d s n = blit m d s (Suc n)"
    using blit_descending[of d s n 1 m] Suc.prems by (simp add: descending_ok_def)
  finally show ?case using c mp by (simp add: st8_Some mapped_Suc flip: b)
qed simp

lemma copy_little_down_blit:
  "(d + n) mod 8 = 0 \<Longrightarrow> (s + n) mod 8 = 0 \<Longrightarrow> mapped m s n \<Longrightarrow> mapped m d n \<Longrightarrow> descending_ok d s n \<Longrightarrow>
   \<exists>k\<le>n. copy_little_down m (d + n) (s + n) n
     = Some (blit m (d + k) (s + k) (n - k), d + k, s + k, k)"
proof (induction n arbitrary: m rule: less_induct)
  case (less n)
  show ?case
  proof (cases "n < 8")
    case True
    then show ?thesis by (intro exI[of _ n]) (simp add: copy_little_down.simps block_defs)
  next
    case False
    then obtain r where n: "n = r + 8" by (metis add.commute le_Suc_ex not_less)
    have mp: "mapped m s r" "mapped m d r" "mapped m (s + r) 8" "mapped m (d + r) 8"
      using less.prems n mapped_split[of m _ r 8] by auto
    have al: "(d + r) mod 8 = 0" "(s + r) mod 8 = 0" using less.prems(1,2) n by presburger+
    have "copy64 m (d + r) (s + r) = Some (blit m (d + r) (s + r) 8)"
      using al mp by (intro copy64_blit)
    then have w: "copy_little_down m (d + n) (s + n) n
        = copy_little_down (blit m (d + r) (s + r) 8) (d + r) (s + r) r"
      using n by (subst copy_little_down.simps) (simp add: block_defs)
    have "\<exists>k\<le>r. copy_little_down (blit m (d + r) (s + r) 8) (d + r) (s + r) r
        = Some (blit (blit m (d + r) (s + r) 8) (d + k) (s + k) (r - k), d + k, s + k, k)"
      using less.prems n mp al by (intro less.IH) (auto simp: mem_simps descending_ok_def)
    then obtain k where k: "k \<le> r" "copy_little_down (blit m (d + r) (s + r) 8) (d + r) (s + r) r
        = Some (blit (blit m (d + r) (s + r) 8) (d + k) (s + k) (r - k), d + k, s + k, k)" by auto
    have "blit (blit m (d + r) (s + r) 8) (d + k) (s + k) (r - k) = blit m (d + k) (s + k) (n - k)"
      using blit_descending[of "d + k" "s + k" "r - k" 8 m] less.prems(5) k(1) n
      by (auto simp: descending_ok_def)
    then show ?thesis using k n w by (intro exI[of _ k]) simp
  qed
qed

section \<open>Correctness of the copying functions\<close>

lemma copy_ascending_ret:
  assumes "mapped m s n" "mapped m d n" "ascending_ok d s n"
  shows "do { (m, d, s, n) \<leftarrow>
             (if \<not> TOO_SMALL_LITTLE_BLOCK n \<and> \<not> UNALIGNED_X_Y s d
              then do { (m, d, s, n) \<leftarrow> copy_big m d s n; copy_little m d s n }
              else Some (m, d, s, n));
           (m, _) \<leftarrow> copy_bytes m d s n;
           Some (m, r) } = Some (blit m d s n, r)"
    (is "Option.bind ?X _ = _")
  using copy_ascending_blit[OF assms] by (cases ?X) auto

lemma memcpy_blit:
  "mapped m s n \<Longrightarrow> mapped m d n \<Longrightarrow> ascending_ok d s n \<Longrightarrow> memcpy m d s n = Some (blit m d s n, d)"
  unfolding memcpy_def by (rule copy_ascending_ret)

lemma mempcpy_blit:
  "mapped m s n \<Longrightarrow> mapped m d n \<Longrightarrow> ascending_ok d s n \<Longrightarrow> mempcpy m d s n = Some (blit m d s n, d + n)"
  unfolding mempcpy_def by (rule copy_ascending_blit)

lemma memmove_blit:
  assumes "mapped m s n" "mapped m d n"
  shows "memmove m d s n = Some (blit m d s n, d)"
proof (cases "s < d \<and> d < s + n")
  case False
  then have "ascending_ok d s n" by (auto simp: ascending_ok_def)
  with assms False show ?thesis unfolding memmove_def by (simp only: if_False copy_ascending_ret)
next
  case True
  then have ok: "descending_ok d s n" by (simp add: descending_ok_def)
  show ?thesis
  proof (cases "\<not> TOO_SMALL_LITTLE_BLOCK n \<and> \<not> UNALIGNED_X_Y (s + n) (d + n)")
    case False
    then show ?thesis using True assms ok by (auto simp: memmove_def Let_def copy_bytes_down_blit)
  next
    case al: True
    then obtain k where k: "k \<le> n" "copy_little_down m (d + n) (s + n) n
        = Some (blit m (d + k) (s + k) (n - k), d + k, s + k, k)"
      using copy_little_down_blit[of d n s m] assms ok by (auto simp: block_defs)
    have "mapped m s (k + (n - k))" "mapped m d (k + (n - k))" using assms k by simp_all
    then have "copy_bytes_down (blit m (d + k) (s + k) (n - k)) (d + k) (s + k) k
        = Some (blit (blit m (d + k) (s + k) (n - k)) d s k)"
      using ok k unfolding mapped_split
      by (intro copy_bytes_down_blit) (auto simp: mem_simps descending_ok_def)
    also have "blit (blit m (d + k) (s + k) (n - k)) d s k = blit m d s n"
      using blit_descending[of d s k "n - k" m] ok k by simp
    finally show ?thesis using True al k by (simp add: memmove_def Let_def)
  qed
qed

lemma memcpy_small_blit:
  "mapped m s n \<Longrightarrow> mapped m d n \<Longrightarrow> ascending_ok d s n \<Longrightarrow> memcpy_small m d s n = Some (blit m d s n, d)"
  by (simp add: memcpy_small_def copy_bytes_blit)

lemma memmove_small_blit:
  "mapped m s n \<Longrightarrow> mapped m d n \<Longrightarrow> memmove_small m d s n = Some (blit m d s n, d)"
  by (auto simp: memmove_small_def copy_bytes_blit copy_bytes_down_blit ascending_ok_def descending_ok_def)


section \<open>The repeated byte\<close>

text \<open>\<open>w\<close> repeats the byte \<open>d\<close> in its low \<open>k\<close> bits.\<close>

definition repeats :: "byte \<Rightarrow> nat \<Rightarrow> ulong \<Rightarrow> bool" where
  "repeats d k w \<longleftrightarrow> (\<forall>n. bit w n \<longleftrightarrow> n < k \<and> bit d (n mod 8))"

lemma repeats_ucast: "repeats d 8 (ucast d)"
proof -
  have d: "n < 8" if "bit d n" for n using bit_imp_le_length[OF that] by simp
  show ?thesis by (auto simp: repeats_def bit_ucast_iff dest: d) (metis d mod_less)
qed

lemma repeats_double:
  assumes "repeats d k w" "k mod 8 = 0" "2 * k \<le> 64"
  shows "repeats d (2 * k) (push_bit k w OR w)"
proof (unfold repeats_def, intro allI)
  fix n
  have "(n - k) mod 8 = n mod 8" if kn: "k \<le> n"
  proof -
    obtain j where j: "n = k + j" using kn by (auto simp: le_iff_add)
    moreover obtain q where "k = 8 * q" using assms(2) by auto
    ultimately show ?thesis by simp
  qed
  moreover have "bit (push_bit k w OR w) n \<longleftrightarrow> k \<le> n \<and> n < 64 \<and> bit w (n - k) \<or> bit w n"
    by (auto simp: bit_or_iff bit_push_bit_iff)
  moreover have "bit w n \<longleftrightarrow> n < k \<and> bit d (n mod 8)" "bit w (n - k) \<longleftrightarrow> n - k < k \<and> bit d ((n - k) mod 8)"
    using assms(1) by (simp_all add: repeats_def)
  ultimately show "bit (push_bit k w OR w) n \<longleftrightarrow> n < 2 * k \<and> bit d (n mod 8)"
    using assms(3) by (cases "k \<le> n") (simp_all, linarith+)
qed

lemma fill_mask_repeats: "repeats d 64 (fill_mask d)"
proof -
  have 1: "repeats d 16 (push_bit 8 (ucast d) OR ucast d)" (is "repeats d 16 ?m1")
    using repeats_double[OF repeats_ucast[of d]] by simp
  have 2: "repeats d 32 (push_bit 16 ?m1 OR ?m1)"
    using repeats_double[OF 1] by simp
  show ?thesis using repeats_double[OF 2] by (simp add: fill_mask_def Let_def)
qed

lemma repeats_bytes: 
  assumes "repeats d 64 w" shows "bytes_of_word w = replicate 8 d"
proof (rule nth_equalityI)
  fix i assume "i < length (bytes_of_word w)"
  then have i: "i < 8" by simp
  show "bytes_of_word w ! i = replicate 8 d ! i"
  proof (rule bit_word_eqI)
    fix n assume "n < LENGTH(8)"
    then have "n < 8" "8 * i + n < 64" "(8 * i + n) mod 8 = n" using i by auto
    with i assms show "bit (bytes_of_word w ! i) n = bit (replicate 8 d ! i) n"
      by (simp add: bytes_of_word_def bit_ucast_iff bit_drop_bit_eq repeats_def)
  qed
qed simp

lemmas bytes_of_fill_mask = repeats_bytes [OF fill_mask_repeats]

lemma word_of_bytes_xor:
  assumes "length xs = 8" "length ys = 8"
  shows "word_of_bytes xs XOR word_of_bytes ys = word_of_bytes (map2 (XOR) xs ys)"
proof (rule bit_word_eqI)
  fix n assume "n < LENGTH(64)"
  then have "n div 8 < 8" by auto
  with assms show "bit (word_of_bytes xs XOR word_of_bytes ys) n = bit (word_of_bytes (map2 (XOR) xs ys)) n"
    by (auto simp: word_of_bytes_def bit_word_of_int_iff bit_le_int bit_xor_iff)
qed

lemma DETECT_CHAR_bytes:
  assumes "length bs = 8" "repeats d 64 msk"
  shows "DETECT_CHAR (word_of_bytes bs) msk = 0 \<longleftrightarrow> d \<notin> set bs"
proof -
  have "msk = word_of_bytes (replicate 8 d)"
    using repeats_bytes[OF assms(2)] word_of_bytes_of_word[of msk] by simp
  then have "DETECT_CHAR (word_of_bytes bs) msk = DETECT_NULL (word_of_bytes (map (\<lambda>b. b XOR d) bs))"
    using assms by (simp add: DETECT_CHAR_def word_of_bytes_xor zip_replicate2 comp_def)
  moreover have "0 = b XOR d \<longleftrightarrow> b = d" for b :: byte
    by (auto simp: bit_eq_iff bit_xor_iff)
  ultimately show ?thesis using assms by (auto simp: DETECT_NULL_bytes image_iff)
qed

section \<open>Correctness of memset\<close>

lemma put_replicate_add:
  "put (put m p (replicate k c)) (p + k) (replicate j c) = put m p (replicate (k + j) c)"
  using put_append[of m p "replicate k c" "replicate j c"] by (simp add: replicate_add)

lemma set_bytes_put: "mapped m p n \<Longrightarrow> set_bytes m p c n = Some (put m p (replicate n c))"
proof (induction n arbitrary: m p)
  case (Suc n)
  then have "m p \<noteq> None" "mapped (m(p \<mapsto> c)) (Suc p) n"
    by (simp_all add: mapped_Suc mapped_upd)
  with Suc.IH show ?case by (simp add: st8_Some put_Cons)
qed simp

lemma set_unaligned_put:
  "mapped m p n \<Longrightarrow>
   set_unaligned m p c n = Some (Inl (put m p (replicate n c))) \<or>
   (\<exists>k\<le>n. (p + k) mod 8 = 0 \<and>
      set_unaligned m p c n = Some (Inr (put m p (replicate k c), p + k, n - k)))"
proof (induction n arbitrary: m p)
  case 0
  then show ?case by (auto simp: set_unaligned.simps block_defs)
next
  case (Suc n)
  show ?case
  proof (cases "p mod 8 = 0")
    case True
    then show ?thesis
      by (intro disjI2 exI[of _ 0]) (simp add: set_unaligned.simps[of m p] block_defs)
  next
    case False
    have 1: "m p \<noteq> None" "mapped (m(p \<mapsto> c)) (Suc p) n"
      using Suc.prems by (simp_all add: mapped_Suc mapped_upd)
    have eq: "set_unaligned m p c (Suc n) = set_unaligned (m(p \<mapsto> c)) (Suc p) c n"
      using False 1 by (subst set_unaligned.simps) (simp add: block_defs st8_Some)
    from Suc.IH[OF 1(2)] show ?thesis
    proof
      assume "set_unaligned (m(p \<mapsto> c)) (Suc p) c n = Some (Inl (put (m(p \<mapsto> c)) (Suc p) (replicate n c)))"
      then show ?thesis by (simp add: eq put_Cons)
    next
      assume "\<exists>k\<le>n. (Suc p + k) mod 8 = 0 \<and> set_unaligned (m(p \<mapsto> c)) (Suc p) c n
        = Some (Inr (put (m(p \<mapsto> c)) (Suc p) (replicate k c), Suc p + k, n - k))"
      then obtain k where "k \<le> n" "(Suc p + k) mod 8 = 0" "set_unaligned (m(p \<mapsto> c)) (Suc p) c n
        = Some (Inr (put (m(p \<mapsto> c)) (Suc p) (replicate k c), Suc p + k, n - k))" by auto
      then show ?thesis by (intro disjI2 exI[of _ "Suc k"]) (simp add: eq put_Cons)
    qed
  qed
qed

lemma set_little_put:
  "p mod 8 = 0 \<Longrightarrow> mapped m p n \<Longrightarrow> bytes_of_word w = replicate 8 c \<Longrightarrow>
   \<exists>k\<le>n. set_little m p w n = Some (put m p (replicate k c), p + k, n - k)"
proof (induction n arbitrary: m p rule: less_induct)
  case (less n)
  show ?case
  proof (cases "n < 8")
    case True
    then show ?thesis by (intro exI[of _ 0]) (simp add: set_little.simps block_defs)
  next
    case False
    then obtain r where n: "n = 8 + r" by (auto simp: not_less le_iff_add)
    let ?m = "put m p (replicate 8 c)"
    have "st64 m p w = Some ?m"
      using less.prems n by (simp add: st64_put mapped_split)
    then have eq: "set_little m p w n = set_little ?m (p + 8) w r"
      using n by (subst set_little.simps) (simp add: block_defs)
    have "\<exists>k\<le>r. set_little ?m (p + 8) w r = Some (put ?m (p + 8) (replicate k c), p + 8 + k, r - k)"
      using less.prems n by (intro less.IH) (simp_all add: mapped_split mem_simps)
    then obtain k where "k \<le> r" "set_little ?m (p + 8) w r = Some (put m p (replicate (8 + k) c), p + (8 + k), r - k)"
      unfolding put_replicate_add by (auto simp: add.assoc)
    then show ?thesis using n eq by (intro exI[of _ "8 + k"]) simp
  qed
qed

lemma st64_four_put:
  assumes "p mod 8 = 0" "mapped m p 32" "bytes_of_word w = replicate 8 c"
  shows "do { m \<leftarrow> st64 m p w; m \<leftarrow> st64 m (p + 8) w; m \<leftarrow> st64 m (p + 16) w; m \<leftarrow> st64 m (p + 24) w; f m }
         = f (put m p (replicate 32 c))"
proof -
  have "mapped m p 8" "mapped m (p + 8) 8" "mapped m (p + 16) 8" "mapped m (p + 24) 8"
    using assms(2) mapped_split[of m p 8 24] mapped_split[of m "p + 8" 8 16] mapped_split[of m "p + 16" 8 8]
    by (auto simp: add.assoc)
  moreover have "(p + 8) mod 8 = 0" "(p + 16) mod 8 = 0" "(p + 24) mod 8 = 0" using assms(1) by auto
  moreover have "put (put (put (put m p (replicate 8 c)) (p + 8) (replicate 8 c)) (p + 16) (replicate 8 c))
      (p + 24) (replicate 8 c) = put m p (replicate 32 c)"
    using put_replicate_add[of m p 8 c 8] put_replicate_add[of m p 16 c 8] put_replicate_add[of m p 24 c 8]
    by simp
  ultimately show ?thesis using assms by (simp add: st64_put mapped_put)
qed

lemma set_big_put:
  "p mod 8 = 0 \<Longrightarrow> mapped m p n \<Longrightarrow> bytes_of_word w = replicate 8 c \<Longrightarrow>
   \<exists>k\<le>n. k mod 8 = 0 \<and> set_big m p w n = Some (put m p (replicate k c), p + k, n - k)"
proof (induction n arbitrary: m p rule: less_induct)
  case (less n)
  show ?case
  proof (cases "n < 32")
    case True
    then show ?thesis by (intro exI[of _ 0]) (simp add: set_big.simps block_defs)
  next
    case False
    then obtain r where n: "n = 32 + r" by (auto simp: not_less le_iff_add)
    let ?m = "put m p (replicate 32 c)"
    have eq: "set_big m p w n = set_big ?m (p + 32) w r"
      using n less.prems by (subst set_big.simps)
        (simp add: block_defs mapped_split st64_four_put)
    have "\<exists>k\<le>r. k mod 8 = 0 \<and>
        set_big ?m (p + 32) w r = Some (put ?m (p + 32) (replicate k c), p + 32 + k, r - k)"
      using less.prems n by (intro less.IH) (auto simp add: mapped_split mem_simps)
    then obtain k where k: "k \<le> r" "k mod 8 = 0"
        "set_big ?m (p + 32) w r = Some (put m p (replicate (32 + k) c), p + (32 + k), r - k)"
      unfolding put_replicate_add by (auto simp: add.assoc)
    from k(2) have "(32 + k) mod 8 = 0" by presburger
    with k show ?thesis using n eq by (intro exI[of _ "32 + k"]) simp
  qed
qed

lemma memset_put:
  assumes "mapped m p n"
  shows "memset m p c n = Some (put m p (replicate n (word_of_int c)), p)"
proof -
  let ?c = "word_of_int c :: byte" and ?w = "fill_mask (word_of_int c)"
  have w: "bytes_of_word ?w = replicate 8 ?c" by (rule bytes_of_fill_mask)
  from set_unaligned_put[OF assms, of ?c] show ?thesis
  proof
    assume "set_unaligned m p ?c n = Some (Inl (put m p (replicate n ?c)))"
    then show ?thesis by (simp add: memset_def)
  next
    assume "\<exists>k\<le>n. (p + k) mod 8 = 0 \<and>
      set_unaligned m p ?c n = Some (Inr (put m p (replicate k ?c), p + k, n - k))"
    then obtain k where k: "k \<le> n" "(p + k) mod 8 = 0"
      "set_unaligned m p ?c n = Some (Inr (put m p (replicate k ?c), p + k, n - k))" by auto
    let ?mk = "put m p (replicate k ?c)"
    have mk: "mapped ?mk (p + k) (n - k)"
      using assms k mapped_split[of m p k "n - k"] by (simp add: mem_simps)
    have fin: "set_bytes (put m p (replicate i ?c)) (p + i) ?c (n - i) = Some (put m p (replicate n ?c))"
      if "i \<le> n" for i
    proof -
      have "mapped m (p + i) (n - i)" using assms that mapped_split[of m p i "n - i"] by simp
      then show ?thesis using that put_replicate_add[of m p i ?c "n - i"]
        by (simp add: set_bytes_put mapped_put)
    qed
    from set_big_put[OF k(2) mk w] obtain j where j: "j \<le> n - k" "j mod 8 = 0"
      "set_big ?mk (p + k) ?w (n - k) = Some (put m p (replicate (k + j) ?c), p + k + j, n - k - j)"
      by (auto simp: put_replicate_add)
    have mj: "mapped (put m p (replicate (k + j) ?c)) (p + k + j) (n - k - j)"
      using assms k j mapped_split[of m p "k + j" "n - k - j"] by (simp add: mem_simps add.assoc)
    have "(p + k + j) mod 8 = 0" using k(2) j(2) by presburger
    from set_little_put[OF this mj w] obtain i where i: "i \<le> n - k - j"
      "set_little (put m p (replicate (k + j) ?c)) (p + k + j) ?w (n - k - j)
        = Some (put m p (replicate (k + j + i) ?c), p + (k + j + i), n - (k + j + i))"
      using put_replicate_add[of m p "k + j" ?c] by (auto simp: add.assoc)
    show ?thesis
    proof (cases "TOO_SMALL_LITTLE_BLOCK (n - k)")
      case True
      then show ?thesis using k fin[OF k(1)] by (simp add: memset_def)
    next
      case False
      have "k + j + i \<le> n" using k(1) i(1) j(1) by linarith
      with False show ?thesis using k(3) j(3) i(2) fin[of "k + j + i"] by (simp add: memset_def)
    qed
  qed
qed

lemma memset_small_put:
  "mapped m p n \<Longrightarrow> memset_small m p c n = Some (put m p (replicate n (word_of_int c)), p)"
  by (simp add: memset_small_def set_bytes_put)


section \<open>Correctness of memcmp\<close>

text \<open>The result of a comparison: the difference of the first bytes that differ.\<close>

fun cmp_result :: "byte list \<Rightarrow> byte list \<Rightarrow> int" where
  "cmp_result (a # as) (b # bs) = (if a \<noteq> b then uint a - uint b else cmp_result as bs)"
| "cmp_result _ _ = 0"

lemma cmp_result_prefix: "cmp_result (zs @ xs) (zs @ ys) = cmp_result xs ys"
  by (induction zs) auto

lemma cmp_result_eq_0: "length xs = length ys \<Longrightarrow> cmp_result xs ys = 0 \<longleftrightarrow> xs = ys"
proof (induction xs ys rule: list_induct2)
  case (Cons a as b bs)
  have "uint a = uint b \<longleftrightarrow> a = b" by (simp add: word_uint_eq_iff)
  with Cons show ?case by simp
qed simp

lemma cmp_result_less:
  "length xs = length ys \<Longrightarrow> cmp_result xs ys < 0 \<longleftrightarrow> (xs, ys) \<in> lexord {(a, b). a < b}"
proof (induction xs ys rule: list_induct2)
  case (Cons a as b bs)
  then show ?case by (auto simp: word_less_def)
qed simp

lemma rd_SucE:
  assumes "rd m p (Suc n) = Some xs"
  obtains x xs' where "xs = x # xs'" "m p = Some x" "rd m (Suc p) n = Some xs'"
  using assms by (auto simp: bind_eq_Some_conv)

lemma cmp_bytes_result:
  "rd m p n = Some xs \<Longrightarrow> rd m q n = Some ys \<Longrightarrow> cmp_bytes m p q n = Some (cmp_result xs ys)"
  by (induction n arbitrary: p q xs ys) (auto simp: bind_eq_Some_conv)

lemma cmp_words_result:
  "p mod 8 = 0 \<Longrightarrow> q mod 8 = 0 \<Longrightarrow> rd m p n = Some xs \<Longrightarrow> rd m q n = Some ys \<Longrightarrow>
   \<exists>k\<le>n. cmp_words m p q n = Some (p + k, q + k, n - k) \<and> take k xs = take k ys"
proof (induction n arbitrary: p q xs ys rule: less_induct)
  case (less n)
  show ?case
  proof (cases "n < 8")
    case True
    then show ?thesis by (intro exI[of _ 0]) (simp add: cmp_words.simps block_defs)
  next
    case False
    then obtain r where n: "n = 8 + r" by (auto simp: not_less le_iff_add)
    from less.prems n obtain xs1 xs2 ys1 ys2 where xy:
      "xs = xs1 @ xs2" "rd m p 8 = Some xs1" "rd m (p + 8) r = Some xs2"
      "ys = ys1 @ ys2" "rd m q 8 = Some ys1" "rd m (q + 8) r = Some ys2"
      by (auto simp: rd_split[of m _ 8 r] bind_eq_Some_conv)
    have len: "length xs1 = 8" "length ys1 = 8" using xy rd_length by auto
    have w: "ld64 m p = Some (word_of_bytes xs1)" "ld64 m q = Some (word_of_bytes ys1)"
      using less.prems xy by (simp_all add: ld64_Some)
    show ?thesis
    proof (cases "xs1 = ys1")
      case False
      then show ?thesis using n w len
        by (intro exI[of _ 0]) (subst cmp_words.simps; simp add: block_defs word_of_bytes_inj)
    next
      case True
      have "\<exists>k\<le>r. cmp_words m (p + 8) (q + 8) r = Some (p + 8 + k, q + 8 + k, r - k) \<and> take k xs2 = take k ys2"
        using less.prems n xy by (intro less.IH) auto
      then obtain k where k: "k \<le> r" "cmp_words m (p + 8) (q + 8) r = Some (p + 8 + k, q + 8 + k, r - k)"
        "take k xs2 = take k ys2" by auto
      have "cmp_words m p q n = cmp_words m (p + 8) (q + 8) r"
        using n w len True by (subst cmp_words.simps) (simp add: block_defs)
      then show ?thesis using k n True xy len
        by (intro exI[of _ "8 + k"]) (simp add: add.assoc)
    qed
  qed
qed

lemma memcmp_result:
  assumes "rd m p n = Some xs" "rd m q n = Some ys"
  shows "memcmp m p q n = Some (cmp_result xs ys)"
proof (cases "\<not> TOO_SMALL_LITTLE_BLOCK n \<and> \<not> UNALIGNED_X_Y p q")
  case False
  then show ?thesis unfolding memcmp_def using cmp_bytes_result[OF assms]
    by (simp only: if_False) simp
next
  case True
  then obtain k where k: "k \<le> n" "cmp_words m p q n = Some (p + k, q + k, n - k)" "take k xs = take k ys"
    using cmp_words_result[of p q m n xs ys] assms by (auto simp: block_defs)
  have "cmp_bytes m (p + k) (q + k) (n - k) = Some (cmp_result (drop k xs) (drop k ys))"
    using assms k by (intro cmp_bytes_result rd_drop)
  also have "cmp_result (drop k xs) (drop k ys) = cmp_result xs ys"
    using cmp_result_prefix[of "take k xs" "drop k xs" "drop k ys"]
    by (simp only: append_take_drop_id) (simp add: k(3))
  finally show ?thesis using True k by (simp add: memcmp_def)
qed

section \<open>Correctness of memchr and rawmemchr\<close>

definition chr_result :: "addr \<Rightarrow> byte \<Rightarrow> byte list \<Rightarrow> addr" where
  "chr_result p d bs = (if d \<in> set bs then p + length (takeWhile (\<lambda>b. b \<noteq> d) bs) else NULL)"

lemma chr_result_Cons:
  "chr_result p d (b # bs) = (if b = d then p else chr_result (Suc p) d bs)"
  by (auto simp: chr_result_def)

lemma chr_result_skip:
  "d \<notin> set (take k bs) \<Longrightarrow> k \<le> length bs \<Longrightarrow> chr_result p d bs = chr_result (p + k) d (drop k bs)"
proof (induction k arbitrary: p bs)
  case (Suc k)
  then obtain b bs' where "bs = b # bs'" by (cases bs) auto
  with Suc show ?case by (auto simp: chr_result_Cons)
qed simp

lemma chr_bytes_result: "rd m p n = Some bs \<Longrightarrow> chr_bytes m p d n = Some (chr_result p d bs)"
proof (induction n arbitrary: p bs)
  case 0
  then show ?case by (simp add: chr_result_def)
next
  case (Suc n)
  then show ?case by (elim rd_SucE) (auto simp: chr_result_Cons)
qed

lemma chr_unaligned_result:
  "rd m p n = Some bs \<Longrightarrow>
   chr_unaligned m p d n = Some (Inl (chr_result p d bs)) \<or>
   (\<exists>k\<le>n. chr_unaligned m p d n = Some (Inr (p + k, n - k)) \<and> (p + k) mod 8 = 0 \<and> d \<notin> set (take k bs))"
proof (induction n arbitrary: p bs)
  case 0
  then show ?case by (auto simp: chr_unaligned.simps block_defs chr_result_def)
next
  case (Suc n)
  from Suc.prems obtain b bs' where bs: "bs = b # bs'" "m p = Some b" "rd m (Suc p) n = Some bs'"
    by (rule rd_SucE)
  show ?case
  proof (cases "p mod 8 = 0 \<or> b = d")
    case True
    then show ?thesis using bs
      by (auto simp: chr_unaligned.simps[of m p] block_defs chr_result_Cons intro: exI[of _ 0])
  next
    case False
    then have eq: "chr_unaligned m p d (Suc n) = chr_unaligned m (Suc p) d n"
      using bs by (subst chr_unaligned.simps) (simp add: block_defs)
    from Suc.IH[OF bs(3)] show ?thesis
    proof
      assume "chr_unaligned m (Suc p) d n = Some (Inl (chr_result (Suc p) d bs'))"
      then show ?thesis using False bs eq by (simp add: chr_result_Cons)
    next
      assume "\<exists>k\<le>n. chr_unaligned m (Suc p) d n = Some (Inr (Suc p + k, n - k)) \<and>
        (Suc p + k) mod 8 = 0 \<and> d \<notin> set (take k bs')"
      then obtain k where "k \<le> n" "chr_unaligned m (Suc p) d n = Some (Inr (Suc p + k, n - k))"
        "(Suc p + k) mod 8 = 0" "d \<notin> set (take k bs')" by auto
      then show ?thesis using False bs eq by (intro disjI2 exI[of _ "Suc k"]) auto
    qed
  qed
qed

lemma chr_words_result:
  "p mod 8 = 0 \<Longrightarrow> rd m p n = Some bs \<Longrightarrow> repeats d 64 w \<Longrightarrow>
   \<exists>k\<le>n. chr_words m p w n = Some (p + k, n - k) \<and> d \<notin> set (take k bs)"
proof (induction n arbitrary: p bs rule: less_induct)
  case (less n)
  show ?case
  proof (cases "n < 8")
    case True
    then show ?thesis by (intro exI[of _ 0]) (simp add: chr_words.simps block_defs)
  next
    case False
    then obtain r where n: "n = 8 + r" by (auto simp: not_less le_iff_add)
    from less.prems n obtain xs ys where xy: "bs = xs @ ys" "rd m p 8 = Some xs" "rd m (p + 8) r = Some ys"
      by (auto simp: rd_split[of m _ 8 r] bind_eq_Some_conv)
    have len: "length xs = 8" using xy rd_length by auto
    have w: "ld64 m p = Some (word_of_bytes xs)" using less.prems xy by (simp add: ld64_Some)
    show ?thesis
    proof (cases "d \<in> set xs")
      case True
      then show ?thesis using n w DETECT_CHAR_bytes[OF len less.prems(3)]
        by (intro exI[of _ 0]) (subst chr_words.simps; simp add: block_defs)
    next
      case False
      have "\<exists>k\<le>r. chr_words m (p + 8) w r = Some (p + 8 + k, r - k) \<and> d \<notin> set (take k ys)"
        using less.prems n xy by (intro less.IH) auto
      then obtain k where k: "k \<le> r" "chr_words m (p + 8) w r = Some (p + 8 + k, r - k)"
        "d \<notin> set (take k ys)" by auto
      have "chr_words m p w n = chr_words m (p + 8) w r"
        using n w False DETECT_CHAR_bytes[OF len less.prems(3)]
        by (subst chr_words.simps) (simp add: block_defs)
      then show ?thesis using k n False xy len
        by (intro exI[of _ "8 + k"]) (simp add: add.assoc)
    qed
  qed
qed

lemma memchr_result:
  assumes "rd m p n = Some bs"
  shows "memchr m p c n = Some (chr_result p (word_of_int c) bs)"
proof -
  let ?d = "word_of_int c :: byte"
  have fin: "chr_bytes m (p + k) ?d (n - k) = Some (chr_result p ?d bs)"
    if "k \<le> n" "?d \<notin> set (take k bs)" for k
    using that assms chr_result_skip[of ?d k bs p] rd_length[OF assms]
    by (simp add: chr_bytes_result[OF rd_drop])
  from chr_unaligned_result[OF assms, of ?d] show ?thesis
  proof
    assume "chr_unaligned m p ?d n = Some (Inl (chr_result p ?d bs))"
    then show ?thesis by (simp add: memchr_def)
  next
    assume "\<exists>k\<le>n. chr_unaligned m p ?d n = Some (Inr (p + k, n - k)) \<and> (p + k) mod 8 = 0 \<and> ?d \<notin> set (take k bs)"
    then obtain k where k: "k \<le> n" "chr_unaligned m p ?d n = Some (Inr (p + k, n - k))" "(p + k) mod 8 = 0"
      "?d \<notin> set (take k bs)" by auto
    from chr_words_result[OF k(3) rd_drop[OF assms k(1)] fill_mask_repeats]
    obtain j where j: "j \<le> n - k" "chr_words m (p + k) (fill_mask ?d) (n - k) = Some (p + k + j, n - k - j)"
      "?d \<notin> set (take j (drop k bs))" by auto
    have "?d \<notin> set (take (k + j) bs)" using k(4) j(3) by (simp add: take_add)
    with j k have "chr_bytes m (p + k + j) ?d (n - k - j) = Some (chr_result p ?d bs)"
      using fin[of "k + j"] by (simp add: add.assoc)
    then show ?thesis using k j fin[OF k(1,4)] by (simp add: memchr_def)
  qed
qed

lemma scan_bytes_delim:
  "delim_at m p d s \<Longrightarrow> stop d \<Longrightarrow>
   scan_bytes m stop p = Some (p + length (takeWhile (\<lambda>b. \<not> stop b) s))"
  by (induction s arbitrary: p) (subst scan_bytes.simps; simp)+

lemma scan_bytes_eq_delim: "delim_at m p d s \<Longrightarrow> scan_bytes m (\<lambda>b. b = d) p = Some (p + length s)"
proof -
  assume d: "delim_at m p d s"
  then have "takeWhile (\<lambda>b. b \<noteq> d) s = s" by (auto dest: delim_at_notin)
  with scan_bytes_delim[OF d, of "\<lambda>b. b = d"] show ?thesis by simp
qed

lemma scan_unaligned_delim:
  "delim_at m p d s \<Longrightarrow>
   scan_unaligned m d p = Some (Inl (p + length s)) \<or>
   (\<exists>k\<le>length s. scan_unaligned m d p = Some (Inr (p + k)) \<and> (p + k) mod 8 = 0)"
proof (induction s arbitrary: p)
  case Nil
  then show ?case by (subst (1 2) scan_unaligned.simps) (simp add: block_defs)
next
  case (Cons c s)
  show ?case
  proof (cases "p mod 8 = 0")
    case True
    then show ?thesis by (intro disjI2 exI[of _ 0]) (subst scan_unaligned.simps; simp add: block_defs)
  next
    case False
    with Cons.prems have eq: "scan_unaligned m d p = scan_unaligned m d (Suc p)"
      by (subst scan_unaligned.simps) (simp add: block_defs)
    from Cons.prems have "delim_at m (Suc p) d s" by simp
    from Cons.IH[OF this] show ?thesis
    proof
      assume "scan_unaligned m d (Suc p) = Some (Inl (Suc p + length s))"
      then show ?thesis by (simp add: eq)
    next
      assume "\<exists>k\<le>length s. scan_unaligned m d (Suc p) = Some (Inr (Suc p + k)) \<and> (Suc p + k) mod 8 = 0"
      then obtain k where "k \<le> length s" "scan_unaligned m d (Suc p) = Some (Inr (Suc p + k))" "(Suc p + k) mod 8 = 0"
        by auto
      then show ?thesis by (intro disjI2 exI[of _ "Suc k"]) (simp add: eq)
    qed
  qed
qed

text \<open>An aligned word that does not hold the delimiter lies before it.\<close>

lemma delim_at_word:
  assumes "delim_at m p d s" "p mod 8 = 0" "word_mapped m"
  obtains bs where "rd m p 8 = Some bs" "length bs = 8" "ld64 m p = Some (word_of_bytes bs)"
    "d \<notin> set bs \<Longrightarrow> 8 \<le> length s \<and> bs = take 8 s \<and> delim_at m (p + 8) d (drop 8 s)"
proof -
  have "m p \<noteq> None" using delim_at_nth[OF assms(1), of 0] by simp
  then have "mapped m p 8" using assms by (intro word_mappedD)
  then obtain bs where bs: "rd m p 8 = Some bs" by (auto simp: rd_mapped)
  have "8 \<le> length s \<and> bs = take 8 s \<and> delim_at m (p + 8) d (drop 8 s)" if d: "d \<notin> set bs"
  proof -
    have "\<not> length s < 8"
    proof
      assume "length s < 8"
      then have "bs ! length s = d" "length s < length bs"
        using rd_nth[OF bs, of "length s"] delim_at_end[OF assms(1)] rd_length[OF bs] by auto
      then have "d \<in> set bs" by (metis nth_mem)
      with d show False by simp
    qed
    then show ?thesis
      using delim_at_drop[OF assms(1), of 8] rd_take[OF delim_at_rd_body[OF assms(1)], of 8] bs by simp
  qed
  then show ?thesis using that[OF bs rd_length[OF bs] ld64_Some[OF assms(2) bs]] by blast
qed

lemma scan_words_delim:
  assumes stop: "\<And>bs. length bs = 8 \<Longrightarrow> stop (word_of_bytes bs) \<longleftrightarrow> (\<exists>b\<in>set bs. b \<in> D)"
    and d: "d \<in> D"
  shows "delim_at m p d s \<Longrightarrow> p mod 8 = 0 \<Longrightarrow> word_mapped m \<Longrightarrow>
    \<exists>k\<le>length s. scan_words m stop p = Some (p + k) \<and> set (take k s) \<inter> D = {}"
proof (induction "length s" arbitrary: p s rule: less_induct)
  case less
  obtain bs where bs: "length bs = 8" "ld64 m p = Some (word_of_bytes bs)"
    "d \<notin> set bs \<Longrightarrow> 8 \<le> length s \<and> bs = take 8 s \<and> delim_at m (p + 8) d (drop 8 s)"
    using delim_at_word[OF less.prems] by metis
  show ?case
  proof (cases "\<exists>b\<in>set bs. b \<in> D")
    case True
    then show ?thesis using bs stop by (intro exI[of _ 0]) (subst scan_words.simps; simp)
  next
    case False
    with d have "d \<notin> set bs" by auto
    then have s: "8 \<le> length s" "bs = take 8 s" "delim_at m (p + 8) d (drop 8 s)" using bs by auto
    have "\<exists>k\<le>length (drop 8 s). scan_words m stop (p + 8) = Some (p + 8 + k) \<and> set (take k (drop 8 s)) \<inter> D = {}"
      using s less.prems by (intro less.hyps) auto
    then obtain k where k: "k \<le> length (drop 8 s)" "scan_words m stop (p + 8) = Some (p + 8 + k)"
      "set (take k (drop 8 s)) \<inter> D = {}" by auto
    have "scan_words m stop p = scan_words m stop (p + 8)"
      using False bs stop by (subst scan_words.simps) simp
    moreover have "set (take (8 + k) s) \<inter> D = {}"
      using k(3) s(2) False by (auto simp: take_add)
    ultimately show ?thesis using k s by (intro exI[of _ "8 + k"]) simp
  qed
qed

lemma rawmemchr_delim:
  assumes "delim_at m p (word_of_int c) s" "word_mapped m"
  shows "rawmemchr m p c = Some (p + length s)"
  using scan_unaligned_delim[OF assms(1)]
proof
  assume "scan_unaligned m (word_of_int c) p = Some (Inl (p + length s))"
  then show ?thesis by (simp add: rawmemchr_def)
next
  let ?d = "word_of_int c :: byte"
  assume "\<exists>k\<le>length s. scan_unaligned m ?d p = Some (Inr (p + k)) \<and> (p + k) mod 8 = 0"
  then obtain k where k: "k \<le> length s" "scan_unaligned m ?d p = Some (Inr (p + k))" "(p + k) mod 8 = 0"
    by auto
  note dk = delim_at_drop[OF assms(1) k(1)]
  let ?stop = "\<lambda>w. DETECT_CHAR w (fill_mask ?d) \<noteq> 0"
  have "?stop (word_of_bytes bs) \<longleftrightarrow> (\<exists>b\<in>set bs. b \<in> {?d})" if "length bs = 8" for bs
    using DETECT_CHAR_bytes[OF that fill_mask_repeats, of ?d] by auto
  from scan_words_delim[OF this _ dk k(3) assms(2)]
  obtain j where j: "j \<le> length (drop k s)" "scan_words m ?stop (p + k) = Some (p + k + j)" by auto
  have "scan_bytes m (\<lambda>b. b = ?d) (p + k + j) = Some (p + length s)"
    using scan_bytes_eq_delim[OF delim_at_drop[OF dk j(1)]] j k by simp
  with k j show ?thesis by (simp add: rawmemchr_def)
qed


section \<open>Correctness of memccpy\<close>

text \<open>The bytes up to and including the first \<open>e\<close>.\<close>

fun upto_byte :: "byte \<Rightarrow> byte list \<Rightarrow> byte list" where
  "upto_byte e [] = []"
| "upto_byte e (b # bs) = (if b = e then [b] else b # upto_byte e bs)"

definition ccpy_ret :: "addr \<Rightarrow> byte \<Rightarrow> byte list \<Rightarrow> addr" where
  "ccpy_ret d e bs = (if e \<in> set bs then d + length (upto_byte e bs) else NULL)"

lemma upto_byte_skip: "e \<notin> set xs \<Longrightarrow> upto_byte e (xs @ ys) = xs @ upto_byte e ys"
  by (induction xs) auto

lemma ccpy_ret_skip: "e \<notin> set xs \<Longrightarrow> ccpy_ret d e (xs @ ys) = ccpy_ret (d + length xs) e ys"
  by (simp add: ccpy_ret_def upto_byte_skip)

lemma ccpy_bytes_put:
  "rd m s n = Some bs \<Longrightarrow> mapped m d n \<Longrightarrow> disj d n s n \<Longrightarrow>
   ccpy_bytes m d s e n = Some (put m d (upto_byte e bs), ccpy_ret d e bs)"
proof (induction n arbitrary: m d s bs)
  case 0
  then show ?case by (simp add: ccpy_ret_def)
next
  case (Suc n)
  from Suc.prems(1) obtain b bs' where bs: "bs = b # bs'" "m s = Some b" "rd m (Suc s) n = Some bs'"
    by (rule rd_SucE)
  have md: "m d \<noteq> None" "mapped (m(d \<mapsto> b)) (Suc d) n"
    using Suc.prems(2) by (simp_all add: mapped_Suc mapped_upd)
  have "rd (put m d [b]) (Suc s) n = Some bs'"
    using bs(3) Suc.prems(3) by (subst rd_put_disj) (auto simp: disj_def)
  then have rd: "rd (m(d \<mapsto> b)) (Suc s) n = Some bs'" by (simp add: put_Cons)
  have "disj (Suc d) n (Suc s) n" using Suc.prems(3) by (auto simp: disj_def)
  from Suc.IH[OF rd md(2) this] have "ccpy_bytes (m(d \<mapsto> b)) (Suc d) (Suc s) e n
      = Some (put (m(d \<mapsto> b)) (Suc d) (upto_byte e bs'), ccpy_ret (Suc d) e bs')" .
  then show ?case using bs md by (auto simp: st8_Some put_Cons ccpy_ret_def)
qed

lemma ccpy_words_put:
  "d mod 8 = 0 \<Longrightarrow> s mod 8 = 0 \<Longrightarrow> rd m s n = Some bs \<Longrightarrow> mapped m d n \<Longrightarrow> disj d n s n \<Longrightarrow>
   repeats e 64 w \<Longrightarrow>
   \<exists>k\<le>n. ccpy_words m d s w n = Some (put m d (take k bs), d + k, s + k, n - k) \<and> e \<notin> set (take k bs)"
proof (induction n arbitrary: m d s bs rule: less_induct)
  case (less n)
  show ?case
  proof (cases "n < 8")
    case True
    then show ?thesis by (intro exI[of _ 0]) (simp add: ccpy_words.simps block_defs)
  next
    case False
    then obtain r where n: "n = 8 + r" by (auto simp: not_less le_iff_add)
    from less.prems n obtain xs ys where xy: "bs = xs @ ys" "rd m s 8 = Some xs" "rd m (s + 8) r = Some ys"
      by (auto simp: rd_split[of m _ 8 r] bind_eq_Some_conv)
    have len: "length xs = 8" using xy rd_length by auto
    have w: "ld64 m s = Some (word_of_bytes xs)" using less.prems xy by (simp add: ld64_Some)
    note dc = DETECT_CHAR_bytes[OF len less.prems(6), unfolded DETECT_CHAR_def]
    show ?thesis
    proof (cases "e \<in> set xs")
      case True
      then show ?thesis using n w dc by (intro exI[of _ 0]) (subst ccpy_words.simps; simp add: block_defs)
    next
      case False
      have md: "mapped m d 8" "mapped m (d + 8) r" using less.prems n by (simp_all add: mapped_split)
      have "rd (put m d xs) (s + 8) r = Some ys"
        using xy(3) less.prems(5) n len by (subst rd_put_disj) (auto simp: disj_def)
      then have "\<exists>k\<le>r. ccpy_words (put m d xs) (d + 8) (s + 8) w r
          = Some (put (put m d xs) (d + 8) (take k ys), d + 8 + k, s + 8 + k, r - k) \<and> e \<notin> set (take k ys)"
        using less.prems n md by (intro less.IH) (auto simp: disj_def mem_simps)
      then obtain k where k: "k \<le> r" "ccpy_words (put m d xs) (d + 8) (s + 8) w r
          = Some (put m d (xs @ take k ys), d + 8 + k, s + 8 + k, r - k)" "e \<notin> set (take k ys)"
        using len put_append[of m d xs] by auto
      have "ccpy_words m d s w n = ccpy_words (put m d xs) (d + 8) (s + 8) w r"
        using n w False dc md less.prems xy
        by (subst ccpy_words.simps) (simp add: block_defs copy64_put)
      then show ?thesis using k n False xy len
        by (intro exI[of _ "8 + k"]) (simp add: add.assoc)
    qed
  qed
qed

lemma memccpy_put:
  assumes "rd m s n = Some bs" "mapped m d n" "disj d n s n"
  shows "memccpy m d s c n
    = Some (put m d (upto_byte (word_of_int c) bs), ccpy_ret d (word_of_int c) bs)"
proof (cases "\<not> TOO_SMALL_LITTLE_BLOCK n \<and> \<not> UNALIGNED_X_Y s d")
  case False
  then show ?thesis unfolding memccpy_def using ccpy_bytes_put[OF assms]
    by (simp only: if_False) simp
next
  case True
  let ?e = "word_of_int c :: byte"
  from True obtain k where k: "k \<le> n" "ccpy_words m d s (fill_mask ?e) n
      = Some (put m d (take k bs), d + k, s + k, n - k)" "?e \<notin> set (take k bs)"
    using ccpy_words_put[OF _ _ assms fill_mask_repeats, of ?e] by (auto simp: block_defs)
  have len: "length (take k bs) = k" using k rd_length[OF assms(1)] by simp
  have "rd (put m d (take k bs)) (s + k) (n - k) = Some (drop k bs)"
    using rd_drop[OF assms(1) k(1)] assms(3) k(1) len
    by (subst rd_put_disj) (auto simp: disj_def)
  moreover have "mapped (put m d (take k bs)) (d + k) (n - k)"
    using assms(2) k(1) mapped_split[of m d k "n - k"] by (simp add: mem_simps)
  ultimately have "ccpy_bytes (put m d (take k bs)) (d + k) (s + k) ?e (n - k)
      = Some (put (put m d (take k bs)) (d + k) (upto_byte ?e (drop k bs)), ccpy_ret (d + k) ?e (drop k bs))"
    using assms(3) k(1) by (intro ccpy_bytes_put) (auto simp: disj_def)
  also have "\<dots> = Some (put m d (upto_byte ?e bs), ccpy_ret d ?e bs)"
    using upto_byte_skip[OF k(3), of "drop k bs"] ccpy_ret_skip[OF k(3), of d "drop k bs"] len
      put_append[of m d "take k bs" "upto_byte ?e (drop k bs)"] by simp
  finally show ?thesis using True k by (simp add: memccpy_def)
qed

lemma cmp_result_swap: "cmp_result ys xs = - cmp_result xs ys"
  by (induction xs ys rule: cmp_result.induct) auto

lemma chr_result_first:
  assumes "d \<in> set bs"
  shows "\<exists>i<length bs. chr_result p d bs = p + i \<and> bs ! i = d \<and> (\<forall>j<i. bs ! j \<noteq> d)"
proof -
  obtain u v where bs: "bs = u @ d # v" "d \<notin> set u" using assms by (meson split_list_first)
  have "takeWhile (\<lambda>b. b \<noteq> d) bs = u" using bs by (subst bs(1), subst takeWhile_append2) auto
  then have "chr_result p d bs = p + length u" using assms by (simp add: chr_result_def)
  then show ?thesis using bs by (intro exI[of _ "length u"]) (auto simp: nth_append dest: nth_mem)
qed

section \<open>The contract of a block copy\<close>

text \<open>
  What the callers of \<open>memcpy\<close>, \<open>mempcpy\<close> and \<open>memmove\<close> rely on: the
  function copies whenever the placement of the two blocks is \<open>allowed\<close>, which is at least when they
  do not overlap.
\<close>

locale block_copy =
  fixes copy :: "mem \<Rightarrow> addr \<Rightarrow> addr \<Rightarrow> nat \<Rightarrow> (mem \<times> addr) option"
    and ret :: "addr \<Rightarrow> nat \<Rightarrow> addr"
    and allowed :: "addr \<Rightarrow> addr \<Rightarrow> nat \<Rightarrow> bool"
  assumes copy_blit: "mapped m s n \<Longrightarrow> mapped m d n \<Longrightarrow> allowed d s n \<Longrightarrow> copy m d s n = Some (blit m d s n, ret d n)"
    and allowed_disj: "disj d n s n \<Longrightarrow> allowed d s n"
begin

lemma copy_contents:
  assumes "rd m s n = Some bs" "mapped m d n" "allowed d s n"
  shows "\<exists>m'. copy m d s n = Some (m', ret d n) \<and> rd m' d n = Some bs \<and>
    (\<forall>a. a < d \<or> d + n \<le> a \<longrightarrow> m' a = m a)"
proof -
  have "mapped m s n" using assms(1) by (auto simp: rd_mapped)
  then show ?thesis using copy_blit[OF _ assms(2,3)] rd_blit_same[of m d s n] assms(1) by (auto simp: blit_def)
qed

lemma copy_keeps:
  assumes "rd m s n = Some bs" "mapped m d n" "disj d n s n" "copy m d s n = Some (m', r)" "disj d n q k"
  shows "rd m' q k = rd m q k"
proof -
  obtain m'' where "copy m d s n = Some (m'', ret d n)" and out: "\<And>a. a < d \<or> d + n \<le> a \<Longrightarrow> m'' a = m a"
    using copy_contents[OF assms(1,2) allowed_disj[OF assms(3)]] by auto
  then show ?thesis using assms(4,5) by (intro rd_cong) (auto simp: disj_def)
qed

text \<open>A block saved elsewhere and copied back is the block as it was.\<close>

lemma copy_back:
  assumes "rd m s n = Some bs" "mapped m d n" "disj d n s n" "copy m d s n = Some (m', r)"
    "rd m'' d n = rd m' d n" "mapped m'' s n"
  shows "\<exists>m3. copy m'' s d n = Some (m3, ret s n) \<and> rd m3 s n = Some bs"
proof -
  have "rd m'' d n = Some bs" using copy_contents[OF assms(1,2) allowed_disj[OF assms(3)]] assms(4,5) by auto
  from copy_contents[OF this assms(6) allowed_disj] assms(3) show ?thesis by (auto simp: disj_sym)
qed

end

text \<open>A copy that also allows every overlap.\<close>

locale overlap_copy = block_copy copy ret "\<lambda>_ _ _. True" for copy ret
begin

lemma copy_anywhere:
  assumes "rd m s n = Some bs" "mapped m d n"
  shows "\<exists>m'. copy m d s n = Some (m', ret d n) \<and> rd m' d n = Some bs \<and>
    (\<forall>a. a < d \<or> d + n \<le> a \<longrightarrow> m' a = m a)"
  using assms copy_contents by simp

end

lemma ascending_ok_disj: "disj d n s n \<Longrightarrow> ascending_ok d s n"
  by (auto simp: ascending_ok_def disj_def)

interpretation cp: block_copy memcpy "\<lambda>d n. d" ascending_ok
  by unfold_locales (simp_all add: memcpy_blit ascending_ok_disj)

interpretation cp_small: block_copy memcpy_small "\<lambda>d n. d" ascending_ok
  by unfold_locales (simp_all add: memcpy_small_blit ascending_ok_disj)

interpretation pcp: block_copy mempcpy "\<lambda>d n. d + n" ascending_ok
  by unfold_locales (simp_all add: mempcpy_blit ascending_ok_disj)

interpretation mv: overlap_copy memmove "\<lambda>d n. d"
  by unfold_locales (simp_all add: memmove_blit)

interpretation mv_small: overlap_copy memmove_small "\<lambda>d n. d"
  by unfold_locales (simp_all add: memmove_small_blit)

section \<open>Properties\<close>

text \<open>
  C11: \<open>memmove\<close> moves a block whatever the overlap of source and destination: it returns
  the destination, which then holds the bytes the source held, and no other byte of memory changes. The
  body for small size computes the same memory.
\<close>

theorem memmove_moves:
  assumes "rd m s n = Some bs" "mapped m d n"
  shows "\<exists>m'. memmove m d s n = Some (m', d) \<and> memmove_small m d s n = Some (m', d) \<and>
    rd m' d n = Some bs \<and> (\<forall>a. a < d \<or> d + n \<le> a \<longrightarrow> m' a = m a)"
proof -
  have "memmove m d s n = memmove_small m d s n"
    using assms by (simp add: memmove_blit memmove_small_blit rd_mapped)
  with mv.copy_anywhere[OF assms] show ?thesis by simp
qed

theorem memmove_moves_witness:
  "\<exists>m'. memmove (mem_image 64 [1, 2, 3, 4, 5]) 66 64 3 = Some (m', 66) \<and> rd m' 66 3 = Some [1, 2, 3]"
proof -
  have "rd (mem_image 64 [1, 2, 3, 4, 5]) 64 3 = Some [1, 2, 3]" "mapped (mem_image 64 [1, 2, 3, 4, 5]) 66 3" by code_simp+
  from memmove_moves[OF this] show ?thesis by auto
qed

text \<open>
  C12: \<open>memcpy\<close>, through its unrolled, word and byte loops, copies a block to a disjoint
  place, returns the destination and leaves the rest of memory (the source included) as it was; \<open>mempcpy\<close> gives the
  same memory and the address after the copy.
\<close>

theorem memcpy_copies:
  assumes "rd m s n = Some bs" "mapped m d n" "disj d n s n"
  shows "\<exists>m'. memcpy m d s n = Some (m', d) \<and> memcpy_small m d s n = Some (m', d) \<and>
    mempcpy m d s n = Some (m', d + n) \<and>
    rd m' d n = Some bs \<and> rd m' s n = Some bs \<and> (\<forall>a. a < d \<or> d + n \<le> a \<longrightarrow> m' a = m a)"
proof -
  have s: "mapped m s n" using assms(1) by (auto simp: rd_mapped)
  have ok: "ascending_ok d s n" using assms(3) by (rule ascending_ok_disj)
  obtain m' where m': "memcpy m d s n = Some (m', d)" "rd m' d n = Some bs"
    "\<forall>a. a < d \<or> d + n \<le> a \<longrightarrow> m' a = m a" using cp.copy_contents[OF assms(1,2) ok] by auto
  moreover have "rd m' s n = Some bs" using cp.copy_keeps[OF assms m'(1) assms(3)] assms(1) by simp
  ultimately show ?thesis using s assms(2) ok by (simp add: memcpy_blit memcpy_small_blit mempcpy_blit)
qed

theorem memcpy_copies_witness:
  "\<exists>m'. memcpy (mem_image 64 (replicate 9 7 @ replicate 16 0)) 73 64 9 = Some (m', 73) \<and>
    rd m' 73 9 = Some (replicate 9 7)"
proof -
  let ?m = "mem_image 64 (replicate 9 7 @ replicate 16 0)"
  have "rd ?m 64 9 = Some (replicate 9 7)" "mapped ?m 73 9" "disj 73 9 64 9" by code_simp+
  from memcpy_copies[OF this] show ?thesis by auto
qed

text \<open>
  C13: \<open>memset\<close> fills the block with the low byte of its argument, through byte, unrolled
  word and word loops, and returns the block; the small body does the same.
\<close>

theorem memset_fills:
  assumes "mapped m p n"
  shows "memset m p c n = Some (put m p (replicate n (word_of_int c)), p) \<and>
    memset_small m p c n = memset m p c n"
  using assms by (simp_all add: memset_put memset_small_put)

theorem memset_fills_witness:
  "memset (mem_image 64 (replicate 24 0)) 65 0x141 20 =
     Some (put (mem_image 64 (replicate 24 0)) 65 (replicate 20 0x41), 65)"
proof -
  have "mapped (mem_image 64 (replicate 24 0)) 65 20" by code_simp
  moreover have "(word_of_int 0x141 :: byte) = 0x41" by code_simp
  ultimately show ?thesis using memset_fills[of "mem_image 64 (replicate 24 0)" 65 20 "0x141"] by (simp only:)
qed

text \<open>
  C14: \<open>memcmp\<close> is the lexicographic comparison of the two blocks as unsigned bytes: its
  result is negative, zero or positive as the first block is before, equal to or after the second.
\<close>

theorem memcmp_orders:
  assumes "rd m p n = Some xs" "rd m q n = Some ys"
  shows "\<exists>r. memcmp m p q n = Some r \<and> memcmp_small m p q n = Some r \<and>
    (r = 0 \<longleftrightarrow> xs = ys) \<and> (r < 0 \<longleftrightarrow> (xs, ys) \<in> lexord {(a, b). a < b}) \<and>
    (r > 0 \<longleftrightarrow> (ys, xs) \<in> lexord {(a, b). a < b})"
proof -
  have l: "length xs = length ys" using assms by (auto dest: rd_length)
  have "memcmp_small m p q n = Some (cmp_result xs ys)"
    using cmp_bytes_result[OF assms] by (simp add: memcmp_small_def)
  moreover have "cmp_result xs ys > 0 \<longleftrightarrow> (ys, xs) \<in> lexord {(a, b). a < b}"
    using cmp_result_less[OF l[symmetric]] cmp_result_swap[of xs ys] by simp
  ultimately show ?thesis using memcmp_result[OF assms] cmp_result_eq_0[OF l] cmp_result_less[OF l] by auto
qed

theorem memcmp_orders_witness:
  "\<exists>r. memcmp (mem_image 64 [1, 2, 200, 1, 2, 3]) 64 67 3 = Some r \<and> r > 0"
proof -
  let ?m = "mem_image 64 [1, 2, 200, 1, 2, 3]"
  have "rd ?m 64 3 = Some [1, 2, 200]" "rd ?m 67 3 = Some [1, 2, 3]" by code_simp+
  from memcmp_orders[OF this] show ?thesis by auto
qed

text \<open>
  C15: \<open>memchr\<close> finds the first occurrence of a byte in the block, and returns the null
  pointer exactly when there is none (the block not lying at address 0).
\<close>

theorem memchr_finds:
  assumes "rd m p n = Some bs" "p \<noteq> NULL"
  shows "\<exists>r. memchr m p c n = Some r \<and> memchr_small m p c n = Some r \<and>
    (r = NULL \<longleftrightarrow> word_of_int c \<notin> set bs) \<and>
    (r \<noteq> NULL \<longrightarrow> (\<exists>i<n. r = p + i \<and> bs ! i = word_of_int c \<and> (\<forall>j<i. bs ! j \<noteq> word_of_int c)))"
proof -
  let ?c = "word_of_int c :: byte"
  have "memchr_small m p c n = Some (chr_result p ?c bs)"
    using chr_bytes_result[OF assms(1)] by (simp add: memchr_small_def)
  moreover have "\<exists>i<n. chr_result p ?c bs = p + i \<and> bs ! i = ?c \<and> (\<forall>j<i. bs ! j \<noteq> ?c)" if "?c \<in> set bs"
    using chr_result_first[OF that] rd_length[OF assms(1)] by simp
  moreover have "chr_result p ?c bs = NULL \<longleftrightarrow> ?c \<notin> set bs" using assms(2) by (simp add: chr_result_def)
  ultimately show ?thesis using memchr_result[OF assms(1), of c] by auto
qed

theorem memchr_finds_witness:
  "\<exists>r. memchr (mem_image 64 [1, 2, 3, 4, 5, 6, 7, 8, 9, 3]) 64 3 10 = Some r \<and> r \<noteq> NULL"
proof -
  have "rd (mem_image 64 [1, 2, 3, 4, 5, 6, 7, 8, 9, 3]) 64 10 = Some [1, 2, 3, 4, 5, 6, 7, 8, 9, 3]" by code_simp
  from memchr_finds[OF this, of 3] show ?thesis by auto
qed

end
