(* ===== verification/StrFns.thy ===== *)
theory StrFns
  imports MemFns
begin

text \<open>
  The C string functions of \<open>newlib/libc/string\<close>: length, copying, concatenation,
  comparison and search, with the word-at-a-time bodies and, under the suffix \<open>_small\<close>, the
  bodies for \<open>PREFER_SIZE_OVER_SPEED\<close>. A function that writes returns the memory first.
\<close>

section \<open>Definitions\<close>

abbreviation (input) has_null :: "ulong \<Rightarrow> bool" where
  "has_null w \<equiv> DETECT_NULL w \<noteq> 0"

subsection \<open>Length\<close>

definition strlen :: "mem \<Rightarrow> addr \<Rightarrow> nat option" where
  "strlen m start = do {
     r \<leftarrow> scan_unaligned m 0 start;
     (case r of
        Inl str \<Rightarrow> Some (str - start)
      | Inr str \<Rightarrow> do {
          str \<leftarrow> scan_words m has_null str;
          str \<leftarrow> scan_bytes m (\<lambda>c. c = 0) str;
          Some (str - start) }) }"

definition strlen_small :: "mem \<Rightarrow> addr \<Rightarrow> nat option" where
  "strlen_small m start = do { str \<leftarrow> scan_bytes m (\<lambda>c. c = 0) start; Some (str - start) }"

fun strnlen_loop :: "mem \<Rightarrow> addr \<Rightarrow> nat \<Rightarrow> addr option" where
  "strnlen_loop m str 0 = Some str"
| "strnlen_loop m str (Suc n) = do {
     c \<leftarrow> ld8 m str;
     if c \<noteq> 0 then strnlen_loop m (str + 1) n else Some str }"

definition strnlen :: "mem \<Rightarrow> addr \<Rightarrow> nat \<Rightarrow> nat option" where
  "strnlen m start n = do { str \<leftarrow> strnlen_loop m start n; Some (str - start) }"

subsection \<open>Copying\<close>

text \<open>\<open>while ((*dst++ = *src++)) ;\<close> returns \<open>dst\<close> after the loop.\<close>

partial_function (option) strcpy_bytes :: "mem \<Rightarrow> addr \<Rightarrow> addr \<Rightarrow> (mem \<times> addr) option" where
  "strcpy_bytes m dst src = do {
     c \<leftarrow> ld8 m src;
     m \<leftarrow> st8 m dst c;
     if c = 0 then Some (m, dst + 1) else strcpy_bytes m (dst + 1) (src + 1) }"

partial_function (option) strcpy_words :: "mem \<Rightarrow> addr \<Rightarrow> addr \<Rightarrow> (mem \<times> addr \<times> addr) option" where
  "strcpy_words m dst src = do {
     w \<leftarrow> ld64 m src;
     if has_null w then Some (m, dst, src)
     else do { m \<leftarrow> copy64 m dst src; strcpy_words m (dst + 8) (src + 8) } }"

declare strcpy_bytes.simps [code] strcpy_words.simps [code]

definition strcpy :: "mem \<Rightarrow> addr \<Rightarrow> addr \<Rightarrow> (mem \<times> addr) option" where
  "strcpy m dst0 src0 = do {
     (m, dst, src) \<leftarrow>
       (if \<not> UNALIGNED_X_Y src0 dst0 then strcpy_words m dst0 src0 else Some (m, dst0, src0));
     (m, _) \<leftarrow> strcpy_bytes m dst src;
     Some (m, dst0) }"

definition strcpy_small :: "mem \<Rightarrow> addr \<Rightarrow> addr \<Rightarrow> (mem \<times> addr) option" where
  "strcpy_small m dst0 src0 = do { (m, _) \<leftarrow> strcpy_bytes m dst0 src0; Some (m, dst0) }"

definition stpcpy :: "mem \<Rightarrow> addr \<Rightarrow> addr \<Rightarrow> (mem \<times> addr) option" where
  "stpcpy m dst src = do {
     (m, dst, src) \<leftarrow>
       (if \<not> UNALIGNED_X_Y src dst then strcpy_words m dst src else Some (m, dst, src));
     (m, dst) \<leftarrow> strcpy_bytes m dst src;
     Some (m, dst - 1) }"

fun strncpy_words :: "mem \<Rightarrow> addr \<Rightarrow> addr \<Rightarrow> nat \<Rightarrow> (mem \<times> addr \<times> addr \<times> nat) option" where
  "strncpy_words m dst src count =
     (if TOO_SMALL_LITTLE_BLOCK count then Some (m, dst, src, count)
      else do {
        w \<leftarrow> ld64 m src;
        if has_null w then Some (m, dst, src, count)
        else do {
          m \<leftarrow> copy64 m dst src;
          strncpy_words m (dst + 8) (src + 8) (count - LITTLE_BLOCK_SIZE) } })"

declare strncpy_words.simps [simp del]

text \<open>
  \<open>while (count > 0) { --count; if ((*dst++ = *src++) == 0) break; }\<close>: the memory,
  \<open>dst\<close>, the remaining \<open>count\<close> and whether the loop was left by \<open>break\<close>.
\<close>

fun strncpy_bytes :: "mem \<Rightarrow> addr \<Rightarrow> addr \<Rightarrow> nat \<Rightarrow> (mem \<times> addr \<times> nat \<times> bool) option" where
  "strncpy_bytes m dst src 0 = Some (m, dst, 0, False)"
| "strncpy_bytes m dst src (Suc count) = do {
     c \<leftarrow> ld8 m src;
     m \<leftarrow> st8 m dst c;
     if c = 0 then Some (m, dst + 1, count, True) else strncpy_bytes m (dst + 1) (src + 1) count }"

definition strncpy :: "mem \<Rightarrow> addr \<Rightarrow> addr \<Rightarrow> nat \<Rightarrow> (mem \<times> addr) option" where
  "strncpy m dst0 src0 count = do {
     (m, dst, src, count) \<leftarrow>
       (if \<not> UNALIGNED_X_Y src0 dst0 \<and> \<not> TOO_SMALL_LITTLE_BLOCK count
        then strncpy_words m dst0 src0 count else Some (m, dst0, src0, count));
     (m, dst, count, _) \<leftarrow> strncpy_bytes m dst src count;
     m \<leftarrow> set_bytes m dst 0 count;
     Some (m, dst0) }"

definition strncpy_small :: "mem \<Rightarrow> addr \<Rightarrow> addr \<Rightarrow> nat \<Rightarrow> (mem \<times> addr) option" where
  "strncpy_small m dst0 src0 count = do {
     (m, dst, count, _) \<leftarrow> strncpy_bytes m dst0 src0 count;
     m \<leftarrow> set_bytes m dst 0 count;
     Some (m, dst0) }"

definition stpncpy :: "mem \<Rightarrow> addr \<Rightarrow> addr \<Rightarrow> nat \<Rightarrow> (mem \<times> addr) option" where
  "stpncpy m dst src count = do {
     (m, dst, src, count) \<leftarrow>
       (if \<not> UNALIGNED_X_Y src dst \<and> \<not> TOO_SMALL_LITTLE_BLOCK count
        then strncpy_words m dst src count else Some (m, dst, src, count));
     (m, dst, count, broke) \<leftarrow> strncpy_bytes m dst src count;
     m \<leftarrow> set_bytes m dst 0 count;
     Some (m, if broke then dst - 1 else dst + count) }"

subsection \<open>Concatenation\<close>

text \<open>\<open>while (UNALIGNED_X(s1) && *s1) s1++;\<close>\<close>

partial_function (option) cat_unaligned :: "mem \<Rightarrow> addr \<Rightarrow> addr option" where
  "cat_unaligned m s1 =
     (if UNALIGNED_X s1
      then do { c \<leftarrow> ld8 m s1; if c \<noteq> 0 then cat_unaligned m (s1 + 1) else Some s1 }
      else Some s1)"

declare cat_unaligned.simps [code]

text \<open>The end of the destination, as \<open>strcat\<close> and \<open>strncat\<close> find it.\<close>

definition cat_end :: "mem \<Rightarrow> addr \<Rightarrow> addr option" where
  "cat_end m s1 = do {
     s1 \<leftarrow> cat_unaligned m s1;
     c \<leftarrow> ld8 m s1;
     if c \<noteq> 0 then do { s1 \<leftarrow> scan_words m has_null s1; scan_bytes m (\<lambda>c. c = 0) s1 }
     else Some s1 }"

definition strcat :: "mem \<Rightarrow> addr \<Rightarrow> addr \<Rightarrow> (mem \<times> addr) option" where
  "strcat m s s2 = do {
     s1 \<leftarrow> cat_end m s;
     (m, _) \<leftarrow> strcpy m s1 s2;
     Some (m, s) }"

definition strcat_small :: "mem \<Rightarrow> addr \<Rightarrow> addr \<Rightarrow> (mem \<times> addr) option" where
  "strcat_small m s s2 = do {
     s1 \<leftarrow> scan_bytes m (\<lambda>c. c = 0) s;
     (m, _) \<leftarrow> strcpy_bytes m s1 s2;
     Some (m, s) }"

text \<open>\<open>while (n-- != 0 && (*s1++ = *s2++)) if (n == 0) *s1 = 0;\<close>\<close>

fun strncat_loop :: "mem \<Rightarrow> addr \<Rightarrow> addr \<Rightarrow> nat \<Rightarrow> mem option" where
  "strncat_loop m s1 s2 0 = Some m"
| "strncat_loop m s1 s2 (Suc n) = do {
     c \<leftarrow> ld8 m s2;
     m \<leftarrow> st8 m s1 c;
     if c \<noteq> 0
     then do { m \<leftarrow> (if n = 0 then st8 m (s1 + 1) 0 else Some m);
               strncat_loop m (s1 + 1) (s2 + 1) n }
     else Some m }"

definition strncat :: "mem \<Rightarrow> addr \<Rightarrow> addr \<Rightarrow> nat \<Rightarrow> (mem \<times> addr) option" where
  "strncat m s s2 n = do {
     s1 \<leftarrow> cat_end m s;
     m \<leftarrow> strncat_loop m s1 s2 n;
     Some (m, s) }"

definition strncat_small :: "mem \<Rightarrow> addr \<Rightarrow> addr \<Rightarrow> nat \<Rightarrow> (mem \<times> addr) option" where
  "strncat_small m s s2 n = do {
     s1 \<leftarrow> scan_bytes m (\<lambda>c. c = 0) s;
     m \<leftarrow> strncat_loop m s1 s2 n;
     Some (m, s) }"

text \<open>
  \<open>strlcpy\<close>: the loop runs with \<open>nleft\<close> already decremented once; its result says
  whether it was left by \<open>break\<close> and where \<open>dst\<close> and \<open>src\<close> are.
\<close>

fun strlcpy_loop :: "mem \<Rightarrow> addr \<Rightarrow> addr \<Rightarrow> nat \<Rightarrow> (mem \<times> addr \<times> addr \<times> bool) option" where
  "strlcpy_loop m dst src 0 = Some (m, dst, src, False)"
| "strlcpy_loop m dst src (Suc nleft) = do {
     c \<leftarrow> ld8 m src;
     m \<leftarrow> st8 m dst c;
     if c = 0 then Some (m, dst + 1, src + 1, True)
     else strlcpy_loop m (dst + 1) (src + 1) nleft }"

definition strlcpy :: "mem \<Rightarrow> addr \<Rightarrow> addr \<Rightarrow> nat \<Rightarrow> (mem \<times> nat) option" where
  "strlcpy m dst0 osrc dsize = do {
     (m, dst, src, broke) \<leftarrow>
       (if dsize \<noteq> 0 then strlcpy_loop m dst0 osrc (dsize - 1) else Some (m, dst0, osrc, False));
     if \<not> broke
     then do {
       m \<leftarrow> (if dsize \<noteq> 0 then st8 m dst 0 else Some m);
       e \<leftarrow> scan_bytes m (\<lambda>c. c = 0) src;
       Some (m, (e + 1) - osrc - 1) }
     else Some (m, src - osrc - 1) }"

partial_function (option) strlcat_loop :: "mem \<Rightarrow> addr \<Rightarrow> addr \<Rightarrow> nat \<Rightarrow> (mem \<times> addr \<times> addr) option" where
  "strlcat_loop m dst src n = do {
     c \<leftarrow> ld8 m src;
     if c \<noteq> 0
     then (if n \<noteq> 0
           then do { m \<leftarrow> st8 m dst c; strlcat_loop m (dst + 1) (src + 1) (n - 1) }
           else strlcat_loop m dst (src + 1) n)
     else Some (m, dst, src) }"

declare strlcat_loop.simps [code]

definition strlcat :: "mem \<Rightarrow> addr \<Rightarrow> addr \<Rightarrow> nat \<Rightarrow> (mem \<times> nat) option" where
  "strlcat m odst osrc dsize = do {
     dst \<leftarrow> strnlen_loop m odst dsize;
     let dlen = dst - odst; n = dsize - dlen in
     if n = 0 then do { l \<leftarrow> strlen m osrc; Some (m, dlen + l) }
     else do {
       (m, dst, src) \<leftarrow> strlcat_loop m dst osrc (n - 1);
       m \<leftarrow> st8 m dst 0;
       Some (m, dlen + (src - osrc)) } }"

subsection \<open>Comparison\<close>

partial_function (option) strcmp_words :: "mem \<Rightarrow> addr \<Rightarrow> addr \<Rightarrow> (int + addr \<times> addr) option" where
  "strcmp_words m a1 a2 = do {
     x \<leftarrow> ld64 m a1;
     y \<leftarrow> ld64 m a2;
     if x = y then (if has_null x then Some (Inl 0) else strcmp_words m (a1 + 8) (a2 + 8))
     else Some (Inr (a1, a2)) }"

partial_function (option) strcmp_bytes :: "mem \<Rightarrow> addr \<Rightarrow> addr \<Rightarrow> int option" where
  "strcmp_bytes m s1 s2 = do {
     c1 \<leftarrow> ld8 m s1;
     c2 \<leftarrow> ld8 m s2;
     if c1 \<noteq> 0 \<and> c1 = c2 then strcmp_bytes m (s1 + 1) (s2 + 1) else Some (uint c1 - uint c2) }"

declare strcmp_words.simps [code] strcmp_bytes.simps [code]

definition strcmp :: "mem \<Rightarrow> addr \<Rightarrow> addr \<Rightarrow> int option" where
  "strcmp m s1 s2 = do {
     r \<leftarrow> (if \<not> UNALIGNED_X_Y s1 s2 then strcmp_words m s1 s2 else Some (Inr (s1, s2)));
     (case r of Inl ret \<Rightarrow> Some ret | Inr (s1, s2) \<Rightarrow> strcmp_bytes m s1 s2) }"

definition strcmp_small :: "mem \<Rightarrow> addr \<Rightarrow> addr \<Rightarrow> int option" where
  "strcmp_small m s1 s2 = strcmp_bytes m s1 s2"

definition strcoll :: "mem \<Rightarrow> addr \<Rightarrow> addr \<Rightarrow> int option" where
  "strcoll m a b = strcmp m a b"

fun strncmp_words :: "mem \<Rightarrow> addr \<Rightarrow> addr \<Rightarrow> nat \<Rightarrow> (int + addr \<times> addr \<times> nat) option" where
  "strncmp_words m a1 a2 n =
     (if n \<ge> 8
      then do {
        x \<leftarrow> ld64 m a1;
        y \<leftarrow> ld64 m a2;
        if x = y
        then (let n = n - 8 in
              if n = 0 \<or> has_null x then Some (Inl 0) else strncmp_words m (a1 + 8) (a2 + 8) n)
        else Some (Inr (a1, a2, n)) }
      else Some (Inr (a1, a2, n)))"

fun strncmp_bytes :: "mem \<Rightarrow> addr \<Rightarrow> addr \<Rightarrow> nat \<Rightarrow> int option" where
  "strncmp_bytes m s1 s2 0 = do { c1 \<leftarrow> ld8 m s1; c2 \<leftarrow> ld8 m s2; Some (uint c1 - uint c2) }"
| "strncmp_bytes m s1 s2 (Suc n) = do {
     c1 \<leftarrow> ld8 m s1;
     c2 \<leftarrow> ld8 m s2;
     if c1 = c2
     then (if n = 0 \<or> c1 = 0 then Some 0 else strncmp_bytes m (s1 + 1) (s2 + 1) n)
     else Some (uint c1 - uint c2) }"

declare strncmp_words.simps [simp del]

definition strncmp :: "mem \<Rightarrow> addr \<Rightarrow> addr \<Rightarrow> nat \<Rightarrow> int option" where
  "strncmp m s1 s2 n =
     (if n = 0 then Some 0
      else do {
        r \<leftarrow> (if \<not> UNALIGNED_X_Y s1 s2 then strncmp_words m s1 s2 n else Some (Inr (s1, s2, n)));
        (case r of Inl ret \<Rightarrow> Some ret | Inr (s1, s2, n) \<Rightarrow> strncmp_bytes m s1 s2 n) })"

fun strncmp_small_loop :: "mem \<Rightarrow> addr \<Rightarrow> addr \<Rightarrow> nat \<Rightarrow> int option" where
  "strncmp_small_loop m s1 s2 0 = do { c1 \<leftarrow> ld8 m s1; c2 \<leftarrow> ld8 m s2; Some (uint c1 - uint c2) }"
| "strncmp_small_loop m s1 s2 (Suc n) = do {
     c1 \<leftarrow> ld8 m s1;
     c2 \<leftarrow> ld8 m s2;
     if c1 = c2 \<and> \<not> (n = 0 \<or> c1 = 0) then strncmp_small_loop m (s1 + 1) (s2 + 1) n
     else Some (uint c1 - uint c2) }"

definition strncmp_small :: "mem \<Rightarrow> addr \<Rightarrow> addr \<Rightarrow> nat \<Rightarrow> int option" where
  "strncmp_small m s1 s2 n = (if n = 0 then Some 0 else strncmp_small_loop m s1 s2 n)"

subsection \<open>Search\<close>

definition strchr_mask :: "byte \<Rightarrow> ulong" where
  "strchr_mask c = fold (\<lambda>j msk. push_bit j msk OR msk) [8, 16, 32] (ucast c)"

partial_function (option) strchr_unaligned :: "mem \<Rightarrow> byte \<Rightarrow> addr \<Rightarrow> (addr + addr) option" where
  "strchr_unaligned m c s =
     (if UNALIGNED_X s
      then do {
        b \<leftarrow> ld8 m s;
        if b = 0 then Some (Inl NULL)
        else if b = c then Some (Inl s)
        else strchr_unaligned m c (s + 1) }
      else Some (Inr s))"

declare strchr_unaligned.simps [code]

definition strchr :: "mem \<Rightarrow> addr \<Rightarrow> int \<Rightarrow> addr option" where
  "strchr m s1 i = (let c = word_of_int i in
     if c = 0
     then do {
       r \<leftarrow> scan_unaligned m 0 s1;
       (case r of
          Inl s \<Rightarrow> Some s
        | Inr s \<Rightarrow> do { s \<leftarrow> scan_words m has_null s; scan_bytes m (\<lambda>b. b = 0) s }) }
     else do {
       r \<leftarrow> strchr_unaligned m c s1;
       (case r of
          Inl ret \<Rightarrow> Some ret
        | Inr s \<Rightarrow> do {
            s \<leftarrow> scan_words m (\<lambda>w. has_null w \<or> DETECT_CHAR w (strchr_mask c) \<noteq> 0) s;
            s \<leftarrow> scan_bytes m (\<lambda>b. b = 0 \<or> b = c) s;
            b \<leftarrow> ld8 m s;
            if b = c then Some s else Some NULL }) })"

definition strchr_small :: "mem \<Rightarrow> addr \<Rightarrow> int \<Rightarrow> addr option" where
  "strchr_small m s1 i = (let c = word_of_int i in
     do { s \<leftarrow> scan_bytes m (\<lambda>b. b = 0 \<or> b = c) s1;
          b \<leftarrow> ld8 m s;
          if b = c then Some s else Some NULL })"

definition index :: "mem \<Rightarrow> addr \<Rightarrow> int \<Rightarrow> addr option" where
  "index m s c = strchr m s c"

definition strchrnul :: "mem \<Rightarrow> addr \<Rightarrow> int \<Rightarrow> addr option" where
  "strchrnul m s1 i = do {
     s \<leftarrow> strchr m s1 i;
     if s \<noteq> NULL then Some s else do { l \<leftarrow> strlen m s1; Some (s1 + l) } }"

text \<open>\<open>while ((s = strchr(s, c))) { last = s; s++; }\<close>\<close>

partial_function (option) strrchr_loop :: "mem \<Rightarrow> int \<Rightarrow> addr \<Rightarrow> addr \<Rightarrow> addr option" where
  "strrchr_loop m c s lst = do {
     s \<leftarrow> strchr m s c;
     if s \<noteq> NULL then strrchr_loop m c (s + 1) s else Some lst }"

declare strrchr_loop.simps [code]

definition strrchr :: "mem \<Rightarrow> addr \<Rightarrow> int \<Rightarrow> addr option" where
  "strrchr m s i =
     (if (word_of_int i :: byte) \<noteq> 0 then strrchr_loop m i s NULL else strchr m s i)"

definition rindex :: "mem \<Rightarrow> addr \<Rightarrow> int \<Rightarrow> addr option" where
  "rindex m s c = strrchr m s c"

definition gnu_basename :: "mem \<Rightarrow> addr \<Rightarrow> addr option" where
  "gnu_basename m path = do {
     p \<leftarrow> strrchr m path 0x2F;
     if p \<noteq> NULL then Some (p + 1) else Some path }"

text \<open>\<open>for (c = s2; *c; c++) if (*s1 == *c) ...\<close>: whether the loop finds \<open>ch\<close>.\<close>

definition in_set :: "mem \<Rightarrow> byte \<Rightarrow> addr \<Rightarrow> bool option" where
  "in_set m ch s2 = do {
     c \<leftarrow> scan_bytes m (\<lambda>b. b = 0 \<or> b = ch) s2;
     b \<leftarrow> ld8 m c;
     Some (b \<noteq> 0) }"

partial_function (option) span_loop :: "mem \<Rightarrow> bool \<Rightarrow> addr \<Rightarrow> addr \<Rightarrow> addr option" where
  "span_loop m accept s1 s2 = do {
     ch \<leftarrow> ld8 m s1;
     if ch = 0 then Some s1
     else do {
       found \<leftarrow> in_set m ch s2;
       if found = accept then span_loop m accept (s1 + 1) s2 else Some s1 } }"

declare span_loop.simps [code]

definition strspn :: "mem \<Rightarrow> addr \<Rightarrow> addr \<Rightarrow> nat option" where
  "strspn m s s2 = do { s1 \<leftarrow> span_loop m True s s2; Some (s1 - s) }"

definition strcspn :: "mem \<Rightarrow> addr \<Rightarrow> addr \<Rightarrow> nat option" where
  "strcspn m s s2 = do { s1 \<leftarrow> span_loop m False s s2; Some (s1 - s) }"

definition strpbrk :: "mem \<Rightarrow> addr \<Rightarrow> addr \<Rightarrow> addr option" where
  "strpbrk m s1 s2 = do {
     s \<leftarrow> span_loop m False s1 s2;
     b \<leftarrow> ld8 m s;
     if b \<noteq> 0 then Some s else Some NULL }"

lemma put_take_drop:
  "k \<le> length t \<Longrightarrow> put (put m d (take k t)) (d + k) (drop k t @ r) = put m d (t @ r)"
  using put_append[of m d "take k t" "drop k t @ r"] by (simp flip: append_assoc)

section \<open>Length\<close>

lemma has_null_bytes: "length bs = 8 \<Longrightarrow> has_null (word_of_bytes bs) \<longleftrightarrow> (\<exists>b\<in>set bs. b \<in> {0})"
  by (auto simp: DETECT_NULL_bytes)

text \<open>The word loop and the byte loop after it reach the terminator from any aligned place in a string.\<close>

lemma scan_null_end:
  assumes "cstr_at m p s" "p mod 8 = 0" "word_mapped m"
  shows "do { a \<leftarrow> scan_words m has_null p; a \<leftarrow> scan_bytes m (\<lambda>c. c = 0) a; f a } = f (p + length s)"
proof -
  obtain k where k: "k \<le> length s" "scan_words m has_null p = Some (p + k)"
    using scan_words_delim[of has_null "{0}" 0, OF has_null_bytes _ assms] by auto
  have "scan_bytes m (\<lambda>c. c = 0) (p + k) = Some (p + length s)"
    using scan_bytes_eq_delim[OF delim_at_drop[OF assms(1) k(1)]] k by simp
  with k show ?thesis by simp
qed

lemma strlen_cstr:
  assumes "cstr_at m p s" "word_mapped m"
  shows "strlen m p = Some (length s)"
  using scan_unaligned_delim[OF assms(1)]
proof
  assume "scan_unaligned m 0 p = Some (Inl (p + length s))"
  then show ?thesis by (simp add: strlen_def)
next
  assume "\<exists>k\<le>length s. scan_unaligned m 0 p = Some (Inr (p + k)) \<and> (p + k) mod 8 = 0"
  then obtain k where k: "k \<le> length s" "scan_unaligned m 0 p = Some (Inr (p + k))" "(p + k) mod 8 = 0" by auto
  show ?thesis
    using k scan_null_end[OF delim_at_drop[OF assms(1) k(1)] k(3) assms(2), of "\<lambda>str. Some (str - p)"]
    by (simp add: strlen_def)
qed

lemma strlen_small_cstr: "cstr_at m p s \<Longrightarrow> strlen_small m p = Some (length s)"
  by (simp add: strlen_small_def scan_bytes_eq_delim)

lemma strnlen_loop_cstr: "cstr_at m p s \<Longrightarrow> strnlen_loop m p n = Some (p + min n (length s))"
proof (induction n arbitrary: p s)
  case (Suc n)
  then show ?case by (cases s) auto
qed simp

lemma strnlen_loop_rd: "rd m p n = Some bs \<Longrightarrow> strnlen_loop m p n = Some (p + length (takeWhile (\<lambda>c. c \<noteq> 0) bs))"
proof (induction n arbitrary: p bs)
  case (Suc n)
  then show ?case by (elim rd_SucE) auto
qed simp

lemma strnlen_cstr: "cstr_at m p s \<Longrightarrow> strnlen m p n = Some (min n (length s))"
  by (simp add: strnlen_def strnlen_loop_cstr)

section \<open>Copying\<close>

lemma strcpy_bytes_put:
  "cstr_at m s t \<Longrightarrow> mapped m d (Suc (length t)) \<Longrightarrow> disj d (Suc (length t)) s (Suc (length t)) \<Longrightarrow>
   strcpy_bytes m d s = Some (put m d (t @ [0]), d + Suc (length t))"
proof (induction t arbitrary: m d s)
  case Nil
  then show ?case by (subst strcpy_bytes.simps) (simp add: st8_Some mapped_Suc put_Cons)
next
  case (Cons c t)
  then have c: "m s = Some c" "c \<noteq> 0" "cstr_at m (Suc s) t" by simp_all
  have md: "m d \<noteq> None" "mapped (put m d [c]) (Suc d) (Suc (length t))"
    using Cons.prems(2) mapped_Suc[of m d "Suc (length t)"] by (auto simp: mem_simps)
  have "cstr_at (put m d [c]) (Suc s) t"
    using c(3) Cons.prems(3) by (subst delim_at_put_disj) (auto simp: disj_def)
  moreover have "disj (Suc d) (Suc (length t)) (Suc s) (Suc (length t))"
    using Cons.prems(3) by (auto simp: disj_def)
  ultimately have "strcpy_bytes (put m d [c]) (Suc d) (Suc s)
      = Some (put (put m d [c]) (Suc d) (t @ [0]), Suc d + Suc (length t))"
    using md(2) by (intro Cons.IH)
  then show ?case using c md(1) by (subst strcpy_bytes.simps) (simp add: st8_Some put_Cons)
qed

lemma strcpy_words_put:
  "cstr_at m s t \<Longrightarrow> mapped m d (Suc (length t)) \<Longrightarrow> disj d (Suc (length t)) s (Suc (length t)) \<Longrightarrow>
   d mod 8 = 0 \<Longrightarrow> s mod 8 = 0 \<Longrightarrow> word_mapped m \<Longrightarrow>
   \<exists>k\<le>length t. strcpy_words m d s = Some (put m d (take k t), d + k, s + k)"
proof (induction "length t" arbitrary: m d s t rule: less_induct)
  case less
  obtain bs where bs: "rd m s 8 = Some bs" "length bs = 8" "ld64 m s = Some (word_of_bytes bs)"
    "0 \<notin> set bs \<Longrightarrow> 8 \<le> length t \<and> bs = take 8 t \<and> cstr_at m (s + 8) (drop 8 t)"
    using delim_at_word[OF less.prems(1,5,6)] by metis
  show ?case
  proof (cases "0 \<in> set bs")
    case True
    then show ?thesis using bs by (intro exI[of _ 0]) (subst strcpy_words.simps; simp add: has_null_bytes)
  next
    case False
    then have t: "8 \<le> length t" "bs = take 8 t" "cstr_at m (s + 8) (drop 8 t)" using bs by auto
    have len: "Suc (length t) = 8 + Suc (length (drop 8 t))" using t(1) by simp
    have md: "mapped m d 8" "mapped m (d + 8) (Suc (length (drop 8 t)))"
      using less.prems(2) unfolding len mapped_split by auto
    have "cstr_at (put m d bs) (s + 8) (drop 8 t)"
      using t(1,3) less.prems(3) bs(2) by (subst delim_at_put_disj) (auto simp: disj_def)
    then have "\<exists>k\<le>length (drop 8 t). strcpy_words (put m d bs) (d + 8) (s + 8)
        = Some (put (put m d bs) (d + 8) (take k (drop 8 t)), d + 8 + k, s + 8 + k)"
      using less.prems t md bs(2)
      by (intro less.hyps) (auto simp: disj_def mem_simps)
    then obtain k where k: "k \<le> length (drop 8 t)" "strcpy_words (put m d bs) (d + 8) (s + 8)
        = Some (put m d (bs @ take k (drop 8 t)), d + 8 + k, s + 8 + k)"
      using bs(2) put_append[of m d bs] by auto
    have "strcpy_words m d s = strcpy_words (put m d bs) (d + 8) (s + 8)"
      using False bs md less.prems by (subst strcpy_words.simps) (simp add: DETECT_NULL_bytes copy64_put)
    moreover have "bs @ take k (drop 8 t) = take (8 + k) t" using t(2) by (simp add: take_add)
    ultimately show ?thesis using k t(1) by (intro exI[of _ "8 + k"]) simp
  qed
qed

text \<open>Both loops of \<open>strcpy\<close> and \<open>stpcpy\<close> together.\<close>

lemma strcpy_loops_put:
  assumes "cstr_at m s t" "mapped m d (Suc (length t))" "disj d (Suc (length t)) s (Suc (length t))" "word_mapped m"
  shows "do { (m, d, s) \<leftarrow> (if \<not> UNALIGNED_X_Y s d then strcpy_words m d s else Some (m, d, s));
              (m, d) \<leftarrow> strcpy_bytes m d s; f m d } = f (put m d (t @ [0])) (d + Suc (length t))"
proof (cases "UNALIGNED_X_Y s d")
  case True
  then show ?thesis using strcpy_bytes_put[OF assms(1-3)] by simp
next
  case False
  then have al: "d mod 8 = 0" "s mod 8 = 0" by (auto simp: block_defs)
  from strcpy_words_put[OF assms(1-3) al assms(4)]
  obtain k where k: "k \<le> length t" "strcpy_words m d s = Some (put m d (take k t), d + k, s + k)" by auto
  have len: "length (take k t) = k" "Suc (length t) = k + Suc (length (drop k t))" using k by simp_all
  have "mapped (put m d (take k t)) (d + k) (Suc (length (drop k t)))"
    using assms(2) unfolding len(2) mapped_split by (auto simp: mem_simps)
  moreover have "cstr_at (put m d (take k t)) (s + k) (drop k t)"
    using delim_at_drop[OF assms(1) k(1)] assms(3) k(1) len(1) by (subst delim_at_put_disj) (auto simp: disj_def)
  moreover have "disj (d + k) (Suc (length (drop k t))) (s + k) (Suc (length (drop k t)))"
    using assms(3) k(1) by (auto simp: disj_def)
  ultimately have "strcpy_bytes (put m d (take k t)) (d + k) (s + k)
      = Some (put (put m d (take k t)) (d + k) (drop k t @ [0]), d + k + Suc (length (drop k t)))"
    by (intro strcpy_bytes_put)
  also have "put (put m d (take k t)) (d + k) (drop k t @ [0]) = put m d (t @ [0])"
    using k(1) by (rule put_take_drop)
  finally show ?thesis using False k by simp
qed

lemma strcpy_put:
  assumes "cstr_at m s t" "mapped m d (Suc (length t))" "disj d (Suc (length t)) s (Suc (length t))" "word_mapped m"
  shows "strcpy m d s = Some (put m d (t @ [0]), d)"
  unfolding strcpy_def using strcpy_loops_put[OF assms, of "\<lambda>m _. Some (m, d)"] by simp

lemma stpcpy_put:
  assumes "cstr_at m s t" "mapped m d (Suc (length t))" "disj d (Suc (length t)) s (Suc (length t))" "word_mapped m"
  shows "stpcpy m d s = Some (put m d (t @ [0]), d + length t)"
  unfolding stpcpy_def using strcpy_loops_put[OF assms, of "\<lambda>m e. Some (m, e - 1)"] by simp

lemma strcpy_small_put:
  "cstr_at m s t \<Longrightarrow> mapped m d (Suc (length t)) \<Longrightarrow> disj d (Suc (length t)) s (Suc (length t)) \<Longrightarrow>
   strcpy_small m d s = Some (put m d (t @ [0]), d)"
  by (simp add: strcpy_small_def strcpy_bytes_put)

lemma cstr_put_prefix:
  assumes "cstr_at m s t" "k \<le> length t" "disj d k s (Suc (length t))"
  shows "cstr_at (put m d (take k t)) (s + k) (drop k t)"
  using delim_at_drop[OF assms(1,2)] assms(2,3) by (subst delim_at_put_disj) (auto simp: disj_def)

subsection \<open>Bounded copying\<close>

definition ncpy :: "nat \<Rightarrow> byte list \<Rightarrow> byte list" where
  "ncpy n t = take n t @ replicate (n - length t) 0"

lemma length_ncpy [simp]: "length (ncpy n t) = n"
  by (simp add: ncpy_def)

lemma ncpy_skip: "k \<le> length t \<Longrightarrow> ncpy (k + n) t = take k t @ ncpy n (drop k t)"
  by (simp add: ncpy_def take_add)

lemma strncpy_bytes_put:
  "cstr_at m s t \<Longrightarrow> mapped m d n \<Longrightarrow> disj d n s (Suc (length t)) \<Longrightarrow>
   strncpy_bytes m d s n =
     Some (if length t < n then (put m d (t @ [0]), d + Suc (length t), n - Suc (length t), True)
           else (put m d (take n t), d + n, 0, False))"
proof (induction n arbitrary: m d s t)
  case (Suc n)
  have md: "m d \<noteq> None" "mapped m (Suc d) n" using Suc.prems(2) by (simp_all add: mapped_Suc)
  show ?case
  proof (cases t)
    case Nil
    then show ?thesis using Suc.prems md by (simp add: st8_Some put_Cons)
  next
    case (Cons c t')
    have c: "m s = Some c" "c \<noteq> 0" using Suc.prems(1) Cons by simp_all
    have "cstr_at (put m d (take 1 t)) (s + 1) (drop 1 t)"
      using Suc.prems Cons by (intro cstr_put_prefix) (auto simp: disj_def)
    then have "strncpy_bytes (put m d [c]) (Suc d) (Suc s) n =
       Some (if length t' < n then (put (put m d [c]) (Suc d) (t' @ [0]), Suc d + Suc (length t'), n - Suc (length t'), True)
           else (put (put m d [c]) (Suc d) (take n t'), Suc d + n, 0, False))"
      using Suc.prems Cons md by (intro Suc.IH) (auto simp: disj_def mem_simps)
    then show ?thesis using c md Cons by (simp add: st8_Some put_Cons)
  qed
qed simp

lemma strncpy_words_put:
  "cstr_at m s t \<Longrightarrow> mapped m d n \<Longrightarrow> disj d n s (Suc (length t)) \<Longrightarrow>
   d mod 8 = 0 \<Longrightarrow> s mod 8 = 0 \<Longrightarrow> word_mapped m \<Longrightarrow>
   \<exists>k\<le>n. k \<le> length t \<and> strncpy_words m d s n = Some (put m d (take k t), d + k, s + k, n - k)"
proof (induction n arbitrary: m d s t rule: less_induct)
  case (less n)
  show ?case
  proof (cases "n < 8")
    case True
    then show ?thesis by (intro exI[of _ 0]) (subst strncpy_words.simps; simp add: block_defs)
  next
    case n8: False
    then obtain r where n: "n = 8 + r" by (auto simp: not_less le_iff_add)
    obtain bs where bs: "rd m s 8 = Some bs" "length bs = 8" "ld64 m s = Some (word_of_bytes bs)"
      "0 \<notin> set bs \<Longrightarrow> 8 \<le> length t \<and> bs = take 8 t \<and> cstr_at m (s + 8) (drop 8 t)"
      using delim_at_word[OF less.prems(1,5,6)] by metis
    show ?thesis
    proof (cases "0 \<in> set bs")
      case True
      then show ?thesis using bs n8
        by (intro exI[of _ 0]) (subst strncpy_words.simps; simp add: has_null_bytes block_defs)
    next
      case False
      then have t: "8 \<le> length t" "bs = take 8 t" using bs by auto
      have md: "mapped m d 8" "mapped m (d + 8) r" using less.prems(2) n by (simp_all add: mapped_split)
      have "cstr_at (put m d (take 8 t)) (s + 8) (drop 8 t)"
        using less.prems t n by (intro cstr_put_prefix) (auto simp: disj_def)
      then have "\<exists>k\<le>r. k \<le> length (drop 8 t) \<and> strncpy_words (put m d bs) (d + 8) (s + 8) r
          = Some (put (put m d bs) (d + 8) (take k (drop 8 t)), d + 8 + k, s + 8 + k, r - k)"
        using less.prems t md bs(2) n by (intro less.IH) (auto simp: disj_def mem_simps)
      then obtain k where k: "k \<le> r" "k \<le> length (drop 8 t)" "strncpy_words (put m d bs) (d + 8) (s + 8) r
          = Some (put m d (bs @ take k (drop 8 t)), d + 8 + k, s + 8 + k, r - k)"
        using bs(2) put_append[of m d bs] by auto
      have "strncpy_words m d s n = strncpy_words (put m d bs) (d + 8) (s + 8) r"
        using False bs md less.prems n
        by (subst strncpy_words.simps) (simp add: DETECT_NULL_bytes copy64_put block_defs)
      moreover have "bs @ take k (drop 8 t) = take (8 + k) t" using t(2) by (simp add: take_add)
      ultimately show ?thesis using k t(1) n by (intro exI[of _ "8 + k"]) simp
    qed
  qed
qed

lemma strncpy_bytes_set:
  assumes "cstr_at m s t" "mapped m d n" "disj d n s (Suc (length t))"
  shows "do { (m, d, n, broke) \<leftarrow> strncpy_bytes m d s n; m \<leftarrow> set_bytes m d 0 n; f m d n broke }
       = f (put m d (ncpy n t)) (d + min n (Suc (length t))) (n - Suc (length t)) (length t < n)"
proof (cases "length t < n")
  case True
  then obtain r where n: "n = Suc (length t) + r" by (metis Suc_leI le_Suc_ex)
  have "mapped (put m d (t @ [0])) (d + Suc (length t)) r"
    using assms(2) n mapped_split[of m d "Suc (length t)" r] by (simp add: mem_simps)
  then have "set_bytes (put m d (t @ [0])) (d + Suc (length t)) 0 r = Some (put m d ((t @ [0]) @ replicate r 0))"
    using put_append[of m d "t @ [0]" "replicate r 0"] by (simp add: set_bytes_put)
  moreover have "ncpy n t = (t @ [0]) @ replicate r 0" using n by (simp add: ncpy_def)
  ultimately show ?thesis using strncpy_bytes_put[OF assms] True n by simp
next
  case False
  then show ?thesis using strncpy_bytes_put[OF assms] by (simp add: ncpy_def)
qed

lemma strncpy_loops_put:
  assumes "cstr_at m s t" "mapped m d n" "disj d n s (Suc (length t))" "word_mapped m"
  shows "do { (m, d, s, n) \<leftarrow> (if \<not> UNALIGNED_X_Y s d \<and> \<not> TOO_SMALL_LITTLE_BLOCK n
                then strncpy_words m d s n else Some (m, d, s, n));
              (m, d, n, broke) \<leftarrow> strncpy_bytes m d s n; m \<leftarrow> set_bytes m d 0 n; f m d n broke }
       = f (put m d (ncpy n t)) (d + min n (Suc (length t))) (n - Suc (length t)) (length t < n)"
proof (cases "\<not> UNALIGNED_X_Y s d \<and> \<not> TOO_SMALL_LITTLE_BLOCK n")
  case False
  then show ?thesis using strncpy_bytes_set[OF assms(1-3), of f] by (simp only: if_False) simp
next
  case True
  then have al: "d mod 8 = 0" "s mod 8 = 0" by (auto simp: block_defs)
  from strncpy_words_put[OF assms(1-3) al assms(4)]
  obtain k where k: "k \<le> n" "k \<le> length t" "strncpy_words m d s n = Some (put m d (take k t), d + k, s + k, n - k)" by auto
  have "mapped (put m d (take k t)) (d + k) (n - k)"
    using assms(2) k(1) mapped_split[of m d k "n - k"] by (simp add: mem_simps)
  moreover have "cstr_at (put m d (take k t)) (s + k) (drop k t)"
    using assms k by (intro cstr_put_prefix) (auto simp: disj_def)
  moreover have "disj (d + k) (n - k) (s + k) (Suc (length (drop k t)))"
    using assms(3) k by (auto simp: disj_def)
  moreover have "put (put m d (take k t)) (d + k) (ncpy (n - k) (drop k t)) = put m d (ncpy n t)"
    using put_append[of m d "take k t" "ncpy (n - k) (drop k t)"] ncpy_skip[OF k(2), of "n - k"] k by simp
  ultimately have "do { (m, d, n, broke) \<leftarrow> strncpy_bytes (put m d (take k t)) (d + k) (s + k) (n - k);
        m \<leftarrow> set_bytes m d 0 n; f m d n broke }
    = f (put m d (ncpy n t)) (d + k + min (n - k) (Suc (length t - k))) (n - k - Suc (length t - k)) (length t - k < n - k)"
    using strncpy_bytes_set[of "put m d (take k t)" "s + k" "drop k t" "d + k" "n - k" f] by simp
  moreover have "d + k + min (n - k) (Suc (length t - k)) = d + min n (Suc (length t))"
    "n - k - Suc (length t - k) = n - Suc (length t)" "(length t - k < n - k) = (length t < n)"
    using k(1,2) by auto
  ultimately show ?thesis using True k by simp
qed

lemma strncpy_put:
  assumes "cstr_at m s t" "mapped m d n" "disj d n s (Suc (length t))" "word_mapped m"
  shows "strncpy m d s n = Some (put m d (ncpy n t), d)"
  unfolding strncpy_def using strncpy_loops_put[OF assms, of "\<lambda>m _ _ _. Some (m, d)"] by simp

lemma stpncpy_put:
  assumes "cstr_at m s t" "mapped m d n" "disj d n s (Suc (length t))" "word_mapped m"
  shows "stpncpy m d s n = Some (put m d (ncpy n t), d + min n (length t))"
  unfolding stpncpy_def
  using strncpy_loops_put[OF assms, of "\<lambda>m d n broke. Some (m, if broke then d - 1 else d + n)"]
  by (auto simp: min_def)

lemma strncpy_small_put:
  assumes "cstr_at m s t" "mapped m d n" "disj d n s (Suc (length t))"
  shows "strncpy_small m d s n = Some (put m d (ncpy n t), d)"
  unfolding strncpy_small_def using strncpy_bytes_set[OF assms, of "\<lambda>m _ _ _. Some (m, d)"] by simp

lemma strlcpy_loop_put:
  "cstr_at m s t \<Longrightarrow> mapped m d n \<Longrightarrow> disj d n s (Suc (length t)) \<Longrightarrow>
   strlcpy_loop m d s n =
     Some (if length t < n then (put m d (t @ [0]), d + Suc (length t), s + Suc (length t), True)
           else (put m d (take n t), d + n, s + n, False))"
proof (induction n arbitrary: m d s t)
  case (Suc n)
  have md: "m d \<noteq> None" "mapped m (Suc d) n" using Suc.prems(2) by (simp_all add: mapped_Suc)
  show ?case
  proof (cases t)
    case Nil
    then show ?thesis using Suc.prems md by (simp add: st8_Some put_Cons)
  next
    case (Cons c t')
    have c: "m s = Some c" "c \<noteq> 0" using Suc.prems(1) Cons by simp_all
    have "cstr_at (put m d (take 1 t)) (s + 1) (drop 1 t)"
      using Suc.prems Cons by (intro cstr_put_prefix) (auto simp: disj_def)
    then have "strlcpy_loop (put m d [c]) (Suc d) (Suc s) n =
       Some (if length t' < n then (put (put m d [c]) (Suc d) (t' @ [0]), Suc d + Suc (length t'), Suc s + Suc (length t'), True)
           else (put (put m d [c]) (Suc d) (take n t'), Suc d + n, Suc s + n, False))"
      using Suc.prems Cons md by (intro Suc.IH) (auto simp: disj_def mem_simps)
    then show ?thesis using c md Cons by (simp add: st8_Some put_Cons)
  qed
qed simp

lemma strlcpy_put:
  assumes "cstr_at m s t" "mapped m d n" "disj d n s (Suc (length t))"
  shows "strlcpy m d s n =
    Some (if n = 0 then m else put m d (take (n - 1) t @ [0]), length t)"
proof (cases n)
  case 0
  then show ?thesis using scan_bytes_eq_delim[OF assms(1)] by (simp add: strlcpy_def)
next
  case (Suc k)
  have mp: "mapped m d k" "m (d + k) \<noteq> None" using assms(2) Suc by (auto simp: mapped_def)
  have dj: "disj d k s (Suc (length t))" using assms(3) Suc by (auto simp: disj_def)
  note lp = strlcpy_loop_put[OF assms(1) mp(1) dj]
  show ?thesis
  proof (cases "length t < k")
    case True
    then show ?thesis using lp Suc by (simp add: strlcpy_def)
  next
    case False
    then have k: "k \<le> length t" by simp
    have "(put m d (take k t)) (d + k) \<noteq> None" using mp(2) k by (simp add: put_def)
    then have st: "st8 (put m d (take k t)) (d + k) 0 = Some (put m d (take k t @ [0]))"
      using k put_append[of m d "take k t" "[0]"] by (simp add: st8_Some put_Cons)
    have "cstr_at (put (put m d (take k t)) (d + k) [0]) (s + k) (drop k t)"
      using assms(3) Suc k cstr_put_prefix[OF assms(1) k dj] by (subst delim_at_put_disj) (auto simp: disj_def)
    then have "scan_bytes (put m d (take k t @ [0])) (\<lambda>c. c = 0) (s + k) = Some (s + length t)"
      using k put_append[of m d "take k t" "[0]"] scan_bytes_eq_delim by fastforce
    then show ?thesis using lp Suc False st by (simp add: strlcpy_def)
  qed
qed

section \<open>Concatenation\<close>

lemma cat_unaligned_cstr:
  "cstr_at m p s \<Longrightarrow>
   \<exists>k\<le>length s. cat_unaligned m p = Some (p + k) \<and> (k = length s \<or> (p + k) mod 8 = 0)"
proof (induction s arbitrary: p)
  case Nil
  then show ?case by (intro exI[of _ 0]) (subst cat_unaligned.simps; simp)
next
  case (Cons c s)
  show ?case
  proof (cases "p mod 8 = 0")
    case True
    then show ?thesis by (intro exI[of _ 0]) (subst cat_unaligned.simps; simp add: block_defs)
  next
    case False
    have "cat_unaligned m p = cat_unaligned m (Suc p)"
      using False Cons.prems by (subst cat_unaligned.simps) (simp add: block_defs)
    moreover have "\<exists>k\<le>length s. cat_unaligned m (Suc p) = Some (Suc p + k) \<and> (k = length s \<or> (Suc p + k) mod 8 = 0)"
      using Cons.prems by (intro Cons.IH) simp
    then obtain k where "k \<le> length s" "cat_unaligned m (Suc p) = Some (Suc p + k)"
      "k = length s \<or> (Suc p + k) mod 8 = 0" by auto
    ultimately show ?thesis by (intro exI[of _ "Suc k"]) auto
  qed
qed

lemma cat_end_cstr:
  assumes "cstr_at m p s" "word_mapped m"
  shows "cat_end m p = Some (p + length s)"
proof -
  obtain k where k: "k \<le> length s" "cat_unaligned m p = Some (p + k)" "k = length s \<or> (p + k) mod 8 = 0"
    using cat_unaligned_cstr[OF assms(1)] by auto
  show ?thesis
  proof (cases "k = length s")
    case True
    then show ?thesis using k delim_at_end[OF assms(1)] by (simp add: cat_end_def)
  next
    case False
    then have "m (p + k) = Some (s ! k)" "s ! k \<noteq> 0"
      using k delim_at_nth[OF assms(1) k(1)] delim_at_notin[OF assms(1)] nth_mem[of k s]
      by (auto simp: nth_append simp del: nth_mem)
    then show ?thesis
      using k False scan_null_end[OF delim_at_drop[OF assms(1) k(1)] _ assms(2), of Some]
      by (simp add: cat_end_def)
  qed
qed

lemma strcat_put:
  assumes "cstr_at m p s" "cstr_at m q t" "mapped m (p + length s) (Suc (length t))"
    "disj (p + length s) (Suc (length t)) q (Suc (length t))" "word_mapped m"
  shows "strcat m p q = Some (put m (p + length s) (t @ [0]), p)"
  using strcpy_put[OF assms(2-5)] cat_end_cstr[OF assms(1,5)] by (simp add: strcat_def)

lemma strcat_small_put:
  assumes "cstr_at m p s" "cstr_at m q t" "mapped m (p + length s) (Suc (length t))"
    "disj (p + length s) (Suc (length t)) q (Suc (length t))"
  shows "strcat_small m p q = Some (put m (p + length s) (t @ [0]), p)"
  using strcpy_bytes_put[OF assms(2-4)] scan_bytes_eq_delim[OF assms(1)] by (simp add: strcat_small_def)

lemma strncat_loop_put:
  "0 < n \<Longrightarrow> cstr_at m q t \<Longrightarrow> mapped m d (Suc (min n (length t))) \<Longrightarrow>
   disj d (Suc (min n (length t))) q (Suc (length t)) \<Longrightarrow>
   strncat_loop m d q n = Some (put m d (take n t @ [0]))"
proof (induction n arbitrary: m d q t)
  case (Suc n)
  show ?case
  proof (cases t)
    case Nil
    then show ?thesis using Suc.prems by (simp add: st8_Some put_Cons mapped_Suc fun_upd_def)
  next
    case (Cons c t')
    have c: "m q = Some c" "c \<noteq> 0" using Suc.prems(2) Cons by simp_all
    have md: "m d \<noteq> None" "mapped m (Suc d) (Suc (min n (length t')))"
      using Suc.prems(3) Cons by (simp_all add: mapped_Suc)
    show ?thesis
    proof (cases "n = 0")
      case True
      then have "(m(d \<mapsto> c)) (Suc d) \<noteq> None" using md by (simp add: mapped_Suc)
      then show ?thesis using True c md Cons by (simp add: st8_Some put_Cons fun_upd_def)
    next
      case False
      have "cstr_at (put m d (take 1 t)) (q + 1) (drop 1 t)"
        using Suc.prems Cons by (intro cstr_put_prefix) (auto simp: disj_def)
      then have "strncat_loop (put m d [c]) (Suc d) (Suc q) n = Some (put (put m d [c]) (Suc d) (take n t' @ [0]))"
        using Suc.prems Cons md False by (intro Suc.IH) (auto simp: disj_def mem_simps)
      then show ?thesis using c md Cons False by (simp add: st8_Some put_Cons)
    qed
  qed
qed simp

lemma strncat_put:
  assumes "cstr_at m p s" "cstr_at m q t" "mapped m (p + length s) (Suc (min n (length t)))"
    "disj (p + length s) (Suc (min n (length t))) q (Suc (length t))" "word_mapped m"
  shows "strncat m p q n = Some (put m (p + length s) (take n t @ [0]), p)"
proof (cases "n = 0")
  case True
  have "put m (p + length s) [0] = m"
    using delim_at_end[OF assms(1)] by (intro put_rd_same[of _ _ 1]) simp
  then show ?thesis using True cat_end_cstr[OF assms(1,5)] by (simp add: strncat_def)
next
  case False
  then show ?thesis
    using strncat_loop_put[OF _ assms(2-4)] cat_end_cstr[OF assms(1,5)] by (simp add: strncat_def)
qed

lemma strlcat_loop_put:
  "cstr_at m q t \<Longrightarrow> mapped m d n \<Longrightarrow> disj d n q (Suc (length t)) \<Longrightarrow>
   strlcat_loop m d q n = Some (put m d (take n t), d + min n (length t), q + length t)"
proof (induction t arbitrary: m d q n)
  case Nil
  then show ?case by (subst strlcat_loop.simps) simp
next
  case (Cons c t)
  then have c: "m q = Some c" "c \<noteq> 0" "cstr_at m (Suc q) t" by simp_all
  show ?case
  proof (cases n)
    case 0
    have "strlcat_loop m d (Suc q) 0 = Some (put m d (take 0 t), d + min 0 (length t), Suc q + length t)"
      using c Cons.prems(3) 0 by (intro Cons.IH) (auto simp: disj_def)
    then show ?thesis using 0 c by (subst strlcat_loop.simps) simp
  next
    case (Suc k)
    have md: "m d \<noteq> None" "mapped m (Suc d) k" using Cons.prems(2) Suc by (simp_all add: mapped_Suc)
    have "cstr_at (put m d (take 1 (c # t))) (q + 1) (drop 1 (c # t))"
      using Cons.prems Suc by (intro cstr_put_prefix) (auto simp: disj_def)
    then have "strlcat_loop (put m d [c]) (Suc d) (Suc q) k
        = Some (put (put m d [c]) (Suc d) (take k t), Suc d + min k (length t), Suc q + length t)"
      using Cons.prems md Suc by (intro Cons.IH) (auto simp: disj_def mem_simps)
    then show ?thesis using c md Suc by (subst strlcat_loop.simps) (simp add: st8_Some put_Cons)
  qed
qed

lemma strlcat_put:
  assumes "cstr_at m p s" "cstr_at m q t" "mapped m p n" "disj p n q (Suc (length t))" "word_mapped m"
  shows "strlcat m p q n =
    (if n \<le> length s then Some (m, n + length t)
     else Some (put m (p + length s) (take (n - length s - 1) t @ [0]), length s + length t))"
proof (cases "n \<le> length s")
  case True
  then show ?thesis using strnlen_loop_cstr[OF assms(1)] strlen_cstr[OF assms(2,5)]
    by (simp add: strlcat_def Let_def min_def)
next
  case False
  then obtain r where n: "n = length s + Suc r" by (metis add_Suc_right less_iff_Suc_add not_le)
  let ?d = "p + length s"
  have mp: "mapped m ?d r" "m (?d + r) \<noteq> None"
    using assms(3) n unfolding mapped_def by (auto simp: add.assoc)
  have "strlcat_loop m ?d q r = Some (put m ?d (take r t), ?d + min r (length t), q + length t)"
    using assms(2,4) mp n by (intro strlcat_loop_put) (auto simp: disj_def)
  moreover have "st8 (put m ?d (take r t)) (?d + min r (length t)) 0 = Some (put m ?d (take r t @ [0]))"
  proof -
    have "length s + min r (length t) < n" using n by simp
    then have "m (?d + min r (length t)) \<noteq> None" using assms(3) unfolding mapped_def add.assoc by blast
    then have "put m ?d (take r t) (?d + min r (length t)) \<noteq> None" by (auto simp: put_def)
    then show ?thesis using put_append[of m ?d "take r t" "[0]"]
      by (simp add: st8_Some put_Cons min.commute)
  qed
  ultimately show ?thesis using strnlen_loop_cstr[OF assms(1)] n
    by (simp add: strlcat_def Let_def del: strnlen_loop.simps)
qed

section \<open>Comparison\<close>

lemma strcmp_bytes_cstr:
  "cstr_at m p s \<Longrightarrow> cstr_at m q t \<Longrightarrow> strcmp_bytes m p q = Some (cmp_result (s @ [0]) (t @ [0]))"
proof (induction s arbitrary: p q t)
  case Nil
  then show ?case by (cases t; subst strcmp_bytes.simps; simp)
next
  case (Cons c s)
  then show ?case by (cases t; subst strcmp_bytes.simps; simp)
qed

lemma strcmp_words_cstr:
  "cstr_at m p s \<Longrightarrow> cstr_at m q t \<Longrightarrow> p mod 8 = 0 \<Longrightarrow> q mod 8 = 0 \<Longrightarrow> word_mapped m \<Longrightarrow>
   strcmp_words m p q = Some (Inl 0) \<and> s = t \<or>
   (\<exists>k. k \<le> length s \<and> k \<le> length t \<and> take k s = take k t \<and> strcmp_words m p q = Some (Inr (p + k, q + k)))"
proof (induction "length s" arbitrary: p q s t rule: less_induct)
  case less
  obtain xs where xs: "rd m p 8 = Some xs" "length xs = 8" "ld64 m p = Some (word_of_bytes xs)"
    "0 \<notin> set xs \<Longrightarrow> 8 \<le> length s \<and> xs = take 8 s \<and> cstr_at m (p + 8) (drop 8 s)"
    using delim_at_word[OF less.prems(1,3,5)] by metis
  obtain ys where ys: "rd m q 8 = Some ys" "length ys = 8" "ld64 m q = Some (word_of_bytes ys)"
    "0 \<notin> set ys \<Longrightarrow> 8 \<le> length t \<and> ys = take 8 t \<and> cstr_at m (q + 8) (drop 8 t)"
    using delim_at_word[OF less.prems(2,4,5)] by metis
  show ?case
  proof (cases "xs = ys")
    case False
    then have "strcmp_words m p q = Some (Inr (p, q))"
      using xs ys by (subst strcmp_words.simps) (simp add: word_of_bytes_inj)
    then show ?thesis by (intro disjI2 exI[of _ 0]) simp
  next
    case eq: True
    show ?thesis
    proof (cases "0 \<in> set xs")
      case True
      then have 1: "strcmp_words m p q = Some (Inl 0)"
        using xs ys eq by (subst strcmp_words.simps) (simp add: has_null_bytes)
      have "s = t"
      proof -
        have "cstr_at m q s"
        proof -
          have len: "length s < 8"
          proof (rule ccontr)
            assume "\<not> length s < 8"
            then have "xs = take 8 s" using rd_take[OF delim_at_rd_body[OF less.prems(1)], of 8] xs(1) by simp
            then show False using True delim_at_notin[OF less.prems(1)] by (metis in_set_takeD)
          qed
          then have "rd m p (Suc (length s)) = Some (take (Suc (length s)) xs)"
            using rd_take[OF xs(1), of "Suc (length s)"] by simp
          moreover have "rd m q (Suc (length s)) = Some (take (Suc (length s)) xs)"
            using rd_take[OF ys(1), of "Suc (length s)"] eq len by simp
          ultimately show ?thesis using less.prems(1) unfolding delim_at_def by simp
        qed
        then show ?thesis using less.prems(2) by (rule delim_at_unique)
      qed
      with 1 show ?thesis by simp
    next
      case False
      then have s: "8 \<le> length s" "xs = take 8 s" "cstr_at m (p + 8) (drop 8 s)"
        and t: "8 \<le> length t" "ys = take 8 t" "cstr_at m (q + 8) (drop 8 t)" using xs ys eq by auto
      have 1: "strcmp_words m p q = strcmp_words m (p + 8) (q + 8)"
        using False xs ys eq by (subst strcmp_words.simps) (simp add: DETECT_NULL_bytes)
      have "strcmp_words m (p + 8) (q + 8) = Some (Inl 0) \<and> drop 8 s = drop 8 t \<or>
        (\<exists>k. k \<le> length (drop 8 s) \<and> k \<le> length (drop 8 t) \<and> take k (drop 8 s) = take k (drop 8 t) \<and>
          strcmp_words m (p + 8) (q + 8) = Some (Inr (p + 8 + k, q + 8 + k)))"
        using s t less.prems by (intro less.hyps) auto
      then show ?thesis
      proof
        assume "strcmp_words m (p + 8) (q + 8) = Some (Inl 0) \<and> drop 8 s = drop 8 t"
        then show ?thesis using 1 s t eq append_take_drop_id[of 8 s] append_take_drop_id[of 8 t] by metis
      next
        assume "\<exists>k. k \<le> length (drop 8 s) \<and> k \<le> length (drop 8 t) \<and> take k (drop 8 s) = take k (drop 8 t) \<and>
          strcmp_words m (p + 8) (q + 8) = Some (Inr (p + 8 + k, q + 8 + k))"
        then obtain k where "k \<le> length (drop 8 s)" "k \<le> length (drop 8 t)" "take k (drop 8 s) = take k (drop 8 t)"
          "strcmp_words m (p + 8) (q + 8) = Some (Inr (p + 8 + k, q + 8 + k))" by auto
        then show ?thesis using 1 s t eq
          by (intro disjI2 exI[of _ "8 + k"]) (auto simp: take_add add.assoc)
      qed
    qed
  qed
qed

lemma cmp_result_drop:
  "k \<le> length s \<Longrightarrow> k \<le> length t \<Longrightarrow> take k s = take k t \<Longrightarrow>
   cmp_result (drop k s @ xs) (drop k t @ ys) = cmp_result (s @ xs) (t @ ys)"
  using cmp_result_prefix[of "take k s" "drop k s @ xs" "drop k t @ ys"]
  by (metis append.assoc append_take_drop_id)

lemma strcmp_cstr:
  assumes "cstr_at m p s" "cstr_at m q t" "word_mapped m"
  shows "strcmp m p q = Some (cmp_result (s @ [0]) (t @ [0]))"
proof (cases "UNALIGNED_X_Y p q")
  case True
  then show ?thesis using strcmp_bytes_cstr[OF assms(1,2)] by (simp add: strcmp_def)
next
  case False
  then have al: "p mod 8 = 0" "q mod 8 = 0" by (auto simp: block_defs)
  from strcmp_words_cstr[OF assms(1,2) al assms(3)] show ?thesis
  proof
    assume "strcmp_words m p q = Some (Inl 0) \<and> s = t"
    then show ?thesis using False by (simp add: strcmp_def cmp_result_eq_0)
  next
    assume "\<exists>k. k \<le> length s \<and> k \<le> length t \<and> take k s = take k t \<and> strcmp_words m p q = Some (Inr (p + k, q + k))"
    then obtain k where k: "k \<le> length s" "k \<le> length t" "take k s = take k t"
      "strcmp_words m p q = Some (Inr (p + k, q + k))" by auto
    have "strcmp_bytes m (p + k) (q + k) = Some (cmp_result (drop k s @ [0]) (drop k t @ [0]))"
      using k assms by (intro strcmp_bytes_cstr delim_at_drop)
    then show ?thesis using k False by (simp add: strcmp_def cmp_result_drop)
  qed
qed

lemma cstr_same_word:
  assumes "cstr_at m p s" "cstr_at m q t" "rd m p 8 = Some xs" "rd m q 8 = Some xs" "0 \<in> set xs"
  shows "s = t"
proof -
  have len: "length s < 8"
  proof (rule ccontr)
    assume "\<not> length s < 8"
    then have "xs = take 8 s" using rd_take[OF delim_at_rd_body[OF assms(1)], of 8] assms(3) by simp
    then show False using assms(5) delim_at_notin[OF assms(1)] by (metis in_set_takeD)
  qed
  have "rd m p (Suc (length s)) = rd m q (Suc (length s))"
    using rd_take[OF assms(3), of "Suc (length s)"] rd_take[OF assms(4), of "Suc (length s)"] len by simp
  then have "cstr_at m q s" using assms(1) unfolding delim_at_def by simp
  then show ?thesis using assms(2) by (rule delim_at_unique)
qed

subsection \<open>Bounded comparison\<close>

definition ncmp_result :: "nat \<Rightarrow> byte list \<Rightarrow> byte list \<Rightarrow> int" where
  "ncmp_result n s t = cmp_result (take n (s @ [0])) (take n (t @ [0]))"

lemma ncmp_result_refl [simp]: "ncmp_result n s s = 0"
  by (simp add: ncmp_result_def cmp_result_eq_0)

lemma ncmp_result_skip:
  assumes "k \<le> n" "k \<le> length s" "k \<le> length t" "take k s = take k t"
  shows "ncmp_result (n - k) (drop k s) (drop k t) = ncmp_result n s t"
proof -
  have "take n (u @ [0]) = take k u @ take (n - k) (drop k u @ [0])" if "k \<le> length u" for u :: "byte list"
    using that assms(1) take_add[of k "n - k" "u @ [0]"] by simp
  then show ?thesis using assms cmp_result_prefix[of "take k s"] by (simp add: ncmp_result_def)
qed

lemma strncmp_bytes_cstr:
  "0 < n \<Longrightarrow> cstr_at m p s \<Longrightarrow> cstr_at m q t \<Longrightarrow> strncmp_bytes m p q n = Some (ncmp_result n s t)"
proof (induction n arbitrary: p q s t)
  case (Suc n)
  show ?case
  proof (cases s)
    case Nil
    with Suc.prems show ?thesis by (cases t) (auto simp: ncmp_result_def)
  next
    case (Cons a s')
    with Suc show ?thesis by (cases t; cases "n = 0") (auto simp: ncmp_result_def)
  qed
qed simp

lemma strncmp_small_loop_cstr:
  "0 < n \<Longrightarrow> cstr_at m p s \<Longrightarrow> cstr_at m q t \<Longrightarrow> strncmp_small_loop m p q n = Some (ncmp_result n s t)"
proof (induction n arbitrary: p q s t)
  case (Suc n)
  show ?case
  proof (cases s)
    case Nil
    with Suc.prems show ?thesis by (cases t) (auto simp: ncmp_result_def)
  next
    case (Cons a s')
    with Suc show ?thesis by (cases t; cases "n = 0") (auto simp: ncmp_result_def)
  qed
qed simp

lemma strncmp_words_cstr:
  "0 < n \<Longrightarrow> cstr_at m p s \<Longrightarrow> cstr_at m q t \<Longrightarrow> p mod 8 = 0 \<Longrightarrow> q mod 8 = 0 \<Longrightarrow> word_mapped m \<Longrightarrow>
   strncmp_words m p q n = Some (Inl 0) \<and> ncmp_result n s t = 0 \<or>
   (\<exists>k<n. k \<le> length s \<and> k \<le> length t \<and> take k s = take k t \<and>
      strncmp_words m p q n = Some (Inr (p + k, q + k, n - k)))"
proof (induction n arbitrary: p q s t rule: less_induct)
  case (less n)
  show ?case
  proof (cases "n < 8")
    case True
    then show ?thesis using less.prems(1) by (intro disjI2 exI[of _ 0]) (subst strncmp_words.simps; simp)
  next
    case n8: False
    obtain xs where xs: "rd m p 8 = Some xs" "length xs = 8" "ld64 m p = Some (word_of_bytes xs)"
      "0 \<notin> set xs \<Longrightarrow> 8 \<le> length s \<and> xs = take 8 s \<and> cstr_at m (p + 8) (drop 8 s)"
      using delim_at_word[OF less.prems(2,4,6)] by metis
    obtain ys where ys: "rd m q 8 = Some ys" "length ys = 8" "ld64 m q = Some (word_of_bytes ys)"
      "0 \<notin> set ys \<Longrightarrow> 8 \<le> length t \<and> ys = take 8 t \<and> cstr_at m (q + 8) (drop 8 t)"
      using delim_at_word[OF less.prems(3,5,6)] by metis
    show ?thesis
    proof (cases "xs = ys")
      case False
      then have "strncmp_words m p q n = Some (Inr (p, q, n))"
        using xs ys n8 by (subst strncmp_words.simps) (simp add: word_of_bytes_inj)
      then show ?thesis using less.prems(1) by (intro disjI2 exI[of _ 0]) simp
    next
      case eq: True
      show ?thesis
      proof (cases "0 \<in> set xs")
        case True
        then have "s = t" using cstr_same_word[OF less.prems(2,3) xs(1)] ys(1) eq by simp
        moreover have "strncmp_words m p q n = Some (Inl 0)"
          using True xs ys eq n8 by (subst strncmp_words.simps) (simp add: has_null_bytes Let_def)
        ultimately show ?thesis by simp
      next
        case nonull: False
        then have s: "8 \<le> length s" "xs = take 8 s" "cstr_at m (p + 8) (drop 8 s)"
          and t: "8 \<le> length t" "ys = take 8 t" "cstr_at m (q + 8) (drop 8 t)" using xs ys eq by auto
        have skip: "ncmp_result (n - 8) (drop 8 s) (drop 8 t) = ncmp_result n s t"
          using n8 s t eq by (intro ncmp_result_skip) auto
        show ?thesis
        proof (cases "n = 8")
          case True
          have "strncmp_words m p q n = Some (Inl 0)"
            using True xs ys eq by (subst strncmp_words.simps) (simp add: Let_def)
          with skip True show ?thesis by (simp add: ncmp_result_def)
        next
          case False
          have 1: "strncmp_words m p q n = strncmp_words m (p + 8) (q + 8) (n - 8)"
            using nonull False n8 xs ys eq
            by (subst strncmp_words.simps) (simp add: DETECT_NULL_bytes Let_def)
          have "strncmp_words m (p + 8) (q + 8) (n - 8) = Some (Inl 0) \<and> ncmp_result (n - 8) (drop 8 s) (drop 8 t) = 0 \<or>
            (\<exists>k<n - 8. k \<le> length (drop 8 s) \<and> k \<le> length (drop 8 t) \<and> take k (drop 8 s) = take k (drop 8 t) \<and>
              strncmp_words m (p + 8) (q + 8) (n - 8) = Some (Inr (p + 8 + k, q + 8 + k, n - 8 - k)))"
            using s t less.prems n8 False by (intro less.IH) auto
          then show ?thesis
          proof
            assume "strncmp_words m (p + 8) (q + 8) (n - 8) = Some (Inl 0) \<and> ncmp_result (n - 8) (drop 8 s) (drop 8 t) = 0"
            then show ?thesis using 1 skip by simp
          next
            assume "\<exists>k<n - 8. k \<le> length (drop 8 s) \<and> k \<le> length (drop 8 t) \<and> take k (drop 8 s) = take k (drop 8 t) \<and>
              strncmp_words m (p + 8) (q + 8) (n - 8) = Some (Inr (p + 8 + k, q + 8 + k, n - 8 - k))"
            then obtain k where "k < n - 8" "k \<le> length (drop 8 s)" "k \<le> length (drop 8 t)" "take k (drop 8 s) = take k (drop 8 t)"
              "strncmp_words m (p + 8) (q + 8) (n - 8) = Some (Inr (p + 8 + k, q + 8 + k, n - 8 - k))" by auto
            then show ?thesis using 1 s t eq n8
              by (intro disjI2 exI[of _ "8 + k"]) (auto simp: take_add add.assoc)
          qed
        qed
      qed
    qed
  qed
qed

lemma strncmp_cstr:
  assumes "cstr_at m p s" "cstr_at m q t" "word_mapped m"
  shows "strncmp m p q n = Some (ncmp_result n s t)"
proof (cases "n = 0")
  case True
  then show ?thesis by (simp add: strncmp_def ncmp_result_def)
next
  case n0: False
  show ?thesis
  proof (cases "UNALIGNED_X_Y p q")
    case True
    then show ?thesis using n0 strncmp_bytes_cstr[OF _ assms(1,2)] by (simp add: strncmp_def)
  next
    case False
    then have al: "p mod 8 = 0" "q mod 8 = 0" by (auto simp: block_defs)
    from n0 have n: "0 < n" by simp
    from strncmp_words_cstr[OF n assms(1,2) al assms(3)] show ?thesis
    proof
      assume "strncmp_words m p q n = Some (Inl 0) \<and> ncmp_result n s t = 0"
      then show ?thesis using False n0 by (simp add: strncmp_def)
    next
      assume "\<exists>k<n. k \<le> length s \<and> k \<le> length t \<and> take k s = take k t \<and>
        strncmp_words m p q n = Some (Inr (p + k, q + k, n - k))"
      then obtain k where k: "k < n" "k \<le> length s" "k \<le> length t" "take k s = take k t"
        "strncmp_words m p q n = Some (Inr (p + k, q + k, n - k))" by auto
      have "strncmp_bytes m (p + k) (q + k) (n - k) = Some (ncmp_result (n - k) (drop k s) (drop k t))"
        using k assms by (intro strncmp_bytes_cstr delim_at_drop) auto
      then show ?thesis using k False n0 by (simp add: strncmp_def ncmp_result_skip)
    qed
  qed
qed

lemma strncmp_small_cstr:
  "cstr_at m p s \<Longrightarrow> cstr_at m q t \<Longrightarrow> strncmp_small m p q n = Some (ncmp_result n s t)"
  by (cases "n = 0") (simp_all add: strncmp_small_def strncmp_small_loop_cstr, simp add: ncmp_result_def)

section \<open>Search\<close>

lemma strchr_mask_repeats: "repeats c 64 (strchr_mask c)"
proof -
  have 1: "repeats c 16 (push_bit 8 (ucast c) OR ucast c)" (is "repeats c 16 ?m1")
    using repeats_double[OF repeats_ucast[of c]] by simp
  have 2: "repeats c 32 (push_bit 16 ?m1 OR ?m1)" using repeats_double[OF 1] by simp
  show ?thesis using repeats_double[OF 2] by (simp add: strchr_mask_def)
qed

lemma chr_result_snoc0: "c \<noteq> 0 \<Longrightarrow> chr_result p c (s @ [0]) = chr_result p c s"
  by (auto simp: chr_result_def takeWhile_append1)

lemma chr_result_null:
  assumes "cstr_at m p s"
  shows "chr_result p 0 (s @ [0]) = p + length s"
proof -
  have "takeWhile (\<lambda>b. b \<noteq> 0) (s @ [0]) = s @ takeWhile (\<lambda>b. b \<noteq> 0) [0 :: byte]"
    using delim_at_notin[OF assms] by (intro takeWhile_append2) auto
  then show ?thesis by (simp add: chr_result_def)
qed

lemma strchr_unaligned_cstr:
  "cstr_at m p s \<Longrightarrow> c \<noteq> 0 \<Longrightarrow>
   strchr_unaligned m c p = Some (Inl (chr_result p c s)) \<or>
   (\<exists>k\<le>length s. strchr_unaligned m c p = Some (Inr (p + k)) \<and> (p + k) mod 8 = 0 \<and> c \<notin> set (take k s))"
proof (induction s arbitrary: p)
  case Nil
  then show ?case by (subst (1 2) strchr_unaligned.simps) (simp add: block_defs chr_result_def)
next
  case (Cons b s)
  show ?case
  proof (cases "p mod 8 = 0")
    case True
    then show ?thesis by (intro disjI2 exI[of _ 0]) (subst strchr_unaligned.simps; simp add: block_defs)
  next
    case p: False
    show ?thesis
    proof (cases "b = c")
      case True
      then show ?thesis using p Cons.prems
        by (intro disjI1) (subst strchr_unaligned.simps; simp add: block_defs chr_result_Cons)
    next
      case False
      then have eq: "strchr_unaligned m c p = strchr_unaligned m c (Suc p)"
        using p Cons.prems by (subst strchr_unaligned.simps) (simp add: block_defs)
      from Cons.prems have "cstr_at m (Suc p) s" by simp
      from Cons.IH[OF this Cons.prems(2)] show ?thesis
      proof
        assume "strchr_unaligned m c (Suc p) = Some (Inl (chr_result (Suc p) c s))"
        then show ?thesis using eq False by (simp add: chr_result_Cons)
      next
        assume "\<exists>k\<le>length s. strchr_unaligned m c (Suc p) = Some (Inr (Suc p + k)) \<and>
          (Suc p + k) mod 8 = 0 \<and> c \<notin> set (take k s)"
        then obtain k where "k \<le> length s" "strchr_unaligned m c (Suc p) = Some (Inr (Suc p + k))"
          "(Suc p + k) mod 8 = 0" "c \<notin> set (take k s)" by auto
        then show ?thesis using eq False by (intro disjI2 exI[of _ "Suc k"]) auto
      qed
    qed
  qed
qed

text \<open>The byte loop of \<open>strchr\<close> and the test after it.\<close>

lemma strchr_bytes_cstr:
  assumes "cstr_at m p s" "c \<noteq> 0"
  shows "do { a \<leftarrow> scan_bytes m (\<lambda>b. b = 0 \<or> b = c) p; b \<leftarrow> ld8 m a; if b = c then Some a else Some NULL }
       = Some (chr_result p c s)"
proof -
  have z: "0 \<notin> set s" using assms(1) by (rule delim_at_notin)
  have tw: "takeWhile (\<lambda>b. \<not> (b = 0 \<or> b = c)) s = takeWhile (\<lambda>b. b \<noteq> c) s"
    using z by (intro takeWhile_cong) auto
  have sc: "scan_bytes m (\<lambda>b. b = 0 \<or> b = c) p = Some (p + length (takeWhile (\<lambda>b. b \<noteq> c) s))"
    using scan_bytes_delim[OF assms(1), of "\<lambda>b. b = 0 \<or> b = c"] tw by simp
  let ?k = "length (takeWhile (\<lambda>b. b \<noteq> c) s)"
  have "m (p + ?k) = Some ((s @ [0]) ! ?k)" by (rule delim_at_nth[OF assms(1) length_takeWhile_le])
  moreover have "(s @ [0]) ! ?k = (if c \<in> set s then c else 0)"
  proof (cases "c \<in> set s")
    case True
    then have "takeWhile (\<lambda>b. b \<noteq> c) s \<noteq> s" by (auto simp: takeWhile_eq_all_conv)
    then have "?k < length s" by (metis le_neq_implies_less length_takeWhile_le takeWhile_eq_take take_all_iff order_refl)
    then show ?thesis using True nth_length_takeWhile[of "\<lambda>b. b \<noteq> c" s] by (simp add: nth_append)
  next
    case False
    then have "takeWhile (\<lambda>b. b \<noteq> c) s = s" by (auto simp: takeWhile_eq_all_conv)
    then have "?k = length s" by (rule arg_cong)
    then show ?thesis using False by (simp add: nth_append)
  qed
  ultimately show ?thesis using sc assms(2) by (simp add: chr_result_def)
qed

lemma strchr_small_cstr:
  assumes "cstr_at m p s"
  shows "strchr_small m p i = Some (chr_result p (word_of_int i) (s @ [0]))"
proof (cases "(word_of_int i :: byte) = 0")
  case True
  then show ?thesis using scan_bytes_eq_delim[OF assms] delim_at_end[OF assms] chr_result_null[OF assms]
    by (simp add: strchr_small_def Let_def)
next
  case False
  then show ?thesis using strchr_bytes_cstr[OF assms False]
    by (simp add: strchr_small_def Let_def chr_result_snoc0)
qed

lemma strchr_cstr:
  assumes "cstr_at m p s" "word_mapped m"
  shows "strchr m p i = Some (chr_result p (word_of_int i) (s @ [0]))"
proof (cases "(word_of_int i :: byte) = 0")
  case True
  have res: "chr_result p 0 (s @ [0]) = p + length s"
    using chr_result_null[OF assms(1)] .
  from scan_unaligned_delim[OF assms(1)] show ?thesis
  proof
    assume "scan_unaligned m 0 p = Some (Inl (p + length s))"
    then show ?thesis using True res by (simp add: strchr_def Let_def)
  next
    assume "\<exists>k\<le>length s. scan_unaligned m 0 p = Some (Inr (p + k)) \<and> (p + k) mod 8 = 0"
    then obtain k where k: "k \<le> length s" "scan_unaligned m 0 p = Some (Inr (p + k))" "(p + k) mod 8 = 0" by auto
    then show ?thesis using True res
        scan_null_end[OF delim_at_drop[OF assms(1) k(1)] k(3) assms(2), of Some]
      by (simp add: strchr_def Let_def)
  qed
next
  case False
  let ?c = "word_of_int i :: byte"
  from strchr_unaligned_cstr[OF assms(1) False] show ?thesis
  proof
    assume "strchr_unaligned m ?c p = Some (Inl (chr_result p ?c s))"
    then show ?thesis using False by (simp add: strchr_def Let_def chr_result_snoc0)
  next
    assume "\<exists>k\<le>length s. strchr_unaligned m ?c p = Some (Inr (p + k)) \<and> (p + k) mod 8 = 0 \<and> ?c \<notin> set (take k s)"
    then obtain k where k: "k \<le> length s" "strchr_unaligned m ?c p = Some (Inr (p + k))" "(p + k) mod 8 = 0"
      "?c \<notin> set (take k s)" by auto
    let ?stop = "\<lambda>w. has_null w \<or> DETECT_CHAR w (strchr_mask ?c) \<noteq> 0"
    have "?stop (word_of_bytes bs) \<longleftrightarrow> (\<exists>b\<in>set bs. b \<in> {0, ?c})" if "length bs = 8" for bs
      using DETECT_CHAR_bytes[OF that strchr_mask_repeats] DETECT_NULL_bytes[OF that] by auto
    from scan_words_delim[OF this _ delim_at_drop[OF assms(1) k(1)] k(3) assms(2)]
    obtain j where j: "j \<le> length (drop k s)" "scan_words m ?stop (p + k) = Some (p + k + j)"
      "set (take j (drop k s)) \<inter> {0, ?c} = {}" by auto
    have "?c \<notin> set (take (k + j) s)" using k(4) j(3) by (auto simp: take_add)
    then have "chr_result p ?c s = chr_result (p + k + j) ?c (drop j (drop k s))"
      using chr_result_skip[of ?c "k + j" s p] j k by (simp add: ac_simps)
    then show ?thesis
      using k j False strchr_bytes_cstr[OF delim_at_drop[OF delim_at_drop[OF assms(1) k(1)] j(1)] False]
      by (simp add: strchr_def Let_def chr_result_snoc0)
  qed
qed


lemma index_cstr:
  "cstr_at m p s \<Longrightarrow> word_mapped m \<Longrightarrow> index m p i = Some (chr_result p (word_of_int i) (s @ [0]))"
  by (simp add: index_def strchr_cstr)

lemma strchrnul_cstr:
  assumes "cstr_at m p s" "word_mapped m" "p \<noteq> NULL"
  shows "strchrnul m p i = Some (p + length (takeWhile (\<lambda>b. b \<noteq> word_of_int i) s))"
proof -
  let ?c = "word_of_int i :: byte"
  have nn: "length (takeWhile (\<lambda>b. b \<noteq> ?c) s) = length s" if "?c \<notin> set s"
    using that by (intro arg_cong[of _ _ length]) (auto simp: takeWhile_eq_all_conv)
  have 0: "chr_result p ?c (s @ [0]) = (if ?c \<in> set (s @ [0]) then p + length (takeWhile (\<lambda>b. b \<noteq> ?c) s) else NULL)"
  proof (cases "?c = 0")
    case True
    then show ?thesis using chr_result_null[OF assms(1)] nn delim_at_notin[OF assms(1)] by simp
  next
    case False
    then show ?thesis by (simp add: chr_result_snoc0) (simp add: chr_result_def)
  qed
  show ?thesis using strchr_cstr[OF assms(1,2), of i] strlen_cstr[OF assms(1,2)] assms(3) nn 0
    by (auto simp: strchrnul_def)
qed

text \<open>The last occurrence of a byte, as the position after the longest tail free of it.\<close>

definition rchr_result :: "addr \<Rightarrow> byte \<Rightarrow> byte list \<Rightarrow> addr" where
  "rchr_result p c s = (if c \<in> set s then p + (length s - 1 - length (takeWhile (\<lambda>b. b \<noteq> c) (rev s))) else NULL)"

lemma rchr_result_absent: "c \<notin> set s \<Longrightarrow> rchr_result p c s = NULL"
  by (simp add: rchr_result_def)

lemma rchr_result_split:
  assumes "c \<notin> set u"
  shows "rchr_result p c (t @ c # u) = p + length t"
proof -
  have "takeWhile (\<lambda>b. b \<noteq> c) (rev u @ c # rev t) = rev u"
    using assms by (subst takeWhile_append2) auto
  then show ?thesis by (simp add: rchr_result_def)
qed

lemma rchr_result_Cons: "rchr_result p c (b # s) =
  (if c \<in> set s then rchr_result (Suc p) c s else if b = c then p else NULL)"
proof (cases "c \<in> set s")
  case True
  then obtain t u where "s = t @ c # u" "c \<notin> set u" by (meson split_list_last)
  then show ?thesis using rchr_result_split[of c u p "b # t"] rchr_result_split[of c u "Suc p" t] by simp
next
  case False
  then show ?thesis using rchr_result_split[of c s p "[]"] by (simp add: rchr_result_absent)
qed

lemma strrchr_loop_cstr:
  assumes "word_mapped m" "(word_of_int i :: byte) \<noteq> 0"
  shows "cstr_at m p s \<Longrightarrow> p \<noteq> NULL \<Longrightarrow>
    strrchr_loop m i p lst = Some (if word_of_int i \<in> set s then rchr_result p (word_of_int i) s else lst)"
proof (induction "length s" arbitrary: p s lst rule: less_induct)
  case less
  let ?c = "word_of_int i :: byte"
  have sc: "strchr m p i = Some (chr_result p ?c s)"
    using strchr_cstr[OF less.prems(1) assms(1)] assms(2) by (simp add: chr_result_snoc0)
  show ?case
  proof (cases "?c \<in> set s")
    case False
    then show ?thesis using sc by (subst strrchr_loop.simps) (simp add: chr_result_def)
  next
    case True
    then obtain t u where s: "s = t @ ?c # u" "?c \<notin> set t" by (meson split_list_first)
    have tw: "takeWhile (\<lambda>b. b \<noteq> ?c) s = t" using s by (subst s(1), subst takeWhile_append2) auto
    have u: "cstr_at m (Suc (p + length t)) u"
      using delim_at_drop[OF less.prems(1), of "Suc (length t)"] s(1) by simp
    have "strrchr_loop m i p lst = strrchr_loop m i (Suc (p + length t)) (p + length t)"
      using sc True tw less.prems(2) by (subst strrchr_loop.simps) (simp add: chr_result_def)
    also have "\<dots> = Some (if ?c \<in> set u then rchr_result (Suc (p + length t)) ?c u else p + length t)"
      using u s by (intro less.hyps) auto
    also have "\<dots> = Some (rchr_result p ?c s)"
    proof (cases "?c \<in> set u")
      case True
      then obtain v w where "u = v @ ?c # w" "?c \<notin> set w" by (meson split_list_last)
      then show ?thesis
        using rchr_result_split[of ?c w p "t @ ?c # v"] rchr_result_split[of ?c w "Suc (p + length t)" v] s(1) by simp
    next
      case False
      then show ?thesis using rchr_result_split[of ?c u p t] s(1) by simp
    qed
    finally show ?thesis using True by simp
  qed
qed

lemma rchr_result_null:
  assumes "cstr_at m p s"
  shows "rchr_result p 0 (s @ [0]) = p + length s"
  using rchr_result_split[of 0 "[]" p s] by simp

lemma rchr_result_snoc0: "c \<noteq> 0 \<Longrightarrow> rchr_result p c (s @ [0]) = rchr_result p c s"
proof (cases "c \<in> set s")
  case True
  assume "c \<noteq> 0"
  obtain t u where "s = t @ c # u" "c \<notin> set u" using True by (meson split_list_last)
  then show ?thesis using \<open>c \<noteq> 0\<close> rchr_result_split[of c "u @ [0]" p t] rchr_result_split[of c u p t] by simp
qed (simp add: rchr_result_absent)

lemma strrchr_cstr:
  assumes "cstr_at m p s" "word_mapped m" "p \<noteq> NULL"
  shows "strrchr m p i = Some (rchr_result p (word_of_int i) (s @ [0]))"
proof (cases "(word_of_int i :: byte) = 0")
  case True
  then show ?thesis using strchr_cstr[OF assms(1,2), of i] chr_result_null[OF assms(1)] rchr_result_null[OF assms(1)]
    by (simp add: strrchr_def)
next
  case False
  then show ?thesis using strrchr_loop_cstr[OF assms(2) False assms(1,3), of NULL]
    by (simp add: strrchr_def rchr_result_snoc0 rchr_result_absent)
qed

lemma rindex_cstr:
  "cstr_at m p s \<Longrightarrow> word_mapped m \<Longrightarrow> p \<noteq> NULL \<Longrightarrow> rindex m p i = Some (rchr_result p (word_of_int i) (s @ [0]))"
  by (simp add: rindex_def strrchr_cstr)

lemma gnu_basename_cstr:
  assumes "cstr_at m p (dir @ 0x2F # base)" "0x2F \<notin> set base" "word_mapped m" "p \<noteq> NULL"
  shows "gnu_basename m p = Some (p + length dir + 1)" "cstr_at m (p + length dir + 1) base"
  using strrchr_cstr[OF assms(1,3,4), of "0x2F"] rchr_result_split[of "0x2F" "base @ [0]" p dir] assms(2,4)
    delim_at_drop[OF assms(1), of "length dir + 1"]
  by (simp_all add: gnu_basename_def)

lemma gnu_basename_plain:
  assumes "cstr_at m p s" "0x2F \<notin> set s" "word_mapped m" "p \<noteq> NULL"
  shows "gnu_basename m p = Some p"
  using strrchr_cstr[OF assms(1,3,4), of "0x2F"] assms(2)
  by (simp add: gnu_basename_def rchr_result_absent)

subsection \<open>Spans\<close>

lemma in_set_cstr:
  assumes "cstr_at m q t"
  shows "in_set m ch q = Some (ch \<in> set t)"
proof (cases "ch = 0")
  case True
  then show ?thesis using scan_bytes_eq_delim[OF assms] delim_at_end[OF assms] delim_at_notin[OF assms]
    by (simp add: in_set_def)
next
  case False
  let ?st = "\<lambda>b. b = 0 \<or> b = ch"
  let ?k = "length (takeWhile (\<lambda>b. \<not> ?st b) t)"
  have "scan_bytes m ?st q = Some (q + ?k)" using scan_bytes_delim[OF assms, of ?st] by simp
  moreover have "m (q + ?k) = Some ((t @ [0]) ! ?k)" by (rule delim_at_nth[OF assms length_takeWhile_le])
  moreover have "(t @ [0]) ! ?k \<noteq> 0 \<longleftrightarrow> ch \<in> set t"
  proof (cases "ch \<in> set t")
    case True
    then obtain u v where t: "t = u @ ch # v" "ch \<notin> set u" by (meson split_list_first)
    have "takeWhile (\<lambda>b. \<not> ?st b) t = u"
      using t delim_at_notin[OF assms] by (subst t(1), subst takeWhile_append2) auto
    then have "?k = length u" by (rule arg_cong)
    then show ?thesis using t False by (simp add: nth_append)
  next
    case out: False
    have "takeWhile (\<lambda>b. \<not> ?st b) t = t" using out delim_at_notin[OF assms] by (auto simp: takeWhile_eq_all_conv)
    then have "?k = length t" by (rule arg_cong)
    then show ?thesis using out by (simp add: nth_append)
  qed
  ultimately show ?thesis by (simp add: in_set_def)
qed

lemma span_loop_cstr:
  assumes "cstr_at m q t"
  shows "cstr_at m p s \<Longrightarrow>
    span_loop m accept p q = Some (p + length (takeWhile (\<lambda>b. (b \<in> set t) = accept) s))"
proof (induction s arbitrary: p)
  case Nil
  then show ?case by (subst span_loop.simps) simp
next
  case (Cons b s)
  then show ?case by (subst span_loop.simps) (simp add: in_set_cstr[OF assms])
qed

lemma strspn_cstr:
  "cstr_at m p s \<Longrightarrow> cstr_at m q t \<Longrightarrow> strspn m p q = Some (length (takeWhile (\<lambda>b. b \<in> set t) s))"
  using span_loop_cstr[of m q t p s True] by (simp add: strspn_def)

lemma strcspn_cstr:
  "cstr_at m p s \<Longrightarrow> cstr_at m q t \<Longrightarrow> strcspn m p q = Some (length (takeWhile (\<lambda>b. b \<notin> set t) s))"
  using span_loop_cstr[of m q t p s False] by (simp add: strcspn_def)

lemma strpbrk_cstr:
  assumes "cstr_at m p s" "cstr_at m q t"
  shows "strpbrk m p q = Some (if set s \<inter> set t = {} then NULL else p + length (takeWhile (\<lambda>b. b \<notin> set t) s))"
proof (cases "set s \<inter> set t = {}")
  case True
  then have "takeWhile (\<lambda>b. b \<notin> set t) s = s" by (auto simp: takeWhile_eq_all_conv)
  then have "length (takeWhile (\<lambda>b. b \<notin> set t) s) = length s" by (rule arg_cong)
  then show ?thesis using True span_loop_cstr[OF assms(2,1), of False] delim_at_end[OF assms(1)]
    by (simp add: strpbrk_def)
next
  case False
  then obtain u c v where s: "s = u @ c # v" "c \<in> set t" "\<forall>x\<in>set u. x \<notin> set t"
    using split_list_first_prop[of s "\<lambda>b. b \<in> set t"] by auto
  have "takeWhile (\<lambda>b. b \<notin> set t) s = u" using s by (subst s(1), subst takeWhile_append2) auto
  moreover have "m (p + length u) = Some c" "c \<noteq> 0"
    using delim_at_nth[OF assms(1), of "length u"] delim_at_notin[OF assms(1)] s(1) by (auto simp: nth_append)
  ultimately show ?thesis using False span_loop_cstr[OF assms(2,1), of False] by (simp add: strpbrk_def)
qed

lemma uint_pos: "a \<noteq> (0 :: byte) \<Longrightarrow> 0 < uint a"
  using word_less_def[of 0 a] by (simp add: word_gt_0)

lemma cmp_result_cstr_less:
  "0 \<notin> set s \<Longrightarrow> 0 \<notin> set t \<Longrightarrow> cmp_result (s @ [0]) (t @ [0]) < 0 \<longleftrightarrow> (s, t) \<in> lexord {(a, b). a < b}"
proof (induction s arbitrary: t)
  case Nil
  then show ?case by (cases t) (auto simp: uint_pos)
next
  case (Cons a s)
  then show ?case by (cases t) (auto simp: word_less_def)
qed

lemma cmp_result_cstr_eq:
  "0 \<notin> set s \<Longrightarrow> 0 \<notin> set t \<Longrightarrow> cmp_result (s @ [0]) (t @ [0]) = 0 \<longleftrightarrow> s = t"
proof (induction s arbitrary: t)
  case Nil
  then show ?case by (cases t) (auto simp: unsigned_eq_0_iff)
next
  case (Cons a s)
  have u: "uint x = uint y \<longleftrightarrow> x = y" for x y :: byte by (simp add: word_uint_eq_iff)
  from Cons show ?case by (cases t) (auto simp: u unsigned_eq_0_iff)
qed

lemma ncmp_result_eq_0:
  "0 \<notin> set s \<Longrightarrow> 0 \<notin> set t \<Longrightarrow> ncmp_result n s t = 0 \<longleftrightarrow> take n s = take n t"
proof (induction n arbitrary: s t)
  case (Suc n)
  have u: "uint a = uint b \<longleftrightarrow> a = b" for a b :: byte by (simp add: word_uint_eq_iff)
  from Suc show ?case by (cases s; cases t) (auto simp: ncmp_result_def u unsigned_eq_0_iff)
qed (simp add: ncmp_result_def)

lemma rchr_result_last:
  assumes "c \<in> set s"
  shows "\<exists>i<length s. rchr_result p c s = p + i \<and> s ! i = c \<and> (\<forall>j. i < j \<and> j < length s \<longrightarrow> s ! j \<noteq> c)"
proof -
  obtain t u where s: "s = t @ c # u" "c \<notin> set u" using assms by (meson split_list_last)
  have "s ! j \<noteq> c" if j: "length t < j" "j < length s" for j
  proof -
    have "s ! j = u ! (j - Suc (length t))" using s(1) j by (simp add: nth_append nth_Cons')
    also have "\<dots> \<in> set u" using s(1) j by (intro nth_mem) auto
    finally show ?thesis using s(2) by auto
  qed
  then show ?thesis using s rchr_result_split[OF s(2), of p t] by (intro exI[of _ "length t"]) auto
qed

section \<open>Properties\<close>

text \<open>
  C16: \<open>strlen\<close>, whose word loop reads whole aligned words past the end of the string,
  returns the number of bytes before the terminator whenever memory is mapped in aligned words; the small body agrees
  with it, and \<open>strnlen\<close> returns the minimum of that number and its bound.
\<close>

theorem strlen_counts:
  assumes "cstr_at m p s" "word_mapped m"
  shows "strlen m p = Some (length s) \<and> strlen_small m p = strlen m p \<and>
    strnlen m p n = Some (min n (length s))"
  using assms by (simp add: strlen_cstr strlen_small_cstr strnlen_cstr)

theorem strlen_counts_witness:
  "strlen (mem_image 64 [0x68, 0x65, 0x6c, 0x6c, 0x6f, 0x68, 0x65, 0x6c, 0x6c, 0x6f, 0, 0, 0, 0, 0, 0]) 65 = Some 9"
proof -
  let ?m = "mem_image 64 [0x68, 0x65, 0x6c, 0x6c, 0x6f, 0x68, 0x65, 0x6c, 0x6c, 0x6f, 0, 0, 0, 0, 0, 0]"
  have "cstr_at ?m 65 [0x65, 0x6c, 0x6c, 0x6f, 0x68, 0x65, 0x6c, 0x6c, 0x6f]" by code_simp
  moreover have "word_mapped ?m" by (rule word_mapped_mem_image) code_simp+
  ultimately have "strlen ?m 65 = Some (length [0x65, 0x6c, 0x6c, 0x6f, 0x68, 0x65, 0x6c, 0x6c, 0x6f :: byte])"
    using strlen_counts by blast
  then show ?thesis by simp
qed

text \<open>
  C17: \<open>strcpy\<close> and \<open>stpcpy\<close> leave the source string at the destination, return the
  destination and the address of its terminator, and change no byte outside the destination; a following
  \<open>strlen\<close> of the copy gives the length of the source.
\<close>

theorem strcpy_copies:
  assumes "cstr_at m s t" "mapped m d (Suc (length t))" "disj d (Suc (length t)) s (Suc (length t))" "word_mapped m"
  shows "\<exists>m'. strcpy m d s = Some (m', d) \<and> strcpy_small m d s = Some (m', d) \<and>
    stpcpy m d s = Some (m', d + length t) \<and> cstr_at m' d t \<and> cstr_at m' s t \<and> strlen m' d = Some (length t) \<and>
    (\<forall>a. a < d \<or> d + length t < a \<longrightarrow> m' a = m a)"
proof -
  let ?m = "put m d (t @ [0])"
  have c: "cstr_at ?m d t" using delim_at_notin[OF assms(1)] by (rule delim_at_put_same)
  have "word_mapped ?m" using assms(2,4) by (intro word_mapped_put) simp_all
  then have "strlen ?m d = Some (length t)" using c by (intro strlen_cstr)
  moreover have "cstr_at ?m s t" using assms(1,3) by (subst delim_at_put_disj) simp_all
  moreover have "\<forall>a. a < d \<or> d + length t < a \<longrightarrow> ?m a = m a" by (auto simp: put_def)
  ultimately show ?thesis using c strcpy_put[OF assms] stpcpy_put[OF assms] strcpy_small_put[OF assms(1-3)] by blast
qed

theorem strcpy_copies_witness:
  "\<exists>m'. strcpy (mem_image 64 [0x68, 0x69, 0, 0, 0, 0, 0, 0, 0, 0, 0, 0, 0, 0, 0, 0]) 72 64 = Some (m', 72) \<and>
     cstr_at m' 72 [0x68, 0x69]"
proof -
  let ?m = "mem_image 64 [0x68, 0x69, 0, 0, 0, 0, 0, 0, 0, 0, 0, 0, 0, 0, 0, 0]" and ?t = "[0x68, 0x69] :: byte list"
  have "cstr_at ?m 64 ?t" "mapped ?m 72 (Suc (length ?t))" "disj 72 (Suc (length ?t)) 64 (Suc (length ?t))" by code_simp+
  moreover have "word_mapped ?m" by (rule word_mapped_mem_image) code_simp+
  ultimately show ?thesis using strcpy_copies[of ?m 64 ?t 72] by blast
qed

text \<open>
  \<open>strncpy\<close> writes exactly \<open>n\<close> bytes: the first \<open>n\<close> bytes of the string, and
  zeros up to \<open>n\<close> when it is shorter (so the result is unterminated when the string has \<open>n\<close>
  bytes or more). \<open>stpncpy\<close> writes the same and returns the end of the copied part.
\<close>

theorem strncpy_pads:
  assumes "cstr_at m s t" "mapped m d n" "disj d n s (Suc (length t))" "word_mapped m"
  shows "\<exists>m'. strncpy m d s n = Some (m', d) \<and> strncpy_small m d s n = Some (m', d) \<and>
    stpncpy m d s n = Some (m', d + min n (length t)) \<and>
    rd m' d n = Some (take n t @ replicate (n - length t) 0) \<and> (\<forall>a. a < d \<or> d + n \<le> a \<longrightarrow> m' a = m a)"
proof -
  let ?m = "put m d (ncpy n t)"
  have "rd ?m d n = Some (take n t @ replicate (n - length t) 0)"
    using rd_put_same[of n "ncpy n t" m d] by (simp add: ncpy_def)
  moreover have "\<forall>a. a < d \<or> d + n \<le> a \<longrightarrow> ?m a = m a" by (auto simp: put_def)
  ultimately show ?thesis using strncpy_put[OF assms] stpncpy_put[OF assms] strncpy_small_put[OF assms(1-3)] by blast
qed

theorem strncpy_pads_witness:
  "\<exists>m'. strncpy (mem_image 64 [0x68, 0x69, 0, 0, 0, 0, 0, 0, 1, 1, 1, 1, 1, 1, 1, 1]) 72 64 4 = Some (m', 72) \<and>
     rd m' 72 4 = Some [0x68, 0x69, 0, 0]"
proof -
  let ?m = "mem_image 64 [0x68, 0x69, 0, 0, 0, 0, 0, 0, 1, 1, 1, 1, 1, 1, 1, 1]" and ?t = "[0x68, 0x69] :: byte list"
  have "cstr_at ?m 64 ?t" "mapped ?m 72 4" "disj 72 4 64 (Suc (length ?t))" by code_simp+
  moreover have "word_mapped ?m" by (rule word_mapped_mem_image) code_simp+
  ultimately have "\<exists>m'. strncpy ?m 72 64 4 = Some (m', 72) \<and> rd m' 72 4 = Some (take 4 ?t @ replicate (4 - length ?t) 0)"
    using strncpy_pads[of ?m 64 ?t 72 4] by blast
  then show ?thesis by (simp add: numeral_2_eq_2 del: rd.simps)
qed

text \<open>
  C18: \<open>strlcat\<close> with a buffer of \<open>n\<close> bytes that holds a string shorter than
  \<open>n\<close> leaves the concatenation cut to \<open>n - 1\<close> bytes and terminated, never writes outside the
  buffer, and returns the length the concatenation wanted, so a result of at least \<open>n\<close> tells a truncation.
\<close>

theorem strlcat_truncates:
  assumes "cstr_at m p s" "cstr_at m q t" "mapped m p n" "disj p n q (Suc (length t))" "word_mapped m" "length s < n"
  shows "\<exists>m'. strlcat m p q n = Some (m', length s + length t) \<and> cstr_at m' p (take (n - 1) (s @ t)) \<and>
    (\<forall>a. a < p \<or> p + n \<le> a \<longrightarrow> m' a = m a)"
proof -
  let ?u = "take (n - length s - 1) t"
  let ?m = "put m (p + length s) (?u @ [0])"
  have u: "take (n - 1) (s @ t) = s @ ?u" using assms(6) by (simp add: diff_commute)
  have z: "0 \<notin> set s" "0 \<notin> set t" using assms(1,2) by (auto dest: delim_at_notin)
  have "rd ?m p (length s) = Some s" using delim_at_rd_body[OF assms(1)] by (subst rd_put_disj) (simp_all add: disj_def)
  moreover have "cstr_at ?m (p + length s) ?u" using z by (intro delim_at_put_same) (auto dest: in_set_takeD)
  ultimately have "cstr_at ?m p (s @ ?u)" using z by (simp add: delim_at_append)
  moreover have "\<forall>a. a < p \<or> p + n \<le> a \<longrightarrow> ?m a = m a" using assms(6) by (auto simp: put_def)
  moreover have "strlcat m p q n = Some (?m, length s + length t)" using strlcat_put[OF assms(1-5)] assms(6) by simp
  ultimately show ?thesis unfolding u by blast
qed

theorem strlcat_truncates_witness:
  "\<exists>m'. strlcat (mem_image 64 [0x68, 0x69, 0, 0, 0, 0, 0, 0, 0x79, 0x6f, 0x75, 0, 0, 0, 0, 0]) 64 72 4 = Some (m', 5) \<and>
     cstr_at m' 64 [0x68, 0x69, 0x79]"
proof -
  let ?m = "mem_image 64 [0x68, 0x69, 0, 0, 0, 0, 0, 0, 0x79, 0x6f, 0x75, 0, 0, 0, 0, 0]"
  let ?s = "[0x68, 0x69] :: byte list" and ?t = "[0x79, 0x6f, 0x75] :: byte list"
  have "cstr_at ?m 64 ?s" "cstr_at ?m 72 ?t" "mapped ?m 64 4" "disj 64 4 72 (Suc (length ?t))" by code_simp+
  moreover have "word_mapped ?m" by (rule word_mapped_mem_image) code_simp+
  moreover have "length ?s < 4" by simp
  moreover have "length ?s + length ?t = 5" by simp
  ultimately have "\<exists>m'. strlcat ?m 64 72 4 = Some (m', 5) \<and> cstr_at m' 64 (take (4 - 1) (?s @ ?t))"
    using strlcat_truncates[of ?m 64 ?s 72 ?t 4] by metis
  then show ?thesis by simp
qed

text \<open>
  C19: \<open>strcmp\<close>, which compares aligned strings word by word, is the lexicographic
  comparison of the strings as unsigned bytes.
\<close>

theorem strcmp_orders:
  assumes "cstr_at m p s" "cstr_at m q t" "word_mapped m"
  shows "\<exists>r. strcmp m p q = Some r \<and> strcmp_small m p q = Some r \<and>
    (r = 0 \<longleftrightarrow> s = t) \<and> (r < 0 \<longleftrightarrow> (s, t) \<in> lexord {(a, b). a < b})"
  using assms strcmp_cstr[OF assms] strcmp_bytes_cstr[OF assms(1,2)]
    cmp_result_cstr_eq[of s t] cmp_result_cstr_less[of s t]
  by (auto simp: strcmp_small_def dest: delim_at_notin)

theorem strcmp_orders_witness:
  "\<exists>r. strcmp (mem_image 64 [0x68, 0x69, 0, 0, 0, 0, 0, 0, 0x68, 0xff, 0, 0, 0, 0, 0, 0]) 64 72 = Some r \<and> r < 0"
proof -
  let ?m = "mem_image 64 [0x68, 0x69, 0, 0, 0, 0, 0, 0, 0x68, 0xff, 0, 0, 0, 0, 0, 0]"
  have "cstr_at ?m 64 [0x68, 0x69]" "cstr_at ?m 72 [0x68, 0xff]" by code_simp+
  moreover have "word_mapped ?m" by (rule word_mapped_mem_image) code_simp+
  ultimately show ?thesis using strcmp_orders[of ?m 64 "[0x68, 0x69]" 72 "[0x68, 0xff]"] by auto
qed

text \<open>
  \<open>strncmp\<close> is zero exactly when the strings agree on their first \<open>n\<close> bytes.
\<close>

theorem strncmp_prefix:
  assumes "cstr_at m p s" "cstr_at m q t" "word_mapped m"
  shows "\<exists>r. strncmp m p q n = Some r \<and> strncmp_small m p q n = Some r \<and>
    (r = 0 \<longleftrightarrow> take n s = take n t)"
proof -
  have "ncmp_result n s t = 0 \<longleftrightarrow> take n s = take n t"
    using ncmp_result_eq_0[of s t n] assms by (auto dest: delim_at_notin)
  then show ?thesis using strncmp_cstr[OF assms] strncmp_small_cstr[OF assms(1,2)] by auto
qed

theorem strncmp_prefix_witness:
  "strncmp (mem_image 64 [0x68, 0x69, 0, 0, 0, 0, 0, 0, 0x68, 0xff, 0, 0, 0, 0, 0, 0]) 64 72 1 = Some 0"
proof -
  let ?m = "mem_image 64 [0x68, 0x69, 0, 0, 0, 0, 0, 0, 0x68, 0xff, 0, 0, 0, 0, 0, 0]"
  have "cstr_at ?m 64 [0x68, 0x69]" "cstr_at ?m 72 [0x68, 0xff]" by code_simp+
  moreover have "word_mapped ?m" by (rule word_mapped_mem_image) code_simp+
  ultimately show ?thesis using strncmp_prefix[of ?m 64 "[0x68, 0x69]" 72 "[0x68, 0xff]" 1] by auto
qed

text \<open>
  C20: for a byte of the string, \<open>strchr\<close> returns its first occurrence and
  \<open>strrchr\<close>, which repeats \<open>strchr\<close>, its last; for another byte both return the null pointer; for the
  terminator both return its address.
\<close>

theorem strchr_first_strrchr_last:
  assumes "cstr_at m p s" "word_mapped m" "p \<noteq> NULL"
  shows "\<exists>a b. strchr m p i = Some a \<and> strrchr m p i = Some b \<and>
    (word_of_int i \<notin> set (s @ [0]) \<longrightarrow> a = NULL \<and> b = NULL) \<and>
    (word_of_int i \<in> set (s @ [0]) \<longrightarrow> (\<exists>j k. a = p + j \<and> b = p + k \<and> j \<le> k \<and> k \<le> length s \<and>
       (s @ [0]) ! j = word_of_int i \<and> (s @ [0]) ! k = word_of_int i \<and>
       (\<forall>l\<le>length s. (s @ [0]) ! l = word_of_int i \<longrightarrow> j \<le> l \<and> l \<le> k)))"
proof -
  let ?c = "word_of_int i :: byte" and ?s = "s @ [0]"
  have eq: "strchr m p i = Some (chr_result p ?c ?s)" "strrchr m p i = Some (rchr_result p ?c ?s)"
    using assms by (simp_all add: strchr_cstr strrchr_cstr)
  show ?thesis
  proof (cases "?c \<in> set ?s")
    case False
    then show ?thesis using eq by (simp add: chr_result_def rchr_result_absent)
  next
    case True
    obtain j where j: "j < length ?s" "chr_result p ?c ?s = p + j" "?s ! j = ?c" "\<forall>l<j. ?s ! l \<noteq> ?c"
      using chr_result_first[OF True, of p] by auto
    obtain k where k: "k < length ?s" "rchr_result p ?c ?s = p + k" "?s ! k = ?c"
      "\<forall>l. k < l \<and> l < length ?s \<longrightarrow> ?s ! l \<noteq> ?c" using rchr_result_last[OF True, of p] by auto
    have "\<forall>l\<le>length s. ?s ! l = ?c \<longrightarrow> j \<le> l \<and> l \<le> k" using j(4) k(4) by (auto simp: not_le[symmetric])
    moreover from this j(1,3) have "j \<le> k" by simp
    moreover have "k \<le> length s" using k(1) by simp
    ultimately show ?thesis using eq True j k by blast
  qed
qed

theorem strchr_first_strrchr_last_witness:
  "\<exists>a b. strchr (mem_image 64 [0x61, 0x62, 0x61, 0, 0, 0, 0, 0]) 64 0x61 = Some a \<and>
    strrchr (mem_image 64 [0x61, 0x62, 0x61, 0, 0, 0, 0, 0]) 64 0x61 = Some b \<and> a \<le> b"
proof -
  let ?m = "mem_image 64 [0x61, 0x62, 0x61, 0, 0, 0, 0, 0]"
  have "cstr_at ?m 64 [0x61, 0x62, 0x61]" by code_simp
  moreover have "word_mapped ?m" by (rule word_mapped_mem_image) code_simp+
  ultimately show ?thesis using strchr_first_strrchr_last[of ?m 64 "[0x61, 0x62, 0x61]" "0x61"] by auto
qed

text \<open>
  \<open>strspn\<close> and \<open>strcspn\<close> return the length of the longest prefix all of whose
  bytes are in, or not in, the second string, and \<open>strpbrk\<close> the address after the latter prefix, or the null
  pointer when it is the whole string.
\<close>

theorem span_functions:
  assumes "cstr_at m p s" "cstr_at m q t"
  shows "strspn m p q = Some (length (takeWhile (\<lambda>b. b \<in> set t) s)) \<and>
    strcspn m p q = Some (length (takeWhile (\<lambda>b. b \<notin> set t) s)) \<and>
    strpbrk m p q = Some (if set s \<inter> set t = {} then NULL else p + length (takeWhile (\<lambda>b. b \<notin> set t) s))"
  using assms by (simp add: strspn_cstr strcspn_cstr strpbrk_cstr)

theorem span_functions_witness:
  "strspn (mem_image 64 [0x61, 0x62, 0x63, 0, 0x62, 0x61, 0, 0]) 64 68 = Some 2"
proof -
  let ?m = "mem_image 64 [0x61, 0x62, 0x63, 0, 0x62, 0x61, 0, 0]"
  have "cstr_at ?m 64 [0x61, 0x62, 0x63]" "cstr_at ?m 68 [0x62, 0x61]" by code_simp+
  from span_functions[OF this] show ?thesis by simp
qed

end
