(* ===== verification/StrTok.thy ===== *)
theory StrTok
  imports StrFns
begin

text \<open>
  The tokenizers of \<open>newlib/libc/string\<close>: \<open>strtok_r\<close>, \<open>strtok\<close> and \<open>strsep\<close>, which share
  \<open>__strtok_r\<close>. The variable \<open>*lasts\<close> is outside of the strings: it is an argument and a result.
\<close>

section \<open>Definitions\<close>

partial_function (option) strtok_scan :: "mem \<Rightarrow> addr \<Rightarrow> addr \<Rightarrow> addr \<Rightarrow> (mem \<times> addr \<times> addr) option" where
  "strtok_scan m tok s delim = do {
     c \<leftarrow> ld8 m s;
     found \<leftarrow> in_set m c delim;
     if c = 0 then Some (m, tok, NULL)
     else if found then do { m \<leftarrow> st8 m s 0; Some (m, tok, s + 1) }
     else strtok_scan m tok (s + 1) delim }"

partial_function (option) strtok_skip :: "mem \<Rightarrow> addr \<Rightarrow> addr \<Rightarrow> bool \<Rightarrow> (mem \<times> addr \<times> addr) option" where
  "strtok_skip m s delim skip_leading_delim = do {
     c \<leftarrow> ld8 m s;
     found \<leftarrow> in_set m c delim;
     if found then
       if skip_leading_delim then strtok_skip m (s + 1) delim skip_leading_delim
       else do { m \<leftarrow> st8 m s 0; Some (m, s, s + 1) }
     else if c = 0 then Some (m, NULL, NULL)
     else strtok_scan m s (s + 1) delim }"

declare strtok_scan.simps [code] strtok_skip.simps [code]

definition strtok_r_gen :: "mem \<Rightarrow> addr \<Rightarrow> addr \<Rightarrow> addr \<Rightarrow> bool \<Rightarrow> (mem \<times> addr \<times> addr) option" where
  "strtok_r_gen m s delim lasts skip_leading_delim =
     (let s = if s = NULL then lasts else s in
      if s = NULL then Some (m, NULL, lasts) else strtok_skip m s delim skip_leading_delim)"

definition strtok_r :: "mem \<Rightarrow> addr \<Rightarrow> addr \<Rightarrow> addr \<Rightarrow> (mem \<times> addr \<times> addr) option" where
  "strtok_r m s delim lasts = strtok_r_gen m s delim lasts True"

definition strtok :: "mem \<Rightarrow> addr \<Rightarrow> addr \<Rightarrow> addr \<Rightarrow> (mem \<times> addr \<times> addr) option" where
  "strtok m s delim strtok_last = strtok_r_gen m s delim strtok_last True"

definition strsep :: "mem \<Rightarrow> addr \<Rightarrow> addr \<Rightarrow> (mem \<times> addr \<times> addr) option" where
  "strsep m source_ptr delim = strtok_r_gen m source_ptr delim source_ptr False"

section \<open>One token\<close>

text \<open>The call that cuts the token \<open>t\<close> at \<open>p\<close>, with \<open>rest\<close> after it.\<close>

definition cut :: "mem \<Rightarrow> addr \<Rightarrow> byte list \<Rightarrow> byte list \<Rightarrow> mem \<times> addr \<times> addr" where
  "cut m p t rest = (if rest = [] then (m, p, NULL) else (m(p + length t \<mapsto> 0), p, p + length t + 1))"

lemma strtok_scan_cstr:
  assumes "cstr_at m q ds"
  shows "cstr_at m s u \<Longrightarrow>
    strtok_scan m tok s q = Some (let t = takeWhile (\<lambda>b. b \<notin> set ds) u in
      if t = u then (m, tok, NULL) else (m(s + length t \<mapsto> 0), tok, s + length t + 1))"
proof (induction u arbitrary: s)
  case Nil
  then show ?case by (subst strtok_scan.simps) (simp add: in_set_cstr[OF assms])
next
  case (Cons b u)
  then show ?case
    by (subst strtok_scan.simps) (auto simp: in_set_cstr[OF assms] st8_def Let_def)
qed

lemma strtok_skip_False:
  assumes "cstr_at m q ds" "cstr_at m s u" "u \<noteq> []"
  shows "strtok_skip m s q False = Some (let t = takeWhile (\<lambda>b. b \<notin> set ds) u in cut m s t (drop (length t) u))"
proof -
  obtain b v where u: "u = b # v" using assms(3) by (cases u) auto
  then have b: "m s = Some b" "b \<noteq> 0" "cstr_at m (s + 1) v" using assms(2) by auto
  show ?thesis
  proof (cases "b \<in> set ds")
    case True
    then show ?thesis using b u by (subst strtok_skip.simps) (simp add: in_set_cstr[OF assms(1)] st8_def cut_def)
  next
    case False
    have "drop (length t) v = [] \<longleftrightarrow> t = v" if "t = takeWhile (\<lambda>b. b \<notin> set ds) v" for t
      using that length_takeWhile_le[of "\<lambda>b. b \<notin> set ds" v] by (metis drop_all drop_eq_Nil takeWhile_eq_take take_all)
    then show ?thesis using False b u strtok_scan_cstr[OF assms(1) b(3), of s]
      by (subst strtok_skip.simps) (simp add: in_set_cstr[OF assms(1)] cut_def Let_def)
  qed
qed

lemma strtok_skip_end: "cstr_at m q ds \<Longrightarrow> cstr_at m s [] \<Longrightarrow> strtok_skip m s q skip = Some (m, NULL, NULL)"
  by (subst strtok_skip.simps) (auto simp: in_set_cstr dest: delim_at_notin)

lemma strtok_skip_True:
  assumes "cstr_at m q ds"
  shows "cstr_at m s u \<Longrightarrow> strtok_skip m s q True =
    (let v = dropWhile (\<lambda>b. b \<in> set ds) u; p = s + (length u - length v) in
     if v = [] then Some (m, NULL, NULL) else strtok_skip m p q False)"
proof (induction u arbitrary: s)
  case Nil
  then show ?case using strtok_skip_end[OF assms] by simp
next
  case (Cons b u)
  then have b: "m s = Some b" "b \<noteq> 0" "cstr_at m (s + 1) u" by auto
  show ?case
  proof (cases "b \<in> set ds")
    case True
    have le: "length (dropWhile (\<lambda>b. b \<in> set ds) u) \<le> length u" by (rule length_dropWhile_le)
    show ?thesis using True b Cons.IH[OF b(3)] le
      by (subst strtok_skip.simps) (simp add: in_set_cstr[OF assms] Let_def Suc_diff_le)
  next
    case False
    then show ?thesis using b by (subst (1 2) strtok_skip.simps) (simp add: in_set_cstr[OF assms])
  qed
qed

section \<open>All tokens\<close>

function tokens :: "byte set \<Rightarrow> byte list \<Rightarrow> byte list list" where
  "tokens D s = (let v = dropWhile (\<lambda>b. b \<in> D) s in
     if v = [] then [] else takeWhile (\<lambda>b. b \<notin> D) v # tokens D (dropWhile (\<lambda>b. b \<notin> D) v))"
  by pat_completeness auto

termination
proof (relation "measure (length \<circ> snd)", goal_cases)
  case (2 D s v)
  then obtain b w where v: "v = b # w" by (metis list.exhaust)
  then have "b \<notin> D" using hd_dropWhile[of "\<lambda>b. b \<in> D" s] 2 by auto
  then have "length (dropWhile (\<lambda>b. b \<notin> D) v) < length v" using v length_dropWhile_le[of "\<lambda>b. b \<notin> D" w] by simp
  also have "length v \<le> length s" using 2 length_dropWhile_le[of "\<lambda>b. b \<in> D" s] by simp
  finally show ?case by simp
qed simp

declare tokens.simps [simp del]

text \<open>Calls of \<open>strtok_r\<close> until it returns the null pointer: the first with the string, the others with null.\<close>

fun strtok_run :: "nat \<Rightarrow> mem \<Rightarrow> addr \<Rightarrow> addr \<Rightarrow> addr \<Rightarrow> (mem \<times> addr list) option" where
  "strtok_run 0 m s delim lasts = None"
| "strtok_run (Suc n) m s delim lasts = do {
     (m, r, lasts) \<leftarrow> strtok_r m s delim lasts;
     if r = NULL then Some (m, [])
     else do { (m, rs) \<leftarrow> strtok_run n m NULL delim lasts; Some (m, r # rs) } }"


lemma delim_at_cong: "delim_at m p d s \<Longrightarrow> (\<And>i. i \<le> length s \<Longrightarrow> m' (p + i) = m (p + i)) \<Longrightarrow> delim_at m' p d s"
  unfolding delim_at_def using rd_cong[of "Suc (length s)" m p m' p] by simp

lemma tokens_skip: "d \<in> D \<Longrightarrow> tokens D (d # s) = tokens D s"
  by (subst (1 2) tokens.simps) simp

lemma strtok_r_NULL: "p \<noteq> NULL \<Longrightarrow> strtok_r m NULL q p = strtok_r m p q l"
  by (simp add: strtok_r_def strtok_r_gen_def)

lemma strtok_r_cstr:
  assumes "cstr_at m q ds" "cstr_at m p u" "p \<noteq> NULL"
  shows "strtok_r m p q l = Some (let v = dropWhile (\<lambda>b. b \<in> set ds) u; t = takeWhile (\<lambda>b. b \<notin> set ds) v in
    if v = [] then (m, NULL, NULL) else cut m (p + (length u - length v)) t (drop (length t) v))"
proof -
  define v where "v = dropWhile (\<lambda>b. b \<in> set ds) u"
  have "v = drop (length u - length v) u" unfolding v_def by (metis dropWhile_eq_drop length_drop length_takeWhile_le diff_diff_cancel)
  then have "cstr_at m (p + (length u - length v)) v"
    using delim_at_drop[OF assms(2), of "length u - length v"] by simp
  then show ?thesis using strtok_skip_True[OF assms(1,2)] strtok_skip_False[OF assms(1), of _ v] assms(3)
    by (simp add: strtok_r_def strtok_r_gen_def Let_def v_def[symmetric])
qed

lemma takeWhile_drop_cases:
  assumes "v = dropWhile P u" "v \<noteq> []" "t = takeWhile (\<lambda>b. \<not> P b) v"
  obtains (last) "drop (length t) v = []" "t = v" "dropWhile (\<lambda>b. \<not> P b) v = []"
  | (more) d r where "drop (length t) v = d # r" "v = t @ d # r" "P d" "dropWhile (\<lambda>b. \<not> P b) v = d # r"
proof (cases "dropWhile (\<lambda>b. \<not> P b) v")
  case Nil
  then have "t = v" using assms(3) by (metis append_Nil2 takeWhile_dropWhile_id)
  with Nil show ?thesis using last by simp
next
  case (Cons d r)
  then have v: "v = t @ d # r" using assms(3) by (metis takeWhile_dropWhile_id)
  moreover have "P d" using Cons hd_dropWhile[of "\<lambda>b. \<not> P b" v] by simp
  ultimately show ?thesis using more[of d r] Cons by simp
qed

lemma strtok_run_cstr:
  assumes "length u + 1 < n" "cstr_at m p u" "p \<noteq> NULL" "cstr_at m q ds" "disj p (Suc (length u)) q (Suc (length ds))"
  shows "\<exists>m' rs. strtok_run n m p q l = Some (m', rs) \<and> list_all2 (cstr_at m') rs (tokens (set ds) u) \<and>
    (\<forall>a. a < p \<or> p + length u \<le> a \<longrightarrow> m' a = m a)"
  using assms
proof (induction "length u" arbitrary: u n m p l rule: less_induct)
  case less
  obtain n' where n: "n = Suc (Suc n')" using less.prems(1) by (cases n; cases "n - 1") auto
  define v where "v = dropWhile (\<lambda>b. b \<in> set ds) u"
  define t where "t = takeWhile (\<lambda>b. b \<notin> set ds) v"
  define p' where "p' = p + (length u - length v)"
  have lv: "length v \<le> length u" unfolding v_def by (rule length_dropWhile_le)
  have "v = drop (length u - length v) u" unfolding v_def by (metis dropWhile_eq_drop length_drop length_takeWhile_le diff_diff_cancel)
  then have v: "cstr_at m p' v"
    using delim_at_drop[OF less.prems(2), of "length u - length v"] by (simp add: p'_def)
  have p': "p' + length v = p + length u" "p' \<noteq> NULL" using lv less.prems(3) by (auto simp: p'_def)
  note call = strtok_r_cstr[OF less.prems(4,2,3), folded v_def, of l, unfolded Let_def, folded t_def p'_def]
  show ?case
  proof (cases "v = []")
    case True
    then have "tokens (set ds) u = []" by (subst tokens.simps) (simp add: v_def)
    then show ?thesis using call True n by simp
  next
    case False
    have tok: "tokens (set ds) u = t # tokens (set ds) (dropWhile (\<lambda>b. b \<notin> set ds) v)"
      using False by (subst tokens.simps) (simp add: v_def[symmetric] t_def Let_def)
    show ?thesis using v_def False t_def
    proof (cases rule: takeWhile_drop_cases)
      case last
      then have "tokens (set ds) u = [v]" using tok last(2) unfolding last(3) by (simp add: tokens.simps[of _ "[]"])
      then show ?thesis using call False last v p' n
        by (simp add: cut_def strtok_r_def[of _ NULL] strtok_r_gen_def)
    next
      case (more d r)
      define m1 where "m1 = m(p' + length t \<mapsto> 0)"
      define s where "s = p' + length t + 1"
      have len: "length v = length t + Suc (length r)" using more(2) by simp
      have r: "cstr_at m s r" using v delim_at_append[of m p' 0 "t @ [d]" r] more(2) by (simp add: s_def)
      have r1: "cstr_at m1 s r" by (rule delim_at_cong[OF r]) (auto simp: m1_def s_def)
      have q1: "cstr_at m1 q ds" by (rule delim_at_cong[OF less.prems(4)])
          (use less.prems(5) len p'(1) lv in \<open>auto simp: m1_def disj_def p'_def\<close>)
      have dj: "disj s (Suc (length r)) q (Suc (length ds))"
        using less.prems(5) len p'(1) lv by (auto simp: disj_def s_def p'_def)
      obtain m' rs where run: "strtok_run (Suc n') m1 s q s = Some (m', rs)"
        and ok: "list_all2 (cstr_at m') rs (tokens (set ds) r)" and fr: "\<forall>a. a < s \<or> s + length r \<le> a \<longrightarrow> m' a = m1 a"
        using less.hyps[OF _ _ r1 _ q1 dj, of "Suc n'" s] len lv less.prems(1) n by (auto simp: s_def)
      have t: "cstr_at m' p' t"
      proof -
        have "rd m p' (length t) = Some t" "0 \<notin> set t" using v more(2) by (simp_all add: delim_at_append)
        moreover have "m' (p' + i) = (if i = length t then Some 0 else m (p' + i))" if "i \<le> length t" for i
          using fr that by (auto simp: s_def m1_def)
        ultimately show ?thesis unfolding delim_at_def rd_Some_iff by (auto simp: nth_append less_Suc_eq)
      qed
      have "strtok_run (Suc n') m1 NULL q s = Some (m', rs)" using run strtok_r_NULL[of s m1 q s] by (simp add: s_def)
      moreover have "strtok_r m p q l = Some (m1, p', s)" using call False more(1) by (simp add: cut_def m1_def s_def)
      ultimately have "strtok_run n m p q l = Some (m', p' # rs)"
        using p'(2) unfolding n strtok_run.simps(2)[of "Suc n'"] by (simp del: strtok_run.simps)
      moreover have "m' a = m a" if "a < p \<or> p + length u \<le> a" for a
        using fr that p' len by (auto simp: m1_def s_def p'_def)
      moreover have "list_all2 (cstr_at m') (p' # rs) (tokens (set ds) u)"
        using ok t tok more(3,4) by (simp add: tokens_skip)
      ultimately show ?thesis by blast
    qed
  qed
qed

text \<open>
  C31: called first with a string and then with the null pointer until it returns
  null, \<open>strtok_r\<close> returns after finitely many calls, one pointer for every maximal run of
  bytes that are not delimiters, in order, each pointing to that run terminated in place; no
  byte outside of the string changes.
\<close>

theorem strtok_r_tokens:
  assumes "cstr_at m p s" "p \<noteq> NULL" "cstr_at m q ds" "disj p (Suc (length s)) q (Suc (length ds))"
  shows "\<exists>m' rs. strtok_run (length s + 2) m p q lasts = Some (m', rs) \<and>
    list_all2 (cstr_at m') rs (tokens (set ds) s) \<and>
    (\<forall>a. a < p \<or> p + length s \<le> a \<longrightarrow> m' a = m a)"
  by (rule strtok_run_cstr) (use assms in auto)

theorem strtok_r_tokens_witness:
  "\<exists>m' rs. strtok_run 9 (mem_image 16 [44, 97, 98, 32, 44, 99, 44, 0, 44, 32, 0]) 16 24 0 = Some (m', rs) \<and>
    list_all2 (cstr_at m') rs [[97, 98], [99]]"
proof -
  have 1: "cstr_at (mem_image 16 [44, 97, 98, 32, 44, 99, 44, 0, 44, 32, 0]) 16 [44, 97, 98, 32, 44, 99, 44]"
    "cstr_at (mem_image 16 [44, 97, 98, 32, 44, 99, 44, 0, 44, 32, 0]) 24 [44, 32]" by code_simp+
  have 2: "tokens (set [44, 32]) [44, 97, 98, 32, 44, 99, 44] = [[97, 98], [99]]" by code_simp
  have 3: "length ([44, 97, 98, 32, 44, 99, 44] :: byte list) + 2 = 9" "disj 16 (Suc (length ([44, 97, 98, 32, 44, 99, 44] :: byte list))) 24 (Suc (length ([44, 32] :: byte list)))"
    by (simp_all add: disj_def)
  show ?thesis using strtok_r_tokens[OF 1(1) _ 1(2) 3(2), of 0] unfolding 2 3(1) by (auto simp del: strtok_run.simps)
qed

text \<open>
  \<open>strsep\<close> cuts the field before the first delimiter, which may be empty, terminates it in place and
  advances to the byte after the delimiter; without a delimiter it returns the whole string and the
  null pointer as the rest. An empty string gives no field, so a field that is empty because the string
  ends after a delimiter is never returned.
\<close>

lemma strsep_field:
  assumes "cstr_at m p s" "p \<noteq> NULL" "cstr_at m q ds"
  shows "strsep m p q = Some (let t = takeWhile (\<lambda>b. b \<notin> set ds) s in
    if s = [] then (m, NULL, NULL)
    else if t = s then (m, p, NULL)
    else (put m (p + length t) [0], p, p + length t + 1))"
proof (cases "s = []")
  case True
  then show ?thesis using strtok_skip_end[OF assms(3)] assms(1,2) by (simp add: strsep_def strtok_r_gen_def)
next
  case False
  have "drop (length t) s = [] \<longleftrightarrow> t = s" if "t = takeWhile (\<lambda>b. b \<notin> set ds) s" for t
    using that length_takeWhile_le[of "\<lambda>b. b \<notin> set ds" s] by (metis drop_all drop_eq_Nil takeWhile_eq_take take_all)
  then show ?thesis using strtok_skip_False[OF assms(3,1) False] False assms(2)
    by (simp add: strsep_def strtok_r_gen_def cut_def Let_def put_Cons)
qed

end
