(* ===== verification/Ctype.thy ===== *)
theory Ctype
  imports Prelude
begin

text \<open>
  The classification of characters of \<open>newlib/libc/ctype\<close> and \<open>include/ctype.h\<close>, in the "C" locale and
  with the table that GCC builds on a target whose \<open>char\<close> is signed.
\<close>

section \<open>The classification table\<close>

definition CT_U :: byte where "CT_U = 0x01"

definition CT_L :: byte where "CT_L = 0x02"

definition CT_N :: byte where "CT_N = 0x04"

definition CT_S :: byte where "CT_S = 0x08"

definition CT_P :: byte where "CT_P = 0x10"

definition CT_C :: byte where "CT_C = 0x20"

definition CT_X :: byte where "CT_X = 0x40"

definition CT_B :: byte where "CT_B = 0x80"

definition CTYPE_DATA_0_127 :: "byte list" where
  "CTYPE_DATA_0_127 =
    replicate 9 CT_C @ replicate 5 (CT_C OR CT_S) @ replicate 18 CT_C @
    [CT_S OR CT_B] @ replicate 15 CT_P @
    replicate 10 CT_N @ replicate 6 CT_P @
    [CT_P] @ replicate 6 (CT_U OR CT_X) @ replicate 20 CT_U @ replicate 5 CT_P @
    [CT_P] @ replicate 6 (CT_L OR CT_X) @ replicate 20 CT_L @ replicate 4 CT_P @ [CT_C]"

definition CTYPE_DATA_128_255 :: "byte list" where
  "CTYPE_DATA_128_255 = replicate 128 0"

definition ctype_b :: "byte list" where
  "ctype_b = CTYPE_DATA_128_255 @ CTYPE_DATA_0_127 @ CTYPE_DATA_128_255"

text \<open>
  The class of an \<open>int\<close>: \<open>__CTYPE_PTR\<close> is \<open>_ctype_b + 127\<close>, and the functions read \<open>__CTYPE_PTR[c+1]\<close>.
  An index outside of the table is a fault.
\<close>

definition ctype_lookup :: "int \<Rightarrow> byte option" where
  "ctype_lookup c = (let i = 127 + (c + 1) in
     if 0 \<le> i \<and> i < int (length ctype_b) then Some (ctype_b ! nat i) else None)"

section \<open>Classification and conversion\<close>

text \<open>The functions return an \<open>int\<close> of which the callers use only whether it is zero.\<close>

definition isalpha :: "int \<Rightarrow> bool option" where
  "isalpha c = do { t \<leftarrow> ctype_lookup c; Some (t AND (CT_U OR CT_L) \<noteq> 0) }"

definition isupper :: "int \<Rightarrow> bool option" where
  "isupper c = do { t \<leftarrow> ctype_lookup c; Some (t AND (CT_U OR CT_L) = CT_U) }"

definition islower :: "int \<Rightarrow> bool option" where
  "islower c = do { t \<leftarrow> ctype_lookup c; Some (t AND (CT_U OR CT_L) = CT_L) }"

definition isdigit :: "int \<Rightarrow> bool option" where
  "isdigit c = do { t \<leftarrow> ctype_lookup c; Some (t AND CT_N \<noteq> 0) }"

definition isxdigit :: "int \<Rightarrow> bool option" where
  "isxdigit c = do { t \<leftarrow> ctype_lookup c; Some (t AND (CT_X OR CT_N) \<noteq> 0) }"

definition isspace :: "int \<Rightarrow> bool option" where
  "isspace c = do { t \<leftarrow> ctype_lookup c; Some (t AND CT_S \<noteq> 0) }"

definition ispunct :: "int \<Rightarrow> bool option" where
  "ispunct c = do { t \<leftarrow> ctype_lookup c; Some (t AND CT_P \<noteq> 0) }"

definition isalnum :: "int \<Rightarrow> bool option" where
  "isalnum c = do { t \<leftarrow> ctype_lookup c; Some (t AND (CT_U OR CT_L OR CT_N) \<noteq> 0) }"

definition isprint :: "int \<Rightarrow> bool option" where
  "isprint c = do { t \<leftarrow> ctype_lookup c; Some (t AND (CT_P OR CT_U OR CT_L OR CT_N OR CT_B) \<noteq> 0) }"

definition isgraph :: "int \<Rightarrow> bool option" where
  "isgraph c = do { t \<leftarrow> ctype_lookup c; Some (t AND (CT_P OR CT_U OR CT_L OR CT_N) \<noteq> 0) }"

definition iscntrl :: "int \<Rightarrow> bool option" where
  "iscntrl c = do { t \<leftarrow> ctype_lookup c; Some (t AND CT_C \<noteq> 0) }"

definition isblank :: "int \<Rightarrow> bool option" where
  "isblank c = do { t \<leftarrow> ctype_lookup c; Some (t AND CT_B \<noteq> 0 \<or> c = 9) }"

definition isascii :: "int \<Rightarrow> bool" where
  "isascii c \<longleftrightarrow> c \<ge> 0 \<and> c < 128"

definition toascii :: "int \<Rightarrow> int" where
  "toascii c = c AND 0x7f"

definition tolower :: "int \<Rightarrow> int option" where
  "tolower c = do { u \<leftarrow> isupper c; Some (if u then c - 65 + 97 else c) }"

definition toupper :: "int \<Rightarrow> int option" where
  "toupper c = do { l \<leftarrow> islower c; Some (if l then c - 97 + 65 else c) }"

section \<open>Classes as ranges\<close>

text \<open>The table read at a character, without the index computation.\<close>

definition ctype_of :: "int \<Rightarrow> byte" where
  "ctype_of c =
    (if c < 0 \<or> 127 < c then 0
     else if c < 32 then (if 9 \<le> c \<and> c \<le> 13 then CT_C OR CT_S else CT_C)
     else if c = 32 then CT_S OR CT_B
     else if 48 \<le> c \<and> c \<le> 57 then CT_N
     else if 65 \<le> c \<and> c \<le> 90 then (if c \<le> 70 then CT_U OR CT_X else CT_U)
     else if 97 \<le> c \<and> c \<le> 122 then (if c \<le> 102 then CT_L OR CT_X else CT_L)
     else if c = 127 then CT_C else CT_P)"

lemma ctype_b_map: "ctype_b = map ctype_of [-128..255]"
  by code_simp

lemma ctype_lookup_range: "- 128 \<le> c \<Longrightarrow> c \<le> 255 \<Longrightarrow> ctype_lookup c = Some (ctype_of c)"
proof -
  assume c: "- 128 \<le> c" "c \<le> 255"
  define a :: int where "a = - 128"
  have ct: "ctype_b = map ctype_of [a..255]" unfolding a_def by (rule ctype_b_map)
  have "127 + (c + 1) = c - a" by (simp add: a_def)
  moreover have "map ctype_of [a..255] ! nat (c - a) = ctype_of c" using c by (simp add: nth_upto a_def[symmetric])
  ultimately have "ctype_b ! nat (127 + (c + 1)) = ctype_of c" unfolding ct by (simp only:)
  moreover have "length ctype_b = 384" unfolding ctype_b_map length_map length_upto by simp
  ultimately show ?thesis using c by (simp add: ctype_lookup_def Let_def)
qed

lemma uint_byte_range [simp]: "- 128 \<le> uint (b :: byte)" "uint (b :: byte) \<le> 255" "0 \<le> uint b"
  using uint_lt2p[of b] by (simp_all add: order_trans[of "-128" 0])

lemmas ctype_flags = CT_U_def CT_L_def CT_N_def CT_S_def CT_P_def CT_C_def CT_X_def CT_B_def

lemmas ctype_defs = isalpha_def isupper_def islower_def isdigit_def isxdigit_def isspace_def ispunct_def
  isalnum_def isprint_def isgraph_def iscntrl_def isblank_def

text \<open>
  For every \<open>unsigned char\<close> and for EOF, each classification function answers
  the ASCII range its documentation names; it never reads outside of the table.
\<close>

theorem ctype_classes:
  assumes "- 1 \<le> c" "c \<le> 255"
  shows "isdigit c = Some (48 \<le> c \<and> c \<le> 57) \<and>
    isupper c = Some (65 \<le> c \<and> c \<le> 90) \<and>
    islower c = Some (97 \<le> c \<and> c \<le> 122) \<and>
    isalpha c = Some (65 \<le> c \<and> c \<le> 90 \<or> 97 \<le> c \<and> c \<le> 122) \<and>
    isalnum c = Some (48 \<le> c \<and> c \<le> 57 \<or> 65 \<le> c \<and> c \<le> 90 \<or> 97 \<le> c \<and> c \<le> 122) \<and>
    isxdigit c = Some (48 \<le> c \<and> c \<le> 57 \<or> 65 \<le> c \<and> c \<le> 70 \<or> 97 \<le> c \<and> c \<le> 102) \<and>
    isspace c = Some (9 \<le> c \<and> c \<le> 13 \<or> c = 32) \<and>
    isblank c = Some (c = 9 \<or> c = 32) \<and>
    isprint c = Some (32 \<le> c \<and> c \<le> 126) \<and>
    isgraph c = Some (33 \<le> c \<and> c \<le> 126) \<and>
    iscntrl c = Some (0 \<le> c \<and> c \<le> 31 \<or> c = 127) \<and>
    ispunct c = Some (33 \<le> c \<and> c \<le> 47 \<or> 58 \<le> c \<and> c \<le> 64 \<or> 91 \<le> c \<and> c \<le> 96 \<or> 123 \<le> c \<and> c \<le> 126) \<and>
    tolower c = Some (if 65 \<le> c \<and> c \<le> 90 then c + 32 else c) \<and>
    toupper c = Some (if 97 \<le> c \<and> c \<le> 122 then c - 32 else c)"
  using assms
  by (auto simp: ctype_defs tolower_def toupper_def ctype_lookup_range ctype_of_def ctype_flags)

theorem ctype_classes_witness: "isdigit 55 = Some True \<and> tolower 65 = Some 97 \<and> isspace (- 1) = Some False"
  using ctype_classes[of 55] ctype_classes[of 65] ctype_classes[of "- 1"] by simp

end
