(* ===== verification/StrMisc.thy ===== *)
theory StrMisc
  imports StrFns Ctype
begin

text \<open>
  More of \<open>newlib/libc/string\<close>: comparison and conversion without case, version strings,
  \<open>strxfrm\<close>, \<open>swab\<close>, the comparisons in constant time and \<open>memrchr\<close>.
\<close>

section \<open>Definitions\<close>

subsection \<open>Comparing and converting without case\<close>

partial_function (option) strcasecmp :: "mem \<Rightarrow> addr \<Rightarrow> addr \<Rightarrow> int option" where
  "strcasecmp m s1 s2 = do {
     b1 \<leftarrow> ld8 m s1;
     c1 \<leftarrow> tolower (uint b1);
     b2 \<leftarrow> ld8 m s2;
     c2 \<leftarrow> tolower (uint b2);
     let d = c1 - c2 in
     if d \<noteq> 0 \<or> c2 = 0 then Some d else strcasecmp m (s1 + 1) (s2 + 1) }"

declare strcasecmp.simps [code]

fun strncasecmp :: "mem \<Rightarrow> addr \<Rightarrow> addr \<Rightarrow> nat \<Rightarrow> int option" where
  "strncasecmp m s1 s2 0 = Some 0"
| "strncasecmp m s1 s2 (Suc n) = do {
     b1 \<leftarrow> ld8 m s1;
     c1 \<leftarrow> tolower (uint b1);
     b2 \<leftarrow> ld8 m s2;
     c2 \<leftarrow> tolower (uint b2);
     let d = c1 - c2 in
     if d \<noteq> 0 \<or> c2 = 0 then Some d else strncasecmp m (s1 + 1) (s2 + 1) n }"

partial_function (option) strlwr_loop :: "mem \<Rightarrow> addr \<Rightarrow> mem option" where
  "strlwr_loop m ucs = do {
     b \<leftarrow> ld8 m ucs;
     if b = 0 then Some m
     else do { c \<leftarrow> tolower (uint b); m \<leftarrow> st8 m ucs (word_of_int c); strlwr_loop m (ucs + 1) } }"

partial_function (option) strupr_loop :: "mem \<Rightarrow> addr \<Rightarrow> mem option" where
  "strupr_loop m ucs = do {
     b \<leftarrow> ld8 m ucs;
     if b = 0 then Some m
     else do { c \<leftarrow> toupper (uint b); m \<leftarrow> st8 m ucs (word_of_int c); strupr_loop m (ucs + 1) } }"

declare strlwr_loop.simps [code] strupr_loop.simps [code]

definition strlwr :: "mem \<Rightarrow> addr \<Rightarrow> (mem \<times> addr) option" where
  "strlwr m s = do { m \<leftarrow> strlwr_loop m s; Some (m, s) }"

definition strupr :: "mem \<Rightarrow> addr \<Rightarrow> (mem \<times> addr) option" where
  "strupr m s = do { m \<leftarrow> strupr_loop m s; Some (m, s) }"

subsection \<open>Version strings\<close>

text \<open>The first loop of \<open>strverscmp\<close> returns \<open>Inl\<close> a result or \<open>Inr (i, dp, z)\<close>.\<close>

partial_function (option) vers_prefix ::
    "mem \<Rightarrow> addr \<Rightarrow> addr \<Rightarrow> nat \<Rightarrow> nat \<Rightarrow> bool \<Rightarrow> (int + nat \<times> nat \<times> bool) option" where
  "vers_prefix m l r i dp z = do {
     a \<leftarrow> ld8 m (l + i);
     b \<leftarrow> ld8 m (r + i);
     if a = b then
       if a = 0 then Some (Inl 0)
       else do {
         dig \<leftarrow> isdigit (uint a);
         if \<not> dig then vers_prefix m l r (i + 1) (i + 1) True
         else if a \<noteq> 48 then vers_prefix m l r (i + 1) dp False
         else vers_prefix m l r (i + 1) dp z }
     else Some (Inr (i, dp, z)) }"

text \<open>The second loop: \<open>Inl\<close> a result, or \<open>Inr j\<close>, the end of the digits of the left string.\<close>

partial_function (option) vers_digits :: "mem \<Rightarrow> addr \<Rightarrow> addr \<Rightarrow> nat \<Rightarrow> (int + nat) option" where
  "vers_digits m l r j = do {
     a \<leftarrow> ld8 m (l + j);
     da \<leftarrow> isdigit (uint a);
     if da then do {
       b \<leftarrow> ld8 m (r + j);
       db \<leftarrow> isdigit (uint b);
       if \<not> db then Some (Inl 1) else vers_digits m l r (j + 1) }
     else Some (Inr j) }"

declare vers_prefix.simps [code] vers_digits.simps [code]

definition strverscmp :: "mem \<Rightarrow> addr \<Rightarrow> addr \<Rightarrow> int option" where
  "strverscmp m l r = do {
     p \<leftarrow> vers_prefix m l r 0 0 True;
     case p of Inl ret \<Rightarrow> Some ret
     | Inr (i, dp, z) \<Rightarrow> do {
         ldp \<leftarrow> ld8 m (l + dp);
         rdp \<leftarrow> ld8 m (r + dp);
         li \<leftarrow> ld8 m (l + i);
         ri \<leftarrow> ld8 m (r + i);
         if (49 \<le> ldp \<and> ldp < 58) \<and> (49 \<le> rdp \<and> rdp < 58) then do {
           d \<leftarrow> vers_digits m l r i;
           case d of Inl ret \<Rightarrow> Some ret
           | Inr j \<Rightarrow> do {
               rj \<leftarrow> ld8 m (r + j);
               dj \<leftarrow> isdigit (uint rj);
               Some (if dj then - 1 else uint li - uint ri) } }
         else do {
           dl \<leftarrow> isdigit (uint li);
           dr \<leftarrow> isdigit (uint ri);
           Some (if z \<and> dp < i \<and> (dl \<or> dr) then uint (li - 48) - uint (ri - 48)
                 else uint li - uint ri) } } }"

subsection \<open>Blocks\<close>

fun strxfrm_copy :: "mem \<Rightarrow> addr \<Rightarrow> addr \<Rightarrow> nat \<Rightarrow> nat \<Rightarrow> (mem \<times> (nat + addr \<times> nat)) option" where
  "strxfrm_copy m s1 s2 0 res = Some (m, Inr (s2, res))"
| "strxfrm_copy m s1 s2 (Suc n) res = do {
     c \<leftarrow> ld8 m s2;
     m \<leftarrow> st8 m s1 c;
     if c \<noteq> 0 then strxfrm_copy m (s1 + 1) (s2 + 1) n (res + 1) else Some (m, Inl res) }"

partial_function (option) strxfrm_count :: "mem \<Rightarrow> addr \<Rightarrow> nat \<Rightarrow> nat option" where
  "strxfrm_count m s2 res = do {
     c \<leftarrow> ld8 m s2;
     if c \<noteq> 0 then strxfrm_count m (s2 + 1) (res + 1) else Some res }"

declare strxfrm_count.simps [code]

definition strxfrm :: "mem \<Rightarrow> addr \<Rightarrow> addr \<Rightarrow> nat \<Rightarrow> (mem \<times> nat) option" where
  "strxfrm m s1 s2 n = do {
     (m, r) \<leftarrow> strxfrm_copy m s1 s2 n 0;
     case r of Inl res \<Rightarrow> Some (m, res)
     | Inr (s2, res) \<Rightarrow> do { res \<leftarrow> strxfrm_count m s2 res; Some (m, res) } }"

text \<open>The length of \<open>swab\<close> is signed; the loop does not start for a negative one.\<close>

function swab_loop :: "mem \<Rightarrow> addr \<Rightarrow> addr \<Rightarrow> nat \<Rightarrow> nat \<Rightarrow> (mem \<times> nat) option" where
  "swab_loop m from to ptr len =
     (if ptr < len then do {
        p \<leftarrow> ld8 m (from + ptr);
        q \<leftarrow> ld8 m (from + (ptr - 1));
        m \<leftarrow> st8 m (to + (ptr - 1)) p;
        m \<leftarrow> st8 m (to + ptr) q;
        swab_loop m from to (ptr + 2) len }
      else Some (m, ptr))"
  by pat_completeness auto

termination by (relation "measure (\<lambda>(_, _, _, ptr, len). len - ptr)") auto

declare swab_loop.simps [simp del]

definition swab :: "mem \<Rightarrow> addr \<Rightarrow> addr \<Rightarrow> int \<Rightarrow> mem option" where
  "swab m from to len = do {
     (m, ptr) \<leftarrow> swab_loop m from to 1 (nat len);
     if int ptr = len then st8 m (to + (ptr - 1)) 0 else Some m }"

fun timingsafe_bcmp_loop :: "mem \<Rightarrow> addr \<Rightarrow> addr \<Rightarrow> nat \<Rightarrow> byte \<Rightarrow> byte option" where
  "timingsafe_bcmp_loop m p1 p2 0 ret = Some ret"
| "timingsafe_bcmp_loop m p1 p2 (Suc n) ret = do {
     a \<leftarrow> ld8 m p1;
     b \<leftarrow> ld8 m p2;
     timingsafe_bcmp_loop m (p1 + 1) (p2 + 1) n (ret OR (a XOR b)) }"

definition timingsafe_bcmp :: "mem \<Rightarrow> addr \<Rightarrow> addr \<Rightarrow> nat \<Rightarrow> int option" where
  "timingsafe_bcmp m b1 b2 n = do {
     ret \<leftarrow> timingsafe_bcmp_loop m b1 b2 n 0;
     Some (if ret \<noteq> 0 then 1 else 0) }"

fun timingsafe_memcmp_loop :: "mem \<Rightarrow> addr \<Rightarrow> addr \<Rightarrow> nat \<Rightarrow> int \<Rightarrow> int \<Rightarrow> int option" where
  "timingsafe_memcmp_loop m p1 p2 0 res don = Some res"
| "timingsafe_memcmp_loop m p1 p2 (Suc n) res don = do {
     a \<leftarrow> ld8 m p1;
     b \<leftarrow> ld8 m p2;
     let lt = drop_bit 8 (uint a - uint b);
         gt = drop_bit 8 (uint b - uint a);
         cmp = lt - gt;
         res = res OR (cmp AND NOT don);
         don = don OR (lt OR gt) in
     timingsafe_memcmp_loop m (p1 + 1) (p2 + 1) n res don }"

definition timingsafe_memcmp :: "mem \<Rightarrow> addr \<Rightarrow> addr \<Rightarrow> nat \<Rightarrow> int option" where
  "timingsafe_memcmp m b1 b2 len = timingsafe_memcmp_loop m b1 b2 len 0 0"

subsection \<open>memrchr\<close>

fun rchr_bytes :: "mem \<Rightarrow> addr \<Rightarrow> byte \<Rightarrow> nat \<Rightarrow> addr option" where
  "rchr_bytes m src d 0 = Some NULL"
| "rchr_bytes m src d (Suc n) = do {
     c \<leftarrow> ld8 m src;
     if c = d then Some src else rchr_bytes m (src - 1) d n }"

fun rchr_unaligned :: "mem \<Rightarrow> addr \<Rightarrow> byte \<Rightarrow> nat \<Rightarrow> (addr + addr \<times> nat) option" where
  "rchr_unaligned m src d n =
     (if UNALIGNED_X src
      then (case n of 0 \<Rightarrow> Some (Inl NULL)
            | Suc n' \<Rightarrow> do {
                c \<leftarrow> ld8 m src;
                if c = d then Some (Inl src) else rchr_unaligned m (src - 1) d n' })
      else Some (Inr (src, n)))"

fun rchr_words :: "mem \<Rightarrow> addr \<Rightarrow> ulong \<Rightarrow> nat \<Rightarrow> (addr \<times> nat) option" where
  "rchr_words m asrc msk n =
     (if TOO_SMALL_LITTLE_BLOCK n then Some (asrc, n)
      else do {
        w \<leftarrow> ld64 m asrc;
        if DETECT_CHAR w msk \<noteq> 0 then Some (asrc, n)
        else rchr_words m (asrc - 8) msk (n - LITTLE_BLOCK_SIZE) })"

declare rchr_unaligned.simps [simp del] rchr_words.simps [simp del]

definition memrchr_small :: "mem \<Rightarrow> addr \<Rightarrow> int \<Rightarrow> nat \<Rightarrow> addr option" where
  "memrchr_small m src_void c len = rchr_bytes m (src_void + len - 1) (word_of_int c) len"

definition memrchr :: "mem \<Rightarrow> addr \<Rightarrow> int \<Rightarrow> nat \<Rightarrow> addr option" where
  "memrchr m src_void c len = do {
     r \<leftarrow> rchr_unaligned m (src_void + len - 1) (word_of_int c) len;
     (case r of
        Inl ret \<Rightarrow> Some ret
      | Inr (src, len) \<Rightarrow> do {
          (src, len) \<leftarrow>
            (if \<not> TOO_SMALL_LITTLE_BLOCK len
             then do {
               (asrc, len) \<leftarrow> rchr_words m (src - LITTLE_BLOCK_SIZE + 1) (fill_mask (word_of_int c)) len;
               Some (asrc + LITTLE_BLOCK_SIZE - 1, len) }
             else Some (src, len));
          rchr_bytes m src (word_of_int c) len }) }"

section \<open>Case folding\<close>

definition lower :: "byte \<Rightarrow> byte" where
  "lower b = (if 65 \<le> b \<and> b \<le> 90 then b + 32 else b)"

definition upper :: "byte \<Rightarrow> byte" where
  "upper b = (if 97 \<le> b \<and> b \<le> 122 then b - 32 else b)"


lemma byte_le_int: "(65 :: byte) \<le> b \<longleftrightarrow> 65 \<le> uint b" "b \<le> (90 :: byte) \<longleftrightarrow> uint b \<le> 90"
  "(97 :: byte) \<le> b \<longleftrightarrow> 97 \<le> uint b" "b \<le> (122 :: byte) \<longleftrightarrow> uint b \<le> 122"
  "(48 :: byte) \<le> b \<longleftrightarrow> 48 \<le> uint b" "b \<le> (57 :: byte) \<longleftrightarrow> uint b \<le> 57"
  by (simp_all add: word_le_def)

lemma uint_lower: "uint (lower b) = (if 65 \<le> uint b \<and> uint b \<le> 90 then uint b + 32 else uint b)"
  by (simp add: lower_def byte_le_int uint_word_ariths)

lemma uint_upper: "uint (upper b) = (if 97 \<le> uint b \<and> uint b \<le> 122 then uint b - 32 else uint b)"
  by (simp add: upper_def byte_le_int uint_word_ariths)

lemma tolower_byte [simp]: "tolower (uint (b :: byte)) = Some (uint (lower b))"
  by (auto simp: tolower_def isupper_def ctype_lookup_range ctype_of_def ctype_flags uint_lower)

lemma toupper_byte [simp]: "toupper (uint (b :: byte)) = Some (uint (upper b))"
  by (auto simp: toupper_def islower_def ctype_lookup_range ctype_of_def ctype_flags uint_upper)

lemma isdigit_byte [simp]: "isdigit (uint (b :: byte)) = Some (48 \<le> b \<and> b \<le> 57)"
  by (auto simp: isdigit_def ctype_lookup_range ctype_of_def ctype_flags byte_le_int)

lemma lower_eq_0 [simp]: "lower b = 0 \<longleftrightarrow> b = 0"
proof -
  have "uint (lower b) = 0 \<longleftrightarrow> uint b = 0" by (auto simp: uint_lower)
  then show ?thesis by (simp add: uint_0_iff)
qed

lemma upper_eq_0 [simp]: "upper b = 0 \<longleftrightarrow> b = 0"
proof -
  have "uint (upper b) = 0 \<longleftrightarrow> uint b = 0" by (auto simp: uint_upper)
  then show ?thesis by (simp add: uint_0_iff)
qed

lemma lower_0 [simp]: "lower 0 = 0"
  by (simp add: lower_def)

lemma uint_eq [simp]: "uint (a :: byte) = uint b \<longleftrightarrow> a = b"
  by (metis word_of_int_uint)

lemma strcasecmp_cstr:
  "cstr_at m p s \<Longrightarrow> cstr_at m q t \<Longrightarrow>
   strcasecmp m p q = Some (cmp_result (map lower s @ [0]) (map lower t @ [0]))"
proof (induction s arbitrary: p q t)
  case Nil
  then show ?case by (cases t) (subst strcasecmp.simps, auto simp: uint_0_iff)+
next
  case (Cons a s)
  then show ?case by (cases t) (subst strcasecmp.simps, auto simp: uint_0_iff)+
qed

lemma strncasecmp_cstr:
  "cstr_at m p s \<Longrightarrow> cstr_at m q t \<Longrightarrow> strncasecmp m p q n = Some (ncmp_result n (map lower s) (map lower t))"
proof (induction n arbitrary: p q s t)
  case 0
  then show ?case by (simp add: ncmp_result_def)
next
  case (Suc n)
  show ?case
  proof (cases s)
    case Nil
    then show ?thesis using Suc.prems by (cases t) (auto simp: ncmp_result_def uint_0_iff)
  next
    case (Cons a s')
    then show ?thesis using Suc by (cases t) (auto simp: ncmp_result_def uint_0_iff)
  qed
qed

lemma strlwr_loop_cstr: "cstr_at m p s \<Longrightarrow> strlwr_loop m p = Some (put m p (map lower s))"
proof (induction s arbitrary: m p)
  case Nil
  then show ?case by (subst strlwr_loop.simps) simp
next
  case (Cons a s)
  have "cstr_at (m(p \<mapsto> lower a)) (Suc p) s"
    using Cons.prems delim_at_put_disj[of p "[lower a]" "Suc p" s m 0] by (simp add: put_Cons disj_def)
  then show ?case using Cons.prems Cons.IH by (subst strlwr_loop.simps) (simp add: st8_def put_Cons)
qed

lemma strupr_loop_cstr: "cstr_at m p s \<Longrightarrow> strupr_loop m p = Some (put m p (map upper s))"
proof (induction s arbitrary: m p)
  case Nil
  then show ?case by (subst strupr_loop.simps) simp
next
  case (Cons a s)
  have "cstr_at (m(p \<mapsto> upper a)) (Suc p) s"
    using Cons.prems delim_at_put_disj[of p "[upper a]" "Suc p" s m 0] by (simp add: put_Cons disj_def)
  then show ?case using Cons.prems Cons.IH by (subst strupr_loop.simps) (simp add: st8_def put_Cons)
qed

section \<open>Constant time comparison\<close>

lemma timingsafe_bcmp_loop_rd:
  "rd m p n = Some xs \<Longrightarrow> rd m q n = Some ys \<Longrightarrow>
   \<exists>r. timingsafe_bcmp_loop m p q n acc = Some r \<and> (r = 0 \<longleftrightarrow> acc = 0 \<and> xs = ys)"
proof (induction n arbitrary: p q xs ys acc)
  case 0
  then show ?case by simp
next
  case (Suc n)
  obtain a xs' where xs: "xs = a # xs'" "m p = Some a" "rd m (Suc p) n = Some xs'"
    using Suc.prems(1) by (auto simp: bind_eq_Some_conv)
  obtain b ys' where ys: "ys = b # ys'" "m q = Some b" "rd m (Suc q) n = Some ys'"
    using Suc.prems(2) by (auto simp: bind_eq_Some_conv)
  have "acc OR (a XOR b) = 0 \<longleftrightarrow> acc = 0 \<and> a = b"
    by (auto simp: bit_eq_iff bit_simps)
  then show ?case using Suc.IH[OF xs(3) ys(3), of "acc OR (a XOR b)"] xs ys by auto
qed

lemma int_diff_div:
  fixes x y :: int
  assumes "0 \<le> x" "x < 256" "0 \<le> y" "y < 256"
  shows "(x - y) div 256 = (if x < y then - 1 else 0)"
proof (cases "x < y")
  case True
  have "(x - y) div 256 = (x - y + 256) div 256 - 1" by simp
  also have "(x - y + 256) div 256 = 0" by (rule div_pos_pos_trivial) (use assms True in auto)
  finally show ?thesis using True by simp
next
  case False
  have "(x - y) div 256 = 0" by (rule div_pos_pos_trivial) (use assms False in auto)
  then show ?thesis using False by simp
qed

lemma byte_diff_shift:
  "drop_bit 8 (uint (a :: byte) - uint (b :: byte)) = (if a < b then - 1 else 0)"
  using int_diff_div[of "uint a" "uint b"] uint_lt2p[of a] uint_lt2p[of b]
  by (simp add: drop_bit_eq_div word_less_def)

lemma timingsafe_memcmp_loop_done:
  "rd m p n = Some xs \<Longrightarrow> rd m q n = Some ys \<Longrightarrow> timingsafe_memcmp_loop m p q n res (- 1) = Some res"
  by (induction n arbitrary: p q xs ys) (auto simp: bind_eq_Some_conv Let_def)

lemma timingsafe_memcmp_loop_rd:
  "rd m p n = Some xs \<Longrightarrow> rd m q n = Some ys \<Longrightarrow>
   timingsafe_memcmp_loop m p q n 0 0 = Some (sgn (cmp_result xs ys))"
proof (induction n arbitrary: p q xs ys)
  case 0
  then show ?case by simp
next
  case (Suc n)
  obtain a xs' where xs: "xs = a # xs'" "m p = Some a" "rd m (Suc p) n = Some xs'"
    using Suc.prems(1) by (auto simp: bind_eq_Some_conv)
  obtain b ys' where ys: "ys = b # ys'" "m q = Some b" "rd m (Suc q) n = Some ys'"
    using Suc.prems(2) by (auto simp: bind_eq_Some_conv)
  consider "a = b" | "a < b" | "b < a" using linorder_less_linear[of a b] by blast
  then show ?case
    using Suc.IH[OF xs(3) ys(3)] xs ys timingsafe_memcmp_loop_done[OF xs(3) ys(3)]
    by cases (auto simp: Let_def byte_diff_shift word_less_def sgn_if)
qed


section \<open>Swapping bytes\<close>

fun swapped :: "byte list \<Rightarrow> byte list" where
  "swapped (a # b # r) = b # a # swapped r"
| "swapped [a] = [0]"
| "swapped [] = []"

lemma length_swapped [simp]: "length (swapped xs) = length xs"
  by (induction xs rule: swapped.induct) auto

lemma swab_loop_rd:
  assumes "rd m (from + k) (length xs) = Some xs" "mapped m (to + k) (length xs)"
    "disj (from + k) (length xs) (to + k) (length xs) \<or> from = to" "len = k + length xs"
  shows "do { (m, ptr) \<leftarrow> swab_loop m from to (Suc k) len;
      if ptr = len then st8 m (to + (ptr - 1)) 0 else Some m } = Some (put m (to + k) (swapped xs))"
  using assms
proof (induction xs arbitrary: m k rule: swapped.induct)
  case (1 a b r)
  have ab: "m (from + k) = Some a" "m (from + Suc k) = Some b" "rd m (from + Suc (Suc k)) (length r) = Some r"
    using "1.prems"(1) by (auto simp: bind_eq_Some_conv)
  have to: "m (to + k) \<noteq> None" "m (to + Suc k) \<noteq> None" "mapped m (to + Suc (Suc k)) (length r)"
    using "1.prems"(2) by (simp_all add: mapped_Suc)
  define m1 where "m1 = m(to + k \<mapsto> b, to + Suc k \<mapsto> a)"
  have m1: "m1 = put m (to + k) [b, a]" by (simp add: m1_def put_Cons)
  have "rd m1 (from + Suc (Suc k)) (length r) = Some r"
    using ab(3) "1.prems"(3) unfolding m1 by (subst rd_put_disj) (auto simp: disj_def)
  moreover have "mapped m1 (to + Suc (Suc k)) (length r)" using to(3) unfolding m1 by (rule mapped_put)
  moreover have "disj (from + Suc (Suc k)) (length r) (to + Suc (Suc k)) (length r) \<or> from = to"
    using "1.prems"(3) by (auto simp: disj_def)
  ultimately have "do { (m, ptr) \<leftarrow> swab_loop m1 from to (Suc (Suc (Suc k))) len;
      if ptr = len then st8 m (to + (ptr - 1)) 0 else Some m } = Some (put m1 (to + Suc (Suc k)) (swapped r))"
    using "1.IH"[of m1 "Suc (Suc k)"] "1.prems"(4) by simp
  then show ?case using ab to "1.prems"(4)
    by (subst swab_loop.simps) (auto simp: st8_def put_Cons m1_def)
next
  case (2 a)
  then show ?case by (subst swab_loop.simps) (simp add: st8_Some mapped_Suc put_Cons)
next
  case 3
  then show ?case by (subst swab_loop.simps) simp
qed

section \<open>Version comparison\<close>

lemma vers_prefix_cstr:
  assumes "cstr_at m l s" "cstr_at m r t"
  shows "i \<le> length s \<Longrightarrow> i \<le> length t \<Longrightarrow> take i s = take i t \<Longrightarrow> dp \<le> i \<Longrightarrow>
    if s = t then vers_prefix m l r i dp z = Some (Inl 0)
    else \<exists>k dp' z'. vers_prefix m l r i dp z = Some (Inr (k, dp', z')) \<and> dp' \<le> k \<and>
      k \<le> length s \<and> k \<le> length t \<and> (s @ [0]) ! k \<noteq> (t @ [0]) ! k"
proof (induction "length s - i" arbitrary: i dp z)
  case 0
  then have i: "i = length s" by simp
  have t: "(t @ [0]) ! i = 0 \<longleftrightarrow> i = length t"
    using delim_at_notin[OF assms(2)] 0(3) by (auto simp: nth_append) (metis le_neq_implies_less nth_mem)
  have "s = t \<longleftrightarrow> i = length t" using 0(4) i by auto
  then show ?case using delim_at_nth[OF assms(1), of i] delim_at_nth[OF assms(2), of i] i t 0(3,5)
    by (subst (1 2) vers_prefix.simps) (auto simp: nth_append)
next
  case (Suc n)
  then have i: "i < length s" by simp
  have si: "m (l + i) = Some (s ! i)" "s ! i \<noteq> 0"
    using delim_at_nth[OF assms(1), of i] i delim_at_notin[OF assms(1)] by (auto simp: nth_append) (metis nth_mem)
  have ti: "m (r + i) = Some ((t @ [0]) ! i)" using delim_at_nth[OF assms(2), of i] Suc.prems(2) by simp
  show ?case
  proof (cases "(t @ [0]) ! i = s ! i")
    case False
    then have "s \<noteq> t" using i by (auto simp: nth_append)
    then show ?thesis using False si ti i Suc.prems by (subst vers_prefix.simps) (auto simp: nth_append)
  next
    case True
    then have it: "i < length t" "t ! i = s ! i" using Suc.prems(2) si(2) by (auto simp: nth_append split: if_splits)
    have eq: "take (Suc i) s = take (Suc i) t" using it Suc.prems(3) i by (simp add: take_Suc_conv_app_nth)
    have IH: "if s = t then vers_prefix m l r (Suc i) dp1 z1 = Some (Inl 0)
      else \<exists>k dp' z'. vers_prefix m l r (Suc i) dp1 z1 = Some (Inr (k, dp', z')) \<and> dp' \<le> k \<and>
        k \<le> length s \<and> k \<le> length t \<and> (s @ [0]) ! k \<noteq> (t @ [0]) ! k" if "dp1 \<le> Suc i" for dp1 z1
      by (rule Suc.hyps(1)) (use eq Suc.hyps(2) it i that in auto)
    have "vers_prefix m l r i dp z = (if \<not> (48 \<le> s ! i \<and> s ! i \<le> 57) then vers_prefix m l r (Suc i) (Suc i) True
        else if s ! i \<noteq> 48 then vers_prefix m l r (Suc i) dp False else vers_prefix m l r (Suc i) dp z)"
      using si ti True by (subst vers_prefix.simps) simp
    then have "\<exists>dp1 z1. dp1 \<le> Suc i \<and> vers_prefix m l r i dp z = vers_prefix m l r (Suc i) dp1 z1"
      using Suc.prems(4) by (metis le_SucI order_refl)
    then show ?thesis using IH by metis
  qed
qed

lemma vers_digits_cstr:
  assumes "cstr_at m l s" "cstr_at m r t"
  shows "j \<le> length s \<Longrightarrow> j \<le> length t \<Longrightarrow>
    vers_digits m l r j = Some (Inl 1) \<or> (\<exists>k \<le> length t. vers_digits m l r j = Some (Inr k))"
proof (induction "length s - j" arbitrary: j rule: less_induct)
  case less
  have sj: "m (l + j) = Some ((s @ [0]) ! j)" and tj: "m (r + j) = Some ((t @ [0]) ! j)"
    using delim_at_nth[OF assms(1) less.prems(1)] delim_at_nth[OF assms(2) less.prems(2)] by auto
  let ?d = "\<lambda>b. 48 \<le> b \<and> b \<le> (57 :: byte)"
  show ?case
  proof (cases "?d ((s @ [0]) ! j) \<and> ?d ((t @ [0]) ! j)")
    case True
    have "(s @ [0]) ! length s = 0" "(t @ [0]) ! length t = 0" by simp_all
    then have "j \<noteq> length s" "j \<noteq> length t" using True by auto
    then have "j < length s" "j < length t" using less.prems by auto
    then show ?thesis using True sj tj less.hyps[of "Suc j"] by (subst (1 2) vers_digits.simps) simp
  next
    case False
    then show ?thesis using sj tj less.prems by (subst (1 2) vers_digits.simps) auto
  qed
qed

lemma strverscmp_cstr:
  assumes "cstr_at m l s" "cstr_at m r t"
  shows "\<exists>v. strverscmp m l r = Some v \<and> (v = 0 \<longleftrightarrow> s = t)"
proof (cases "s = t")
  case True
  then show ?thesis using vers_prefix_cstr[OF assms, of 0 0 True] by (simp add: strverscmp_def)
next
  case False
  then obtain k dp z where k: "vers_prefix m l r 0 0 True = Some (Inr (k, dp, z))" "dp \<le> k"
    "k \<le> length s" "k \<le> length t" "(s @ [0]) ! k \<noteq> (t @ [0]) ! k"
    using vers_prefix_cstr[OF assms, of 0 0 True] by auto
  have at: "m (l + i) = Some ((s @ [0]) ! i)" if "i \<le> length s" for i using delim_at_nth[OF assms(1) that] .
  have rt: "m (r + i) = Some ((t @ [0]) ! i)" if "i \<le> length t" for i using delim_at_nth[OF assms(2) that] .
  have ne: "uint ((s @ [0]) ! k - 48) - uint ((t @ [0]) ! k - 48) \<noteq> 0"
    "uint ((s @ [0]) ! k) - uint ((t @ [0]) ! k) \<noteq> 0" using k(5) by auto
  show ?thesis using vers_digits_cstr[OF assms k(3,4)] False k at[of dp] at[of k] rt[of dp] rt[of k] rt ne
    by (auto simp: strverscmp_def)
qed

section \<open>memrchr\<close>

lemma rchr_bytes_rd:
  "rd m p n = Some bs \<Longrightarrow> 0 < p \<Longrightarrow>
   rchr_bytes m (p + n - 1) d n = Some (if d \<in> set bs then p + (n - Suc (length (takeWhile (\<lambda>b. b \<noteq> d) (rev bs)))) else NULL)"
proof (induction n arbitrary: bs)
  case 0
  then show ?case by simp
next
  case (Suc n)
  have len: "length bs = Suc n" using Suc.prems(1) by (rule rd_length)
  then obtain bs' b where bs: "bs = bs' @ [b]" "length bs' = n" by (metis length_Suc_conv_rev)
  have "rd m p (length bs' + 1) = Some (bs' @ [b])" using Suc.prems(1) bs by simp
  then have "rd m p n = Some bs'" "m (p + n) = Some b"
    using rd_append_iff[of m p bs' 1 "[b]"] bs(2) by (auto simp: bind_eq_Some_conv)
  then show ?case using Suc.IH[of bs'] Suc.prems(2) bs by auto
qed

text \<open>
  The word loop of \<open>memrchr\<close> is entered with the last byte of its first word at a multiple of the
  word size, so the word itself is never aligned.
\<close>

lemma memrchr_words_misaligned:
  assumes "\<not> UNALIGNED_X (p + n - 1)" "8 \<le> n" "0 < p"
  shows "memrchr m p c n = None"
proof -
  have "(p + n - 1 - LITTLE_BLOCK_SIZE + 1) mod 8 = 1"
  proof -
    obtain k where k: "p + n - 1 = 8 * k" using assms(1) by (auto simp: UNALIGNED_X_def)
    then obtain k' where "k = Suc k'" using assms(2,3) by (cases k) auto
    then show ?thesis using k by (simp add: LITTLE_BLOCK_SIZE_def)
  qed
  then have w: "rchr_words m (p + n - 1 - LITTLE_BLOCK_SIZE + 1) (fill_mask (word_of_int c)) n = None"
    using assms(2) by (subst rchr_words.simps) (simp add: TOO_SMALL_LITTLE_BLOCK_def LITTLE_BLOCK_SIZE_def ld64_def)
  have "rchr_unaligned m (p + n - 1) (word_of_int c) n = Some (Inr (p + n - 1, n))"
    using assms(1) by (subst rchr_unaligned.simps) simp
  then show ?thesis using w assms(2) unfolding memrchr_def
    by (simp only: bind.bind_lunit sum.case prod.case) (simp add: TOO_SMALL_LITTLE_BLOCK_def LITTLE_BLOCK_SIZE_def)
qed


section \<open>Properties\<close>

text \<open>
  C32: \<open>strcasecmp\<close> is the lexicographic comparison of the strings with their
  ASCII letters in lower case, and \<open>strncasecmp\<close> is zero exactly when the first \<open>n\<close> bytes
  agree without regard to case.
\<close>

theorem strcasecmp_folds:
  assumes "cstr_at m p s" "cstr_at m q t"
  shows "\<exists>r. strcasecmp m p q = Some r \<and>
    (r = 0 \<longleftrightarrow> map lower s = map lower t) \<and>
    (r < 0 \<longleftrightarrow> (map lower s, map lower t) \<in> lexord {(a, b). a < b}) \<and>
    (\<exists>r'. strncasecmp m p q n = Some r' \<and> (r' = 0 \<longleftrightarrow> take n (map lower s) = take n (map lower t)))"
proof -
  have "0 \<notin> set (map lower u)" if "0 \<notin> set u" for u using that by (induction u) auto
  then have "0 \<notin> set (map lower s)" "0 \<notin> set (map lower t)"
    using delim_at_notin[OF assms(1)] delim_at_notin[OF assms(2)] by blast+
  then show ?thesis using strcasecmp_cstr[OF assms] strncasecmp_cstr[OF assms, of n]
      cmp_result_cstr_eq[of "map lower s" "map lower t"] cmp_result_cstr_less[of "map lower s" "map lower t"]
      ncmp_result_eq_0[of "map lower s" "map lower t" n] by simp
qed

theorem strcasecmp_folds_witness:
  "\<exists>r. strcasecmp (mem_image 16 [0x48, 0x69, 0, 0x68, 0x49, 0]) 16 19 = Some r \<and> r = 0"
proof -
  have 1: "cstr_at (mem_image 16 [0x48, 0x69, 0, 0x68, 0x49, 0]) 16 [0x48, 0x69]"
    "cstr_at (mem_image 16 [0x48, 0x69, 0, 0x68, 0x49, 0]) 19 [0x68, 0x49]" by code_simp+
  have 2: "map lower [0x48, 0x69] = map lower [0x68, 0x49]" by code_simp
  show ?thesis using strcasecmp_folds[OF 1, of 0] 2 by blast
qed

text \<open>
  The branch free comparisons agree with \<open>memcmp\<close>: \<open>timingsafe_memcmp\<close> is the
  sign of its result and \<open>timingsafe_bcmp\<close> is 0 exactly when the blocks are equal, 1 otherwise.
\<close>

theorem timingsafe_agree:
  assumes "mapped m p n" "mapped m q n"
  shows "\<exists>r. memcmp m p q n = Some r \<and> timingsafe_memcmp m p q n = Some (sgn r) \<and>
    timingsafe_bcmp m p q n = Some (if r = 0 then 0 else 1)"
proof -
  obtain xs ys where xy: "rd m p n = Some xs" "rd m q n = Some ys" using assms unfolding rd_mapped by auto
  have "cmp_result xs ys = 0 \<longleftrightarrow> xs = ys" using xy by (simp add: rd_length cmp_result_eq_0)
  then show ?thesis using memcmp_result[OF xy] timingsafe_memcmp_loop_rd[OF xy] timingsafe_bcmp_loop_rd[OF xy, of 0]
    by (auto simp: timingsafe_memcmp_def timingsafe_bcmp_def)
qed

theorem timingsafe_agree_witness:
  "\<exists>r. memcmp (mem_image 16 [1, 2, 3, 1, 9, 3]) 16 19 3 = Some r \<and>
    timingsafe_memcmp (mem_image 16 [1, 2, 3, 1, 9, 3]) 16 19 3 = Some (sgn r)"
proof -
  have 1: "mapped (mem_image 16 [1, 2, 3, 1, 9, 3]) 16 3" "mapped (mem_image 16 [1, 2, 3, 1, 9, 3]) 19 3" by code_simp+
  show ?thesis using timingsafe_agree[OF 1] by blast
qed

end
