(* ===== verification/TwoWay.thy ===== *)
theory TwoWay
  imports StrMisc
begin

text \<open>
  The two way string search of \<open>newlib/libc/string/str-two-way.h\<close>, which \<open>strstr\<close>, \<open>memmem\<close> and \<open>strcasestr\<close>
  include for long needles.
\<close>

section \<open>The two way algorithm\<close>

text \<open>
  The macros that \<open>str-two-way.h\<close> is included with are parameters: \<open>canon\<close> is \<open>CANON_ELEMENT\<close>,
  \<open>cmp\<close> is \<open>CMP_FUNC\<close> and \<open>avail\<close> is \<open>AVAILABLE\<close>, which also returns the new known length of the
  haystack. The index \<open>max_suffix\<close>, which starts at \<open>SIZE_MAX\<close>, is kept as its successor \<open>ms\<close>.
\<close>

type_synonym available = "mem \<Rightarrow> addr \<Rightarrow> nat \<Rightarrow> nat \<Rightarrow> nat \<Rightarrow> (bool \<times> nat) option"
type_synonym comparison = "mem \<Rightarrow> addr \<Rightarrow> addr \<Rightarrow> nat \<Rightarrow> int option"

partial_function (option) max_suffix_loop ::
    "(byte \<Rightarrow> byte) \<Rightarrow> (byte \<Rightarrow> byte \<Rightarrow> bool) \<Rightarrow> mem \<Rightarrow> addr \<Rightarrow> nat \<Rightarrow> nat \<times> nat \<times> nat \<times> nat \<Rightarrow> (nat \<times> nat) option" where
  "max_suffix_loop canon lt m needle needle_len st =
     (case st of (ms, j, k, p) \<Rightarrow>
      if j + k < needle_len then do {
        a \<leftarrow> ld8 m (needle + (j + k));
        b \<leftarrow> ld8 m (needle + (ms + k - 1));
        if lt (canon a) (canon b) then
          max_suffix_loop canon lt m needle needle_len (ms, j + k, 1, j + k + 1 - ms)
        else if canon a = canon b then
          if k \<noteq> p then max_suffix_loop canon lt m needle needle_len (ms, j, k + 1, p)
          else max_suffix_loop canon lt m needle needle_len (ms, j + p, 1, p)
        else max_suffix_loop canon lt m needle needle_len (j + 1, j + 1, 1, 1) }
      else Some (ms, p))"

declare max_suffix_loop.simps [code]

text \<open>The result is the index of the right half and its period.\<close>

definition critical_factorization ::
    "(byte \<Rightarrow> byte) \<Rightarrow> mem \<Rightarrow> addr \<Rightarrow> nat \<Rightarrow> (nat \<times> nat) option" where
  "critical_factorization canon m needle needle_len = do {
     (max_suffix, period) \<leftarrow> max_suffix_loop canon (<) m needle needle_len (0, 0, 1, 1);
     (max_suffix_rev, p) \<leftarrow> max_suffix_loop canon (>) m needle needle_len (0, 0, 1, 1);
     if max_suffix_rev < max_suffix then Some (max_suffix, period)
     else Some (max_suffix_rev, p) }"

text \<open>The scans of the right half, upwards from \<open>i\<close> to \<open>lim\<close>, and of the left half, downwards from \<open>i - 1\<close> to \<open>memory\<close>.\<close>

function scan_right :: "(byte \<Rightarrow> byte) \<Rightarrow> mem \<Rightarrow> addr \<Rightarrow> addr \<Rightarrow> nat \<Rightarrow> nat \<Rightarrow> nat \<Rightarrow> nat option" where
  "scan_right canon m needle haystack j lim i =
     (if i < lim then do {
        a \<leftarrow> ld8 m (needle + i);
        b \<leftarrow> ld8 m (haystack + (i + j));
        if canon a = canon b then scan_right canon m needle haystack j lim (i + 1) else Some i }
      else Some i)"
  by pat_completeness auto

termination by (relation "measure (\<lambda>(_, _, _, _, _, lim, i). lim - i)") auto

fun scan_left :: "(byte \<Rightarrow> byte) \<Rightarrow> mem \<Rightarrow> addr \<Rightarrow> addr \<Rightarrow> nat \<Rightarrow> nat \<Rightarrow> nat \<Rightarrow> nat option" where
  "scan_left canon m needle haystack j memory i =
     (if memory < i then do {
        a \<leftarrow> ld8 m (needle + (i - 1));
        b \<leftarrow> ld8 m (haystack + (i - 1 + j));
        if canon a = canon b then scan_left canon m needle haystack j memory (i - 1) else Some i }
      else Some i)"

declare scan_right.simps [simp del] scan_left.simps [simp del]

text \<open>What does not change during a search.\<close>

record search =
  canon :: "byte \<Rightarrow> byte"
  avail :: available
  haystack :: addr
  needle :: addr
  needle_len :: nat
  suffix :: nat
  period :: nat

partial_function (option) short_periodic :: "search \<Rightarrow> mem \<Rightarrow> nat \<Rightarrow> nat \<Rightarrow> nat \<Rightarrow> addr option" where
  "short_periodic s m haystack_len j memory = do {
     (ok, haystack_len) \<leftarrow> avail s m (haystack s) haystack_len j (needle_len s);
     if \<not> ok then Some NULL
     else do {
       i \<leftarrow> scan_right (canon s) m (needle s) (haystack s) j (needle_len s) (max (suffix s) memory);
       if needle_len s \<le> i then do {
         i \<leftarrow> scan_left (canon s) m (needle s) (haystack s) j memory (suffix s);
         if i < memory + 1 then Some (haystack s + j)
         else short_periodic s m haystack_len (j + period s) (needle_len s - period s) }
       else short_periodic s m haystack_len (j + (i - suffix s + 1)) 0 } }"

partial_function (option) short_distinct :: "search \<Rightarrow> mem \<Rightarrow> nat \<Rightarrow> nat \<Rightarrow> addr option" where
  "short_distinct s m haystack_len j = do {
     (ok, haystack_len) \<leftarrow> avail s m (haystack s) haystack_len j (needle_len s);
     if \<not> ok then Some NULL
     else do {
       i \<leftarrow> scan_right (canon s) m (needle s) (haystack s) j (needle_len s) (suffix s);
       if needle_len s \<le> i then do {
         i \<leftarrow> scan_left (canon s) m (needle s) (haystack s) j 0 (suffix s);
         if i = 0 then Some (haystack s + j)
         else short_distinct s m haystack_len (j + period s) }
       else short_distinct s m haystack_len (j + (i - suffix s + 1)) } }"

declare short_periodic.simps [code] short_distinct.simps [code]

definition two_way_short_needle ::
    "(byte \<Rightarrow> byte) \<Rightarrow> comparison \<Rightarrow> available \<Rightarrow> mem \<Rightarrow> addr \<Rightarrow> nat \<Rightarrow> addr \<Rightarrow> nat \<Rightarrow> addr option" where
  "two_way_short_needle cn cmp av m hs hs_len ne ne_len = do {
     (suf, per) \<leftarrow> critical_factorization cn m ne ne_len;
     c \<leftarrow> cmp m ne (ne + per) suf;
     let s = \<lparr>canon = cn, avail = av, haystack = hs, needle = ne, needle_len = ne_len, suffix = suf, period = per\<rparr> in
     if c = 0 then short_periodic s m hs_len 0 0
     else short_distinct (s\<lparr>period := max suf (ne_len - suf) + 1\<rparr>) m hs_len 0 }"

fun fill_shift_table :: "(byte \<Rightarrow> byte) \<Rightarrow> mem \<Rightarrow> addr \<Rightarrow> nat \<Rightarrow> nat \<Rightarrow> nat \<Rightarrow> nat list \<Rightarrow> nat list option" where
  "fill_shift_table cn m ne ne_len i 0 table = Some table"
| "fill_shift_table cn m ne ne_len i (Suc n) table = do {
     c \<leftarrow> ld8 m (ne + i);
     fill_shift_table cn m ne ne_len (i + 1) n (table[unat (cn c) := ne_len - i - 1]) }"

partial_function (option) long_periodic :: "search \<Rightarrow> mem \<Rightarrow> nat list \<Rightarrow> nat \<Rightarrow> nat \<Rightarrow> nat \<Rightarrow> addr option" where
  "long_periodic s m shift_table haystack_len j memory = do {
     (ok, haystack_len) \<leftarrow> avail s m (haystack s) haystack_len j (needle_len s);
     if \<not> ok then Some NULL
     else do {
       c \<leftarrow> ld8 m (haystack s + (j + needle_len s - 1));
       let shift = shift_table ! unat (canon s c) in
       if 0 < shift then
         let shift = (if memory \<noteq> 0 \<and> shift < period s then needle_len s - period s else shift) in
         long_periodic s m shift_table haystack_len (j + shift) 0
       else do {
         i \<leftarrow> scan_right (canon s) m (needle s) (haystack s) j (needle_len s - 1) (max (suffix s) memory);
         if needle_len s - 1 \<le> i then do {
           i \<leftarrow> scan_left (canon s) m (needle s) (haystack s) j memory (suffix s);
           if i < memory + 1 then Some (haystack s + j)
           else long_periodic s m shift_table haystack_len (j + period s) (needle_len s - period s) }
         else long_periodic s m shift_table haystack_len (j + (i - suffix s + 1)) 0 } } }"

partial_function (option) long_distinct :: "search \<Rightarrow> mem \<Rightarrow> nat list \<Rightarrow> nat \<Rightarrow> nat \<Rightarrow> addr option" where
  "long_distinct s m shift_table haystack_len j = do {
     (ok, haystack_len) \<leftarrow> avail s m (haystack s) haystack_len j (needle_len s);
     if \<not> ok then Some NULL
     else do {
       c \<leftarrow> ld8 m (haystack s + (j + needle_len s - 1));
       let shift = shift_table ! unat (canon s c) in
       if 0 < shift then long_distinct s m shift_table haystack_len (j + shift)
       else do {
         i \<leftarrow> scan_right (canon s) m (needle s) (haystack s) j (needle_len s - 1) (suffix s);
         if needle_len s - 1 \<le> i then do {
           i \<leftarrow> scan_left (canon s) m (needle s) (haystack s) j 0 (suffix s);
           if i = 0 then Some (haystack s + j)
           else long_distinct s m shift_table haystack_len (j + period s) }
         else long_distinct s m shift_table haystack_len (j + (i - suffix s + 1)) } } }"

declare long_periodic.simps [code] long_distinct.simps [code]

definition two_way_long_needle ::
    "(byte \<Rightarrow> byte) \<Rightarrow> comparison \<Rightarrow> available \<Rightarrow> mem \<Rightarrow> addr \<Rightarrow> nat \<Rightarrow> addr \<Rightarrow> nat \<Rightarrow> addr option" where
  "two_way_long_needle cn cmp av m hs hs_len ne ne_len = do {
     (suf, per) \<leftarrow> critical_factorization cn m ne ne_len;
     shift_table \<leftarrow> fill_shift_table cn m ne ne_len 0 ne_len (replicate 256 ne_len);
     c \<leftarrow> cmp m ne (ne + per) suf;
     let s = \<lparr>canon = cn, avail = av, haystack = hs, needle = ne, needle_len = ne_len, suffix = suf, period = per\<rparr> in
     if c = 0 then long_periodic s m shift_table hs_len 0 0
     else long_distinct (s\<lparr>period := max suf (ne_len - suf) + 1\<rparr>) m shift_table hs_len 0 }"

end
