(* ===== verification/StrSearch.thy ===== *)
theory StrSearch
  imports TwoWay
begin

text \<open>
  The substring searches of \<open>newlib/libc/string\<close>: \<open>strstr\<close>, \<open>memmem\<close>, \<open>strnstr\<close> and \<open>strcasestr\<close>, each
  in the variant for speed and in the variant for size, and what they return: the first occurrence.

  Two details of the source have no counterpart: the \<open>int\<close> index of the small \<open>memmem\<close> (the needle has
  less than \<open>2^31\<close> bytes), and the wrap-around of \<open>offset\<close> for needles of less than 8 bytes, for which it
  is not used.
\<close>

section \<open>Definitions\<close>

subsection \<open>strstr\<close>

partial_function (option) strstr_match :: "mem \<Rightarrow> addr \<Rightarrow> addr \<Rightarrow> nat \<Rightarrow> bool option" where
  "strstr_match m hs ne i = do {
     b \<leftarrow> ld8 m (ne + i);
     if b = 0 then Some True
     else do {
       a \<leftarrow> ld8 m (hs + i);
       if a \<noteq> b then Some False else strstr_match m hs ne (i + 1) } }"

partial_function (option) strstr_small_loop :: "mem \<Rightarrow> addr \<Rightarrow> addr \<Rightarrow> byte \<Rightarrow> addr option" where
  "strstr_small_loop m hs ne c = do {
     a \<leftarrow> ld8 m hs;
     if a = 0 then Some NULL
     else if a \<noteq> c then strstr_small_loop m (hs + 1) ne c
     else do {
       ok \<leftarrow> strstr_match m hs ne 1;
       if ok then Some hs else strstr_small_loop m (hs + 1) ne c } }"

declare strstr_match.simps [code] strstr_small_loop.simps [code]

definition strstr_small :: "mem \<Rightarrow> addr \<Rightarrow> addr \<Rightarrow> addr option" where
  "strstr_small m hs ne = do {
     c \<leftarrow> ld8 m ne;
     if c = 0 then Some hs else strstr_small_loop m hs ne c }"

text \<open>
  The loop that \<open>strstr2\<close>, \<open>strstr3\<close> and \<open>strstr4\<close> share: \<open>h1\<close> is the needle and \<open>h2\<close> the last bytes of
  the haystack, both packed in 32 bits, and \<open>shift_in\<close> the update of \<open>h2\<close>.
\<close>

partial_function (option) strstr_packed ::
    "(32 word \<Rightarrow> byte \<Rightarrow> 32 word) \<Rightarrow> mem \<Rightarrow> 32 word \<Rightarrow> 32 word \<Rightarrow> addr \<Rightarrow> (32 word \<times> addr) option" where
  "strstr_packed shift_in m h1 h2 hs = do {
     c \<leftarrow> ld8 m hs;
     if h1 \<noteq> h2 \<and> c \<noteq> 0 then strstr_packed shift_in m h1 (shift_in h2 c) (hs + 1) else Some (h2, hs) }"

declare strstr_packed.simps [code]

definition strstr2 :: "mem \<Rightarrow> addr \<Rightarrow> addr \<Rightarrow> addr option" where
  "strstr2 m hs ne = do {
     n0 \<leftarrow> ld8 m ne;
     n1 \<leftarrow> ld8 m (ne + 1);
     let h1 = push_bit 16 (ucast n0) OR ucast n1;
     (h2, hs) \<leftarrow> strstr_packed (\<lambda>h2 c. push_bit 16 h2 OR ucast c) m h1 0 hs;
     Some (if h1 = h2 then hs - 2 else NULL) }"

definition strstr3 :: "mem \<Rightarrow> addr \<Rightarrow> addr \<Rightarrow> addr option" where
  "strstr3 m hs ne = do {
     n0 \<leftarrow> ld8 m ne;
     n1 \<leftarrow> ld8 m (ne + 1);
     n2 \<leftarrow> ld8 m (ne + 2);
     let h1 = push_bit 24 (ucast n0) OR push_bit 16 (ucast n1) OR push_bit 8 (ucast n2);
     (h2, hs) \<leftarrow> strstr_packed (\<lambda>h2 c. push_bit 8 (h2 OR ucast c)) m h1 0 hs;
     Some (if h1 = h2 then hs - 3 else NULL) }"

definition strstr4 :: "mem \<Rightarrow> addr \<Rightarrow> addr \<Rightarrow> addr option" where
  "strstr4 m hs ne = do {
     n0 \<leftarrow> ld8 m ne;
     n1 \<leftarrow> ld8 m (ne + 1);
     n2 \<leftarrow> ld8 m (ne + 2);
     n3 \<leftarrow> ld8 m (ne + 3);
     let h1 = push_bit 24 (ucast n0) OR push_bit 16 (ucast n1) OR push_bit 8 (ucast n2) OR ucast n3;
     (h2, hs) \<leftarrow> strstr_packed (\<lambda>h2 c. push_bit 8 h2 OR ucast c) m h1 0 hs;
     Some (if h1 = h2 then hs - 4 else NULL) }"

text \<open>The shift table of Sunday's algorithm has 64 entries of 8 bits.\<close>

fun sunday_table :: "mem \<Rightarrow> addr \<Rightarrow> nat \<Rightarrow> nat \<Rightarrow> nat \<Rightarrow> byte list \<Rightarrow> byte list option" where
  "sunday_table m ne ne_len i 0 shift = Some shift"
| "sunday_table m ne ne_len i (Suc n) shift = do {
     c \<leftarrow> ld8 m (ne + i);
     sunday_table m ne ne_len (i + 1) n (shift[unat c mod 64 := of_nat (ne_len - i)]) }"

text \<open>
  The inner loop, entered after \<open>hs += tmp\<close>: it returns \<open>Inl\<close> the match or \<open>Inr\<close> the position after \<open>fin\<close>.
\<close>

partial_function (option) sunday_inner ::
    "mem \<Rightarrow> byte list \<Rightarrow> addr \<Rightarrow> nat \<Rightarrow> addr \<Rightarrow> addr \<Rightarrow> (addr + addr) option" where
  "sunday_inner m shift ne ne_len fin hs =
     (if hs \<le> fin then do {
        c \<leftarrow> ld8 m (hs + ne_len);
        let tmp = shift ! (unat c mod 64);
        r \<leftarrow> memcmp m hs ne ne_len;
        if r = 0 then Some (Inl hs) else sunday_inner m shift ne ne_len fin (hs + unat tmp) }
      else Some (Inr hs))"

partial_function (option) sunday_outer ::
    "mem \<Rightarrow> byte list \<Rightarrow> addr \<Rightarrow> nat \<Rightarrow> addr \<Rightarrow> addr \<Rightarrow> addr option" where
  "sunday_outer m shift ne ne_len fin hs = do {
     let hs = hs - 1;
     c \<leftarrow> ld8 m (hs + ne_len);
     let tmp = shift ! (unat c mod 64);
     r \<leftarrow> sunday_inner m shift ne ne_len fin (hs + unat tmp);
     case r of Inl ret \<Rightarrow> Some ret
     | Inr hs \<Rightarrow> do {
         z \<leftarrow> ld8 m (fin + ne_len);
         if z = 0 then Some NULL
         else do {
           k \<leftarrow> strnlen m (fin + ne_len) 2048;
           let fin = fin + k in
           if hs \<le> fin then sunday_outer m shift ne ne_len fin hs else Some NULL } } }"

declare sunday_inner.simps [code] sunday_outer.simps [code]

text \<open>\<open>AVAILABLE\<close> of \<open>strstr\<close>.\<close>

definition strstr_available :: available where
  "strstr_available m h h_l j n_l =
     (if j \<le> h_l - n_l then Some (True, h_l)
      else do {
        k \<leftarrow> strnlen m (h + h_l) (n_l OR 2048);
        Some (j \<le> h_l + k - n_l, h_l + k) })"

definition strstr :: "mem \<Rightarrow> addr \<Rightarrow> addr \<Rightarrow> addr option" where
  "strstr m hs ne = do {
     n0 \<leftarrow> ld8 m ne;
     if n0 = 0 then Some hs else do {
     n1 \<leftarrow> ld8 m (ne + 1);
     if n1 = 0 then strchr m hs (uint n0) else do {
     n2 \<leftarrow> ld8 m (ne + 2);
     if n2 = 0 then strstr2 m hs ne else do {
     n3 \<leftarrow> ld8 m (ne + 3);
     if n3 = 0 then strstr3 m hs ne else do {
     n4 \<leftarrow> ld8 m (ne + 4);
     if n4 = 0 then strstr4 m hs ne else do {
     ne_len \<leftarrow> strlen m ne;
     hs_len \<leftarrow> strnlen m hs (ne_len OR 512);
     if hs_len < ne_len then Some NULL
     else if ne_len < 255 then do {
       shift \<leftarrow> sunday_table m ne ne_len 0 ne_len (replicate 64 (of_nat (ne_len + 1)));
       sunday_outer m shift ne ne_len (hs + hs_len - ne_len) hs }
     else two_way_long_needle (\<lambda>c. c) memcmp strstr_available m hs hs_len ne ne_len } } } } } }"

subsection \<open>memmem\<close>

fun memmem_match :: "mem \<Rightarrow> addr \<Rightarrow> addr \<Rightarrow> nat \<Rightarrow> nat option" where
  "memmem_match m hs ne 0 = Some 0"
| "memmem_match m hs ne (Suc i) = do {
     a \<leftarrow> ld8 m (hs + Suc i);
     b \<leftarrow> ld8 m (ne + Suc i);
     if a \<noteq> b then Some (Suc i) else memmem_match m hs ne i }"

text \<open>The loop of the small \<open>memmem\<close> runs while \<open>hs \<le> fin\<close>; \<open>k\<close> is the number of positions left.\<close>

fun memmem_small_loop :: "mem \<Rightarrow> addr \<Rightarrow> addr \<Rightarrow> nat \<Rightarrow> byte \<Rightarrow> nat \<Rightarrow> addr option" where
  "memmem_small_loop m hs ne ne_len c 0 = Some NULL"
| "memmem_small_loop m hs ne ne_len c (Suc k) = do {
     a \<leftarrow> ld8 m hs;
     if a \<noteq> c then memmem_small_loop m (hs + 1) ne ne_len c k
     else do {
       i \<leftarrow> memmem_match m hs ne (ne_len - 1);
       if i = 0 then Some hs else memmem_small_loop m (hs + 1) ne ne_len c k } }"

definition memmem_small :: "mem \<Rightarrow> addr \<Rightarrow> nat \<Rightarrow> addr \<Rightarrow> nat \<Rightarrow> addr option" where
  "memmem_small m hs hs_len ne ne_len =
     (if ne_len = 0 then Some hs
      else do {
        c \<leftarrow> ld8 m ne;
        memmem_small_loop m hs ne ne_len c (hs_len + 1 - ne_len) })"

partial_function (option) memmem2_loop ::
    "mem \<Rightarrow> addr \<Rightarrow> 32 word \<Rightarrow> addr \<Rightarrow> 32 word \<Rightarrow> (addr \<times> 32 word) option" where
  "memmem2_loop m fin nw hs hw =
     (if hs \<le> fin \<and> hw \<noteq> nw then do {
        c \<leftarrow> ld8 m (hs + 1);
        memmem2_loop m fin nw (hs + 1) (push_bit 16 hw OR ucast c) }
      else Some (hs, hw))"

definition hash2 :: "mem \<Rightarrow> addr \<Rightarrow> nat option" where
  "hash2 m p = do {
     a \<leftarrow> ld8 m p;
     b \<leftarrow> ld8 m (p - 1);
     Some (unat ((ucast a - push_bit 3 (ucast b) :: ulong) mod 256)) }"

fun pair_table :: "mem \<Rightarrow> addr \<Rightarrow> nat \<Rightarrow> nat \<Rightarrow> byte list \<Rightarrow> byte list option" where
  "pair_table m ne i 0 shift = Some shift"
| "pair_table m ne i (Suc n) shift = do {
     h \<leftarrow> hash2 m (ne + i);
     pair_table m ne (i + 1) n (shift[h := of_nat i]) }"

partial_function (option) pair_skip ::
    "mem \<Rightarrow> byte list \<Rightarrow> nat \<Rightarrow> addr \<Rightarrow> addr \<Rightarrow> (addr \<times> nat) option" where
  "pair_skip m shift m1 fin hs = do {
     let hs = hs + m1;
     h \<leftarrow> hash2 m hs;
     let tmp = unat (shift ! h) in
     if hs \<le> fin \<and> tmp = 0 then pair_skip m shift m1 fin hs else Some (hs, tmp) }"

partial_function (option) memmem_loop ::
    "mem \<Rightarrow> byte list \<Rightarrow> addr \<Rightarrow> nat \<Rightarrow> nat \<Rightarrow> addr \<Rightarrow> addr \<Rightarrow> nat \<Rightarrow> addr option" where
  "memmem_loop m shift ne m1 shift1 fin hs offset =
     (if hs \<le> fin then do {
        (hs, tmp) \<leftarrow> pair_skip m shift m1 fin hs;
        let hs = hs - tmp in
        if tmp < m1 then memmem_loop m shift ne m1 shift1 fin hs offset
        else do {
          f \<leftarrow> (if m1 \<le> 15 then Some 0 else memcmp m (hs + offset) (ne + offset) 8);
          if f = 0 then do {
            r \<leftarrow> memcmp m hs ne m1;
            if r = 0 then Some hs
            else memmem_loop m shift ne m1 shift1 fin (hs + shift1) ((if offset \<ge> 8 then offset else m1) - 8) }
          else memmem_loop m shift ne m1 shift1 fin (hs + shift1) offset } }
      else Some NULL)"

declare memmem2_loop.simps [code] pair_skip.simps [code] memmem_loop.simps [code]

text \<open>\<open>AVAILABLE\<close> of \<open>memmem\<close>.\<close>

definition memmem_available :: available where
  "memmem_available m h h_l j n_l = Some (j \<le> h_l - n_l, h_l)"

definition memmem :: "mem \<Rightarrow> addr \<Rightarrow> nat \<Rightarrow> addr \<Rightarrow> nat \<Rightarrow> addr option" where
  "memmem m hs hs_len ne ne_len =
     (if ne_len = 0 then Some hs
      else if ne_len = 1 then do { c \<leftarrow> ld8 m ne; memchr m hs (uint c) hs_len }
      else if hs_len < ne_len then Some NULL
      else
        let fin = hs + hs_len - ne_len in
        if ne_len = 2 then do {
          n0 \<leftarrow> ld8 m ne;
          n1 \<leftarrow> ld8 m (ne + 1);
          h0 \<leftarrow> ld8 m hs;
          h1 \<leftarrow> ld8 m (hs + 1);
          let nw = push_bit 16 (ucast n0) OR ucast n1;
          (hs, hw) \<leftarrow> memmem2_loop m fin nw (hs + 1) (push_bit 16 (ucast h0) OR ucast h1);
          Some (if hw = nw then hs - 1 else NULL) }
        else if ne_len > 256 then two_way_long_needle (\<lambda>c. c) memcmp memmem_available m hs hs_len ne ne_len
        else do {
          let m1 = ne_len - 1;
          shift \<leftarrow> pair_table m ne 1 (m1 - 1) (replicate 256 0);
          h \<leftarrow> hash2 m (ne + m1);
          let shift1 = m1 - unat (shift ! h) in
          memmem_loop m (shift[h := of_nat m1]) ne m1 shift1 fin hs 0 })"

subsection \<open>strnstr and strcasestr\<close>

definition strnstr :: "mem \<Rightarrow> addr \<Rightarrow> addr \<Rightarrow> nat \<Rightarrow> addr option" where
  "strnstr m hs ne hs_len = do {
     ne_len \<leftarrow> strnlen m ne hs_len;
     z \<leftarrow> (if ne_len < hs_len then Some 0 else ld8 m (ne + ne_len));
     if z = 0 then do {
       x \<leftarrow> memmem m hs hs_len ne ne_len;
       if x \<noteq> NULL then do {
         n \<leftarrow> memchr m hs 0 (x - hs);
         Some (if n = NULL then x else NULL) }
       else Some NULL }
     else Some NULL }"

partial_function (option) strcasestr_small_loop :: "mem \<Rightarrow> addr \<Rightarrow> addr \<Rightarrow> nat \<Rightarrow> byte \<Rightarrow> addr option" where
  "strcasestr_small_loop m s fnd len c = do {
     sc \<leftarrow> ld8 m s;
     if sc = 0 then Some NULL
     else do {
       t \<leftarrow> tolower (uint sc);
       if word_of_int t \<noteq> c then strcasestr_small_loop m (s + 1) fnd len c
       else do {
         r \<leftarrow> strncasecmp m (s + 1) fnd len;
         if r \<noteq> 0 then strcasestr_small_loop m (s + 1) fnd len c else Some s } } }"

definition strcasestr_small :: "mem \<Rightarrow> addr \<Rightarrow> addr \<Rightarrow> addr option" where
  "strcasestr_small m s fnd = do {
     c \<leftarrow> ld8 m fnd;
     if c \<noteq> 0 then do {
       c \<leftarrow> tolower (uint c);
       len \<leftarrow> strlen m (fnd + 1);
       strcasestr_small_loop m s (fnd + 1) len (word_of_int c) }
     else Some s }"

partial_function (option) strcasestr_prefix :: "mem \<Rightarrow> addr \<Rightarrow> addr \<Rightarrow> bool \<Rightarrow> (addr \<times> bool) option" where
  "strcasestr_prefix m hs ne ok = do {
     a \<leftarrow> ld8 m hs;
     b \<leftarrow> (if a \<noteq> 0 then ld8 m ne else Some 0);
     if a \<noteq> 0 \<and> b \<noteq> 0 then do {
       x \<leftarrow> tolower (uint a);
       y \<leftarrow> tolower (uint b);
       strcasestr_prefix m (hs + 1) (ne + 1) (ok \<and> x = y) }
     else Some (ne, ok) }"

declare strcasestr_small_loop.simps [code] strcasestr_prefix.simps [code]

text \<open>\<open>AVAILABLE\<close> and \<open>CANON_ELEMENT\<close> of \<open>strcasestr\<close>.\<close>

definition strcasestr_available :: available where
  "strcasestr_available m h h_l j n_l = do {
     r \<leftarrow> memchr m (h + h_l) 0 (j + n_l - h_l);
     Some (if r = NULL then (True, j + n_l) else (False, h_l)) }"

definition canon_tolower :: "byte \<Rightarrow> byte" where
  "canon_tolower c = (case tolower (uint c) of Some v \<Rightarrow> word_of_int v | None \<Rightarrow> c)"

definition strcasestr :: "mem \<Rightarrow> addr \<Rightarrow> addr \<Rightarrow> addr option" where
  "strcasestr m s fnd = do {
     (ne, ok) \<leftarrow> strcasestr_prefix m s fnd True;
     b \<leftarrow> ld8 m ne;
     if b \<noteq> 0 then Some NULL
     else if ok then Some s
     else
       let ne_len = ne - fnd; hs = s + 1; hs_len = ne_len - 1 in
       if ne_len < 32 then
         two_way_short_needle canon_tolower strncasecmp strcasestr_available m hs hs_len fnd ne_len
       else two_way_long_needle canon_tolower strncasecmp strcasestr_available m hs hs_len fnd ne_len }"

section \<open>The first occurrence\<close>

definition occurs :: "byte list \<Rightarrow> byte list \<Rightarrow> nat \<Rightarrow> bool" where
  "occurs t s i \<longleftrightarrow> i + length t \<le> length s \<and> take (length t) (drop i s) = t"

fun sub_pos :: "byte list \<Rightarrow> byte list \<Rightarrow> nat option" where
  "sub_pos t [] = (if t = [] then Some 0 else None)"
| "sub_pos t (a # s) = (if take (length t) (a # s) = t then Some 0 else map_option Suc (sub_pos t s))"

definition sub_result :: "addr \<Rightarrow> byte list \<Rightarrow> byte list \<Rightarrow> addr" where
  "sub_result p t s = (case sub_pos t s of None \<Rightarrow> NULL | Some i \<Rightarrow> p + i)"

lemma occurs_0: "occurs t s 0 \<longleftrightarrow> take (length t) s = t"
proof -
  have "length t \<le> length s" if "take (length t) s = t" using arg_cong[OF that, of length] by simp
  then show ?thesis by (auto simp: occurs_def)
qed

lemma occurs_Suc: "occurs t (a # s) (Suc i) \<longleftrightarrow> occurs t s i"
  by (simp add: occurs_def)

lemma occurs_Nil: "occurs t [] i \<longleftrightarrow> t = [] \<and> i = 0"
  by (auto simp: occurs_def)

lemma sub_pos_Some: "sub_pos t s = Some i \<longleftrightarrow> occurs t s i \<and> (\<forall>j<i. \<not> occurs t s j)"
proof (induction s arbitrary: i)
  case Nil
  then show ?case by (auto simp: occurs_Nil)
next
  case (Cons a s)
  show ?case
  proof (cases i)
    case 0
    then show ?thesis by (auto simp: occurs_0)
  next
    case (Suc k)
    then show ?thesis by (auto simp: Cons occurs_Suc occurs_0 All_less_Suc2)
  qed
qed

lemma sub_pos_None: "sub_pos t s = None \<longleftrightarrow> (\<forall>j. \<not> occurs t s j)"
proof (induction s)
  case Nil
  then show ?case by (auto simp: occurs_Nil)
next
  case (Cons a s)
  have "(\<forall>j. \<not> occurs t (a # s) j) \<longleftrightarrow> \<not> occurs t (a # s) 0 \<and> (\<forall>j. \<not> occurs t s j)"
    by (metis not0_implies_Suc occurs_Suc)
  then show ?case by (auto simp: Cons occurs_0)
qed

lemma sub_result_found: "occurs t s i \<Longrightarrow> (\<And>j. j < i \<Longrightarrow> \<not> occurs t s j) \<Longrightarrow> sub_result p t s = p + i"
  using sub_pos_Some[of t s i] by (simp add: sub_result_def)

lemma sub_result_none: "(\<And>j. \<not> occurs t s j) \<Longrightarrow> sub_result p t s = NULL"
  using sub_pos_None[of t s] by (simp add: sub_result_def)

lemma sub_result_short: "length s < length t \<Longrightarrow> sub_result p t s = NULL"
  by (rule sub_result_none) (simp add: occurs_def)

lemma sub_result_skip: "\<not> occurs t (a # s) 0 \<Longrightarrow> t \<noteq> [] \<Longrightarrow> sub_result p t (a # s) = sub_result (Suc p) t s"
  by (auto simp: sub_result_def occurs_0 split: option.splits)

lemma sub_result_chr: "sub_result p [c] s = chr_result p c s"
proof (induction s arbitrary: p)
  case Nil
  then show ?case by (simp add: sub_result_def chr_result_def)
next
  case (Cons a s)
  show ?case
  proof (cases "a = c")
    case True
    then show ?thesis by (simp add: sub_result_def chr_result_Cons)
  next
    case False
    then show ?thesis using sub_result_skip[of "[c]" a s p] Cons[of "Suc p"] by (simp add: occurs_0 chr_result_Cons)
  qed
qed

section \<open>Packed needles\<close>

text \<open>
  \<open>pack\<close> packs the last \<open>n\<close> bytes of the haystack, zeros before its start, and \<open>shift_in\<close> moves
  one more byte in.
\<close>

definition lastn :: "nat \<Rightarrow> byte list \<Rightarrow> byte list" where
  "lastn n u = drop (length u) (replicate n 0 @ u)"

lemma length_lastn [simp]: "length (lastn n u) = n"
  by (simp add: lastn_def)

lemma lastn_snoc: "0 < n \<Longrightarrow> lastn n (u @ [c]) = tl (lastn n u) @ [c]"
proof -
  assume n: "0 < n"
  have "lastn n (u @ [c]) = drop (Suc (length u)) ((replicate n 0 @ u) @ [c])" by (simp add: lastn_def)
  also have "\<dots> = drop (Suc (length u)) (replicate n 0 @ u) @ [c]" using n by (subst drop_append) simp
  finally show ?thesis by (simp only: lastn_def tl_drop drop_Suc)
qed

lemma lastn_eq:
  assumes "t \<noteq> []" "t ! 0 \<noteq> 0" "k \<le> length s"
  shows "lastn (length t) (take k s) = t \<longleftrightarrow> length t \<le> k \<and> occurs t s (k - length t)"
proof (cases "length t \<le> k")
  case True
  have "lastn (length t) (take k s) = drop (k - length t) (take k s)" using True assms(3) by (simp add: lastn_def)
  also have "\<dots> = take (length t) (drop (k - length t) s)" using True by (simp add: drop_take)
  finally show ?thesis using True assms(3) by (simp add: occurs_def)
next
  case False
  then have "lastn (length t) (take k s) ! 0 = 0" using assms(3) by (simp add: lastn_def nth_append)
  then show ?thesis using False assms(2) by metis
qed

locale packed_search =
  fixes shift_in :: "32 word \<Rightarrow> byte \<Rightarrow> 32 word" and pack :: "byte list \<Rightarrow> 32 word" and n :: nat
  assumes pos: "0 < n"
    and pack_zero: "pack (replicate n 0) = 0"
    and pack_step: "length w = n \<Longrightarrow> shift_in (pack w) c = pack (tl w @ [c])"
    and pack_inj: "length w = n \<Longrightarrow> length w' = n \<Longrightarrow> pack w = pack w' \<longleftrightarrow> w = w'"
begin

lemma packed_loop:
  assumes "cstr_at m p s" "length t = n" "t ! 0 \<noteq> 0"
  shows "k \<le> length s \<Longrightarrow> \<forall>j<k. lastn n (take j s) \<noteq> t \<Longrightarrow>
    \<exists>k'. strstr_packed shift_in m (pack t) (pack (lastn n (take k s))) (p + k) =
        Some (pack (lastn n (take k' s)), p + k') \<and> k' \<le> length s \<and> (\<forall>j<k'. lastn n (take j s) \<noteq> t) \<and>
        (lastn n (take k' s) = t \<or> k' = length s)"
proof (induction "length s - k" arbitrary: k)
  case 0
  then have k: "k = length s" by simp
  then show ?case using 0 delim_at_end[OF assms(1)] by (subst strstr_packed.simps) (auto intro: exI[of _ k])
next
  case (Suc d)
  then have k: "k < length s" by simp
  have c: "m (p + k) = Some (s ! k)" "s ! k \<noteq> 0"
    using delim_at_nth[OF assms(1), of k] k delim_at_notin[OF assms(1)] by (auto simp: nth_append) (metis nth_mem)
  show ?case
  proof (cases "lastn n (take k s) = t")
    case True
    then show ?thesis using Suc.prems c by (subst strstr_packed.simps) (auto intro: exI[of _ k])
  next
    case False
    have step: "shift_in (pack (lastn n (take k s))) (s ! k) = pack (lastn n (take (Suc k) s))"
      using pack_step[of "lastn n (take k s)" "s ! k"] k lastn_snoc[OF pos, of "take k s" "s ! k"]
      by (simp add: take_Suc_conv_app_nth)
    have ne: "pack t \<noteq> pack (lastn n (take k s))" using False pack_inj[of t "lastn n (take k s)"] assms(2) by simp
    have "\<forall>j<Suc k. lastn n (take j s) \<noteq> t" using Suc.prems(2) False less_Suc_eq by auto
    then show ?thesis using Suc.hyps(1)[of "Suc k"] Suc.hyps(2) k c ne step
      by (subst strstr_packed.simps) simp
  qed
qed

lemma packed_result:
  assumes "cstr_at m p s" "length t = n" "t ! 0 \<noteq> 0"
  shows "\<exists>h2 hs. strstr_packed shift_in m (pack t) 0 p = Some (h2, hs) \<and>
    (if pack t = h2 then hs - n else NULL) = sub_result p t s"
proof -
  have t: "t \<noteq> []" using assms(2) pos by auto
  obtain k where k: "strstr_packed shift_in m (pack t) 0 p = Some (pack (lastn n (take k s)), p + k)" "k \<le> length s"
    "\<forall>j<k. lastn n (take j s) \<noteq> t" "lastn n (take k s) = t \<or> k = length s"
    using packed_loop[OF assms(1-3), of 0] pack_zero by (auto simp: lastn_def)
  have occ: "lastn n (take j s) = t \<longleftrightarrow> n \<le> j \<and> occurs t s (j - n)" if "j \<le> length s" for j
    using lastn_eq[OF t assms(3) that] assms(2) by simp
  show ?thesis
  proof (cases "lastn n (take k s) = t")
    case True
    then have "n \<le> k" "occurs t s (k - n)" using occ[OF k(2)] by auto
    moreover have "\<not> occurs t s j" if "j < k - n" for j
      using k(2,3) occ[of "j + n"] that by auto
    ultimately have "sub_result p t s = p + (k - n)" using sub_result_found[of t s "k - n"] by blast
    then show ?thesis using k(1) True \<open>n \<le> k\<close> by auto
  next
    case False
    then have "k = length s" using k(4) by simp
    have "\<not> occurs t s j" for j
    proof
      assume o: "occurs t s j"
      then have "j + n \<le> length s" using assms(2) by (simp add: occurs_def)
      then have "lastn n (take (j + n) s) = t" using occ[of "j + n"] o by simp
      then show False using k(3) False \<open>k = length s\<close> \<open>j + n \<le> length s\<close> by (metis le_neq_implies_less)
    qed
    then have "sub_result p t s = NULL" by (rule sub_result_none)
    moreover have "pack t \<noteq> pack (lastn n (take k s))" using False pack_inj[of t "lastn n (take k s)"] assms(2) by simp
    ultimately show ?thesis using k(1) by auto
  qed
qed

end


definition pack2 :: "byte list \<Rightarrow> 32 word" where
  "pack2 w = push_bit 16 (ucast (w ! 0)) OR ucast (w ! 1)"

definition pack3 :: "byte list \<Rightarrow> 32 word" where
  "pack3 w = push_bit 24 (ucast (w ! 0)) OR push_bit 16 (ucast (w ! 1)) OR push_bit 8 (ucast (w ! 2))"

definition pack4 :: "byte list \<Rightarrow> 32 word" where
  "pack4 w = push_bit 24 (ucast (w ! 0)) OR push_bit 16 (ucast (w ! 1)) OR push_bit 8 (ucast (w ! 2)) OR ucast (w ! 3)"

lemma byte_bitI: "(\<And>n. n < 8 \<Longrightarrow> bit (a :: byte) n = bit b n) \<Longrightarrow> a = b"
  by (rule bit_word_eqI) simp

lemma bit_byte_ge: "8 \<le> k \<Longrightarrow> \<not> bit (b :: byte) k"
  using bit_imp_le_length[of b k] by auto

lemma pack2_nth: "ucast (drop_bit 16 (pack2 w)) = w ! 0" "ucast (pack2 w) = w ! 1"
  by (rule byte_bitI, simp add: pack2_def bit_simps bit_byte_ge)+

lemma pack3_nth: "ucast (drop_bit 24 (pack3 w)) = w ! 0" "ucast (drop_bit 16 (pack3 w)) = w ! 1"
  "ucast (drop_bit 8 (pack3 w)) = w ! 2"
  by (rule byte_bitI, simp add: pack3_def bit_simps bit_byte_ge)+

lemma pack4_nth: "ucast (drop_bit 24 (pack4 w)) = w ! 0" "ucast (drop_bit 16 (pack4 w)) = w ! 1"
  "ucast (drop_bit 8 (pack4 w)) = w ! 2" "ucast (pack4 w) = w ! 3"
  by (rule byte_bitI, simp add: pack4_def bit_simps bit_byte_ge)+

lemma pack2_step: "push_bit 16 (pack2 [a, b]) OR ucast c = pack2 [b, c]"
  by (rule bit_word_eqI) (auto simp: pack2_def bit_simps bit_byte_ge)

lemma pack3_step: "push_bit 8 (pack3 [a, b, c] OR ucast d) = pack3 [b, c, d]"
  by (rule bit_word_eqI) (auto simp: pack3_def bit_simps bit_byte_ge)

lemma pack4_step: "push_bit 8 (pack4 [a, b, c, d]) OR ucast e = pack4 [b, c, d, e]"
  by (rule bit_word_eqI) (auto simp: pack4_def bit_simps bit_byte_ge)

interpretation p2: packed_search "\<lambda>h2 c. push_bit 16 h2 OR ucast c" pack2 2
proof
  show "pack2 (replicate 2 0) = 0" by (simp add: pack2_def numeral_2_eq_2)
  show "push_bit 16 (pack2 w) OR ucast c = pack2 (tl w @ [c])" if "length w = 2" for w c
    using that pack2_step by (auto simp: length_Suc_conv numeral_2_eq_2)
  show "pack2 w = pack2 w' \<longleftrightarrow> w = w'" if "length w = 2" "length w' = 2" for w w'
    using that pack2_nth[of w] pack2_nth[of w'] by (auto intro!: nth_equalityI simp: less_Suc_eq numeral_eq_Suc)
qed simp

interpretation p3: packed_search "\<lambda>h2 c. push_bit 8 (h2 OR ucast c)" pack3 3
proof
  show "pack3 (replicate 3 0) = 0" by (simp add: pack3_def numeral_eq_Suc)
  show "push_bit 8 (pack3 w OR ucast c) = pack3 (tl w @ [c])" if "length w = 3" for w c
    using that pack3_step by (auto simp: length_Suc_conv numeral_3_eq_3)
  show "pack3 w = pack3 w' \<longleftrightarrow> w = w'" if "length w = 3" "length w' = 3" for w w'
    using that pack3_nth[of w] pack3_nth[of w'] by (auto intro!: nth_equalityI simp: less_Suc_eq numeral_eq_Suc)
qed simp

interpretation p4: packed_search "\<lambda>h2 c. push_bit 8 h2 OR ucast c" pack4 4
proof
  show "pack4 (replicate 4 0) = 0" by (simp add: pack4_def numeral_eq_Suc)
  show "push_bit 8 (pack4 w) OR ucast c = pack4 (tl w @ [c])" if "length w = 4" for w c
    using that pack4_step by (auto simp: length_Suc_conv eval_nat_numeral)
  show "pack4 w = pack4 w' \<longleftrightarrow> w = w'" if "length w = 4" "length w' = 4" for w w'
    using that pack4_nth[of w] pack4_nth[of w'] by (auto intro!: nth_equalityI simp: less_Suc_eq numeral_eq_Suc)
qed simp


lemma needle_nth: "cstr_at m q t \<Longrightarrow> i < length t \<Longrightarrow> m (q + i) = Some (t ! i) \<and> t ! i \<noteq> 0"
  using delim_at_nth[of m q 0 t i] delim_at_notin[of m q 0 t] by (auto simp: nth_append) (metis nth_mem)

lemma strstr2_cstr:
  assumes "cstr_at m p s" "cstr_at m q t" "length t = 2"
  shows "strstr2 m p q = Some (sub_result p t s)"
  using needle_nth[OF assms(2), of 0] needle_nth[OF assms(2), of 1] assms p2.packed_result[OF assms(1,3)]
  by (auto simp: strstr2_def pack2_def)

lemma strstr3_cstr:
  assumes "cstr_at m p s" "cstr_at m q t" "length t = 3"
  shows "strstr3 m p q = Some (sub_result p t s)"
  using needle_nth[OF assms(2), of 0] needle_nth[OF assms(2), of 1] needle_nth[OF assms(2), of 2] assms
    p3.packed_result[OF assms(1,3)]
  by (auto simp: strstr3_def pack3_def)

lemma strstr4_cstr:
  assumes "cstr_at m p s" "cstr_at m q t" "length t = 4"
  shows "strstr4 m p q = Some (sub_result p t s)"
  using needle_nth[OF assms(2), of 0] needle_nth[OF assms(2), of 1] needle_nth[OF assms(2), of 2]
    needle_nth[OF assms(2), of 3] assms p4.packed_result[OF assms(1,3)]
  by (auto simp: strstr4_def pack4_def)

section \<open>Sunday's algorithm\<close>

text \<open>A shift table is safe: no occurrence of the needle starts less than a shift further on.\<close>

definition sunday_ok :: "byte list \<Rightarrow> byte list \<Rightarrow> bool" where
  "sunday_ok t shift \<longleftrightarrow> length shift = 64 \<and>
     (\<forall>h<64. 1 \<le> unat (shift ! h) \<and> unat (shift ! h) \<le> length t + 1) \<and>
     (\<forall>i<length t. unat (shift ! (unat (t ! i) mod 64)) \<le> length t - i)"

lemma sunday_table_ok:
  assumes "rd m q (length t) = Some t" "length t < 255"
  shows "i + k = length t \<Longrightarrow> length shift = 64 \<Longrightarrow>
    \<forall>h<64. 1 \<le> unat (shift ! h) \<and> unat (shift ! h) \<le> length t + 1 \<Longrightarrow>
    \<forall>j<i. unat (shift ! (unat (t ! j) mod 64)) \<le> length t - j \<Longrightarrow>
    \<exists>shift'. sunday_table m q (length t) i k shift = Some shift' \<and> sunday_ok t shift'"
proof (induction k arbitrary: i shift)
  case 0
  then show ?case by (auto simp: sunday_ok_def)
next
  case (Suc k)
  define h where "h = unat (t ! i) mod 64"
  define v :: byte where "v = of_nat (length t - i)"
  have v: "unat v = length t - i" using assms(2) by (simp add: v_def unat_of_nat del: of_nat_diff)
  have h: "h < 64" by (simp add: h_def)
  have "m (q + i) = Some (t ! i)" using rd_nth[OF assms(1), of i] Suc.prems(1) by simp
  moreover have "\<exists>shift'. sunday_table m q (length t) (i + 1) k (shift[h := v]) = Some shift' \<and> sunday_ok t shift'"
  proof (rule Suc.IH)
    show "\<forall>h'<64. 1 \<le> unat (shift[h := v] ! h') \<and> unat (shift[h := v] ! h') \<le> length t + 1"
      using Suc.prems(1,2,3) v h by (auto simp: nth_list_update)
    show "\<forall>j<i + 1. unat (shift[h := v] ! (unat (t ! j) mod 64)) \<le> length t - j"
    proof (intro allI impI)
      fix j assume "j < i + 1"
      then have "j = i \<or> j < i" by auto
      then show "unat (shift[h := v] ! (unat (t ! j) mod 64)) \<le> length t - j"
      proof
        assume "j = i"
        then show ?thesis using v h Suc.prems(2) by (simp add: h_def[symmetric])
      next
        assume "j < i"
        then show ?thesis using v h Suc.prems(2,4) by (cases "unat (t ! j) mod 64 = h") auto
      qed
    qed
  qed (use Suc.prems in auto)
  ultimately show ?case by (simp add: h_def v_def del: of_nat_diff)
qed

lemma sunday_skip:
  assumes "sunday_ok t shift" "occurs t s j" "j \<le> x" "x < j + length t"
  shows "x + unat (shift ! (unat ((s @ [0]) ! x) mod 64)) \<le> j + length t"
proof -
  have le: "j + length t \<le> length s" and eq: "take (length t) (drop j s) = t" using assms(2) by (auto simp: occurs_def)
  from le have "(s @ [0]) ! x = take (length t) (drop j s) ! (x - j)" using assms(3,4) by (simp add: nth_append)
  then have "t ! (x - j) = (s @ [0]) ! x" unfolding eq by simp
  then have "unat (shift ! (unat ((s @ [0]) ! x) mod 64)) \<le> length t - (x - j)"
    using assms by (auto simp: sunday_ok_def dest!: spec[of _ "x - j"])
  then show ?thesis using assms(3,4) by linarith
qed

lemma memcmp_occurs:
  assumes "rd m p (length s) = Some s" "rd m q (length t) = Some t" "k + length t \<le> length s"
  shows "\<exists>r. memcmp m (p + k) q (length t) = Some r \<and> (r = 0 \<longleftrightarrow> occurs t s k)"
proof -
  let ?u = "take (length t) (drop k s)"
  have "rd m (p + k) (length s - k) = Some (drop k s)" using rd_drop[OF assms(1), of k] assms(3) by simp
  then have "rd m (p + k) (length t) = Some ?u" using rd_take[of m "p + k" _ "drop k s" "length t"] assms(3) by simp
  then show ?thesis using memcmp_result[OF _ assms(2)] cmp_result_eq_0[of ?u t] assms(3) by (auto simp: occurs_def)
qed

lemma sunday_inner_ok:
  assumes "cstr_at m p s" "cstr_at m q t" "sunday_ok t shift" "t \<noteq> []" "f + length t \<le> length s"
  shows "\<forall>j<k. \<not> occurs t s j \<Longrightarrow> k \<le> f + length t + 1 \<Longrightarrow>
    (\<exists>k'. sunday_inner m shift q (length t) (p + f) (p + k) = Some (Inl (p + k')) \<and> occurs t s k' \<and> (\<forall>j<k'. \<not> occurs t s j)) \<or>
    (\<exists>k'. sunday_inner m shift q (length t) (p + f) (p + k) = Some (Inr (p + k')) \<and> f < k' \<and> k' \<le> f + length t + 1 \<and>
       (\<forall>j<k'. \<not> occurs t s j))"
proof (induction "Suc f - k" arbitrary: k rule: less_induct)
  case less
  show ?case
  proof (cases "k \<le> f")
    case False
    then show ?thesis using less.prems by (subst (1 2) sunday_inner.simps) auto
  next
    case True
    define x where "x = k + length t"
    define tmp where "tmp = unat (shift ! (unat ((s @ [0]) ! x) mod 64))"
    have xs: "x \<le> length s" using True assms(5) by (simp add: x_def)
    have c: "m (p + k + length t) = Some ((s @ [0]) ! x)" using delim_at_nth[OF assms(1) xs] by (simp add: x_def add.assoc)
    have tmp: "1 \<le> tmp" "tmp \<le> length t + 1" using assms(3) by (simp_all add: sunday_ok_def tmp_def)
    obtain r where r: "memcmp m (p + k) q (length t) = Some r" "r = 0 \<longleftrightarrow> occurs t s k"
      using memcmp_occurs[OF delim_at_rd_body[OF assms(1)] delim_at_rd_body[OF assms(2)], of k] xs x_def by auto
    have step: "sunday_inner m shift q (length t) (p + f) (p + k) =
        (if occurs t s k then Some (Inl (p + k)) else sunday_inner m shift q (length t) (p + f) (p + (k + tmp)))"
      using True c r by (subst sunday_inner.simps) (simp add: tmp_def add.assoc)
    show ?thesis
    proof (cases "occurs t s k")
      case True
      then show ?thesis using step less.prems by auto
    next
      case no: False
      have "\<forall>j<k + tmp. \<not> occurs t s j"
      proof (intro allI impI notI)
        fix j assume j: "j < k + tmp" "occurs t s j"
        then have "k < j" using less.prems(1) no by (metis linorder_neqE_nat)
        then have "x + tmp \<le> j + length t"
          unfolding tmp_def using sunday_skip[OF assms(3) j(2), of x] j tmp x_def by auto
        then show False using j(1) by (simp add: x_def)
      qed
      then show ?thesis unfolding step using no less.hyps[of "k + tmp"] tmp True by auto
    qed
  qed
qed

lemma sunday_outer_ok:
  assumes "cstr_at m p s" "cstr_at m q t" "sunday_ok t shift" "t \<noteq> []" "length t < 255" "p \<noteq> NULL"
  shows "k \<le> f \<Longrightarrow> f + length t \<le> length s \<Longrightarrow> \<forall>j<k. \<not> occurs t s j \<Longrightarrow>
    sunday_outer m shift q (length t) (p + f) (p + k) = Some (sub_result p t s)"
proof (induction "length s - f" arbitrary: k f rule: less_induct)
  case less
  define x where "x = k + length t - 1"
  define tmp where "tmp = unat (shift ! (unat ((s @ [0]) ! x) mod 64))"
  have n: "0 < length t" using assms(4) by simp
  have xs: "x \<le> length s" using less.prems by (simp add: x_def)
  have tmp: "1 \<le> tmp" "tmp \<le> length t + 1" using assms(3) by (simp_all add: sunday_ok_def tmp_def)
  have ax: "p + k - 1 + length t = p + x" unfolding x_def using n assms(6) by linarith
  have start: "p + k - 1 + tmp = p + (k + tmp - 1)" using tmp assms(6) by simp
  have c: "m (p + k - 1 + length t) = Some ((s @ [0]) ! x)" unfolding ax using delim_at_nth[OF assms(1) xs] .
  have clear: "\<forall>j<k + tmp - 1. \<not> occurs t s j"
  proof (intro allI impI notI)
    fix j assume j: "j < k + tmp - 1" "occurs t s j"
    then have kj: "k \<le> j" using less.prems(3) by (metis not_le)
    have jx: "j \<le> x" "x < j + length t" using j(1) kj tmp n by (auto simp: x_def)
    have "x + tmp \<le> j + length t" unfolding tmp_def by (rule sunday_skip[OF assms(3) j(2) jx])
    then show False using j(1) n by (simp add: x_def)
  qed
  have le: "k + tmp - 1 \<le> f + length t + 1" using tmp less.prems(1) by simp
  note inner = sunday_inner_ok[OF assms(1-4) less.prems(2) clear le]
  have unf: "sunday_outer m shift q (length t) (p + f) (p + k) = do {
     r \<leftarrow> sunday_inner m shift q (length t) (p + f) (p + (k + tmp - 1));
     case r of Inl ret \<Rightarrow> Some ret
     | Inr hs \<Rightarrow> do {
         z \<leftarrow> ld8 m (p + f + length t);
         if z = 0 then Some NULL
         else do {
           k \<leftarrow> strnlen m (p + f + length t) 2048;
           let fin = p + f + k in
           if hs \<le> fin then sunday_outer m shift q (length t) fin hs else Some NULL } } }"
    using c start by (subst sunday_outer.simps) (simp add: Let_def tmp_def)
  from inner show ?case
  proof
    assume "\<exists>k'. sunday_inner m shift q (length t) (p + f) (p + (k + tmp - 1)) = Some (Inl (p + k')) \<and> occurs t s k' \<and> (\<forall>j<k'. \<not> occurs t s j)"
    then show ?thesis using unf sub_result_found[of t s] by auto
  next
    assume "\<exists>k'. sunday_inner m shift q (length t) (p + f) (p + (k + tmp - 1)) = Some (Inr (p + k')) \<and> f < k' \<and> k' \<le> f + length t + 1 \<and>
       (\<forall>j<k'. \<not> occurs t s j)"
    then obtain k' where k': "sunday_inner m shift q (length t) (p + f) (p + (k + tmp - 1)) = Some (Inr (p + k'))" "f < k'"
      "k' \<le> f + length t + 1" "\<forall>j<k'. \<not> occurs t s j" by blast
    have last: "sub_result p t s = NULL" if "length s < k' + length t"
      by (rule sub_result_none) (use that k'(4) in \<open>auto simp: occurs_def not_less intro: leI\<close>)
    have z: "m (p + f + length t) = Some ((s @ [0]) ! (f + length t))"
      using delim_at_nth[OF assms(1) less.prems(2)] by (simp add: add.assoc)
    show ?thesis
    proof (cases "f + length t = length s")
      case True
      then show ?thesis using unf k' z last by simp
    next
      case False
      then have lt: "f + length t < length s" using less.prems(2) by simp
      then have nz: "(s @ [0]) ! (f + length t) \<noteq> 0" using needle_nth[OF assms(1) lt] by (simp add: nth_append)
      define g where "g = min 2048 (length s - (f + length t))"
      have "cstr_at m (p + f + length t) (drop (f + length t) s)"
        using delim_at_drop[OF assms(1) less.prems(2)] by (simp add: add.assoc)
      then have g: "strnlen m (p + f + length t) 2048 = Some g" by (simp add: strnlen_cstr g_def)
      show ?thesis
      proof (cases "k' \<le> f + g")
        case True
        have "sunday_outer m shift q (length t) (p + (f + g)) (p + k') = Some (sub_result p t s)"
          by (rule less.hyps) (use True k' lt in \<open>auto simp: g_def\<close>)
        then show ?thesis using unf k' z nz g True by (simp add: add.assoc)
      next
        case no: False
        then have "length s < k' + length t" using k'(3) assms(5) by (auto simp: g_def)
        then show ?thesis using unf k' z nz g no last by simp
      qed
    qed
  qed
qed

section \<open>strstr\<close>

lemma nat_or_ge: "(n :: nat) \<le> n OR k"
proof -
  have "int n \<le> int n OR int k" by (rule or_greater_eq) simp
  then show ?thesis by (simp flip: of_nat_or_eq)
qed

lemma strstr_cstr:
  assumes "cstr_at m p s" "cstr_at m q t" "word_mapped m" "p \<noteq> NULL" "length t < 255"
  shows "strstr m p q = Some (sub_result p t s)"
proof -
  have nth: "m (q + i) = Some ((t @ [0]) ! i)" if "i \<le> length t" for i using delim_at_nth[OF assms(2) that] .
  have nz: "(t @ [0]) ! i = 0 \<longleftrightarrow> i = length t" if "i \<le> length t" for i
    using needle_nth[OF assms(2), of i] that by (cases "i = length t") (auto simp: nth_append)
  consider "length t = 0" | "length t = 1" | "length t = 2" | "length t = 3" | "length t = 4" | "5 \<le> length t" by linarith
  then show ?thesis
  proof cases
    case 1
    then show ?thesis using nth[of 0] by (cases s) (simp_all add: strstr_def sub_result_def)
  next
    case 2
    then obtain c where t: "t = [c]" by (metis length_0_conv length_Suc_conv One_nat_def)
    have c: "c \<noteq> 0" using nz[of 0] t by simp
    have "strchr m p (uint c) = Some (chr_result p c (s @ [0]))" using strchr_cstr[OF assms(1,3), of "uint c"] by simp
    also have "chr_result p c (s @ [0]) = chr_result p c s" using c by (auto simp: chr_result_def)
    finally show ?thesis using nth[of 0] nth[of 1] c t by (simp add: strstr_def sub_result_chr)
  next
    case 3
    then show ?thesis using nth[of 0] nth[of 1] nth[of 2] nz[of 0] nz[of 1] nz[of 2] strstr2_cstr[OF assms(1,2)]
      by (simp add: strstr_def)
  next
    case 4
    then show ?thesis using nth[of 0] nth[of 1] nth[of 2] nth[of 3] nz[of 0] nz[of 1] nz[of 2] nz[of 3]
        strstr3_cstr[OF assms(1,2)] by (simp add: strstr_def)
  next
    case 5
    then show ?thesis using nth[of 0] nth[of 1] nth[of 2] nth[of 3] nth[of 4] nz[of 0] nz[of 1] nz[of 2] nz[of 3] nz[of 4]
        strstr4_cstr[OF assms(1,2)] by (simp add: strstr_def)
  next
    case 6
    define h where "h = min (length t OR 512) (length s)"
    have h: "strnlen m p (length t OR 512) = Some h" using strnlen_cstr[OF assms(1)] by (simp add: h_def)
    have l: "strlen m q = Some (length t)" using strlen_cstr[OF assms(2,3)] .
    obtain shift where sh: "sunday_table m q (length t) 0 (length t) (replicate 64 (of_nat (length t + 1))) = Some shift" "sunday_ok t shift"
      using sunday_table_ok[OF delim_at_rd_body[OF assms(2)] assms(5), of 0 "length t" "replicate 64 (of_nat (length t + 1))"]
        assms(5) by (auto simp: unat_of_nat simp del: of_nat_Suc of_nat_add)
    have ne: "t \<noteq> []" using 6 by auto
    have step: "strstr m p q = (if h < length t then Some NULL else sunday_outer m shift q (length t) (p + h - length t) p)"
      using 6 nth[of 0] nth[of 1] nth[of 2] nth[of 3] nth[of 4] nz[of 0] nz[of 1] nz[of 2] nz[of 3] nz[of 4] h l sh(1) assms(5) ne
      by (simp add: strstr_def del: of_nat_Suc of_nat_add)
    show ?thesis
    proof (cases "h < length t")
      case True
      then have "length s < length t" using nat_or_ge[of "length t" 512] by (auto simp: h_def)
      then show ?thesis using step True by (simp add: sub_result_short)
    next
      case False
      have "sunday_outer m shift q (length t) (p + (h - length t)) (p + 0) = Some (sub_result p t s)"
        by (rule sunday_outer_ok[OF assms(1,2) sh(2)]) (use 6 assms False in \<open>auto simp: h_def\<close>)
      then show ?thesis using step False by simp
    qed
  qed
qed

lemma strstr_match_cstr:
  assumes "cstr_at m q t" "cstr_at m p s"
  shows "i \<le> length t \<Longrightarrow> take i s = take i t \<Longrightarrow> i \<le> length s \<Longrightarrow>
    strstr_match m p q i = Some (take (length t) s = t)"
proof (induction "length t - i" arbitrary: i)
  case 0
  then show ?case using delim_at_end[OF assms(1)] by (subst strstr_match.simps) auto
next
  case (Suc d)
  then have i: "i < length t" by simp
  have q: "m (q + i) = Some (t ! i)" "t ! i \<noteq> 0" using needle_nth[OF assms(1) i] by auto
  have p: "m (p + i) = Some ((s @ [0]) ! i)" using delim_at_nth[OF assms(2) Suc.prems(3)] .
  show ?case
  proof (cases "(s @ [0]) ! i = t ! i")
    case True
    then have "i < length s" "s ! i = t ! i" using q(2) Suc.prems(3) by (auto simp: nth_append split: if_splits)
    then have "take (Suc i) s = take (Suc i) t" using Suc.prems(2) i by (simp add: take_Suc_conv_app_nth)
    then show ?thesis using Suc.hyps(1)[of "Suc i"] Suc.hyps(2) i \<open>i < length s\<close> q p True
      by (subst strstr_match.simps) simp
  next
    case False
    have "take (length t) s \<noteq> t"
    proof
      assume eq: "take (length t) s = t"
      then have "length t \<le> length s" by (metis length_take min.absorb_iff2)
      then have "(s @ [0]) ! i = take (length t) s ! i" using i by (simp add: nth_append)
      then show False using False eq by metis
    qed
    then show ?thesis using False q p by (subst strstr_match.simps) simp
  qed
qed

lemma strstr_small_loop_cstr:
  assumes "cstr_at m q (c # t)"
  shows "cstr_at m p s \<Longrightarrow> strstr_small_loop m p q c = Some (sub_result p (c # t) s)"
proof (induction s arbitrary: p)
  case Nil
  then show ?case by (subst strstr_small_loop.simps) (simp add: sub_result_short)
next
  case (Cons a s)
  have IH: "strstr_small_loop m (Suc p) q c = Some (sub_result (Suc p) (c # t) s)" using Cons by simp
  show ?case
  proof (cases "a = c")
    case False
    then show ?thesis using Cons.prems IH sub_result_skip[of "c # t" a s p]
      by (subst strstr_small_loop.simps) (simp add: occurs_0)
  next
    case True
    have "strstr_match m p q 1 = Some (take (length (c # t)) (a # s) = c # t)"
      using strstr_match_cstr[OF assms Cons.prems, of 1] True by simp
    then show ?thesis using Cons.prems IH True sub_result_skip[of "c # t" a s p]
      by (subst strstr_small_loop.simps) (auto simp: occurs_0 sub_result_def)
  qed
qed

lemma strstr_small_cstr:
  "cstr_at m p s \<Longrightarrow> cstr_at m q t \<Longrightarrow> strstr_small m p q = Some (sub_result p t s)"
proof (cases t)
  case Nil
  assume "cstr_at m q t"
  then show ?thesis using Nil by (cases s) (simp_all add: strstr_small_def sub_result_def)
next
  case (Cons c t')
  assume "cstr_at m p s" "cstr_at m q t"
  then show ?thesis using Cons strstr_small_loop_cstr[of m q c t' p s] by (simp add: strstr_small_def)
qed

section \<open>memmem\<close>

definition pair_hash :: "byte \<Rightarrow> byte \<Rightarrow> nat" where
  "pair_hash b a = unat ((ucast a - push_bit 3 (ucast b) :: ulong) mod 256)"

lemma pair_hash_less: "pair_hash b a < 256"
proof -
  have "(ucast a - push_bit 3 (ucast b) :: ulong) mod 256 < 256" by (rule word_mod_less_divisor) simp
  then show ?thesis by (simp add: pair_hash_def word_less_nat_alt)
qed

lemma pair_hash_inj: "pair_hash b a = pair_hash b a' \<Longrightarrow> a = a'"
proof -
  have h: "int (pair_hash b a) = (uint a - 8 * uint b) mod 256" for a :: byte
  proof -
    have uc: "uint (ucast c :: ulong) = uint c" for c :: byte by (rule uint_up_ucast) (simp add: is_up)
    have "uint (push_bit 3 (ucast b) :: ulong) = 8 * uint b"
      using uint_lt2p[of b] by (simp add: push_bit_eq_mult uint_word_ariths uc)
    then have "int (pair_hash b a) = ((uint a - 8 * uint b) mod 2 ^ 64) mod 256"
      by (simp add: pair_hash_def uint_mod uint_word_ariths uc)
    then show ?thesis by (simp add: mod_mod_cancel)
  qed
  assume "pair_hash b a = pair_hash b a'"
  then have "(uint a - 8 * uint b) mod 256 = (uint a' - 8 * uint b) mod 256" using h[of a] h[of a'] by simp
  then have "(uint a - 8 * uint b + 8 * uint b) mod 256 = (uint a' - 8 * uint b + 8 * uint b) mod 256"
    by (metis mod_add_left_eq)
  then have "uint a mod 256 = uint a' mod 256" by simp
  then show ?thesis using uint_lt2p[of a] uint_lt2p[of a'] by simp
qed


definition hash_at :: "byte list \<Rightarrow> nat \<Rightarrow> nat" where
  "hash_at u i = pair_hash (u ! (i - 1)) (u ! i)"

lemma hash2_rd:
  assumes "rd m p (length u) = Some u" "1 \<le> i" "i < length u"
  shows "hash2 m (p + i) = Some (hash_at u i)"
proof -
  have "m (p + i) = Some (u ! i)" "m (p + i - 1) = Some (u ! (i - 1))"
    using rd_nth[OF assms(1), of i] rd_nth[OF assms(1), of "i - 1"] assms(2,3) by auto
  then show ?thesis by (simp add: hash2_def hash_at_def pair_hash_def)
qed

lemma hash_at_less: "hash_at u i < 256"
  by (simp add: hash_at_def pair_hash_less)

text \<open>The table holds for each hash the last index below \<open>lim\<close> at which a pair of the needle has it.\<close>

definition pair_ok :: "byte list \<Rightarrow> byte list \<Rightarrow> nat \<Rightarrow> bool" where
  "pair_ok t shift lim \<longleftrightarrow> length shift = 256 \<and>
     (\<forall>h<256. unat (shift ! h) < lim \<and> (unat (shift ! h) \<noteq> 0 \<longrightarrow> hash_at t (unat (shift ! h)) = h)) \<and>
     (\<forall>i<lim. 1 \<le> i \<longrightarrow> i \<le> unat (shift ! hash_at t i))"

lemma pair_ok_update:
  assumes "pair_ok t shift i" "1 \<le> i" "i < 256"
  shows "pair_ok t (shift[hash_at t i := of_nat i]) (Suc i)"
proof -
  define v :: byte where "v = of_nat i"
  have v: "unat v = i" using assms(3) by (simp add: v_def unat_of_nat)
  have h: "hash_at t i < length shift" using assms(1) hash_at_less by (simp add: pair_ok_def)
  have "j \<le> unat (shift[hash_at t i := v] ! hash_at t j)" if "j < Suc i" "1 \<le> j" for j
  proof (cases "hash_at t j = hash_at t i")
    case True
    then show ?thesis using h v that by simp
  next
    case False
    then have "j < i" using that by (auto simp: less_Suc_eq)
    then show ?thesis using assms(1) that False by (simp add: pair_ok_def)
  qed
  moreover have "unat (shift[hash_at t i := v] ! k) < Suc i \<and>
      (unat (shift[hash_at t i := v] ! k) \<noteq> 0 \<longrightarrow> hash_at t (unat (shift[hash_at t i := v] ! k)) = k)" if "k < 256" for k
    using assms(1) h v that by (cases "k = hash_at t i") (auto simp: pair_ok_def less_Suc_eq)
  ultimately show ?thesis using assms(1) by (simp add: pair_ok_def v_def)
qed

lemma pair_table_ok:
  assumes "rd m q (length t) = Some t" "length t \<le> 256"
  shows "1 \<le> i \<Longrightarrow> i + k < length t \<Longrightarrow> pair_ok t shift i \<Longrightarrow>
    \<exists>shift'. pair_table m q i k shift = Some shift' \<and> pair_ok t shift' (i + k)"
proof (induction k arbitrary: i shift)
  case 0
  then show ?case by simp
next
  case (Suc k)
  have "pair_ok t (shift[hash_at t i := of_nat i]) (Suc i)" using Suc.prems assms(2) by (intro pair_ok_update) auto
  then show ?case using Suc.IH[of "Suc i"] hash2_rd[OF assms(1), of i] Suc.prems by simp
qed

lemma occurs_hash:
  assumes "occurs t s j" "j < x" "x < j + length t"
  shows "hash_at t (x - j) = hash_at s x"
proof -
  have le: "j + length t \<le> length s" and eq: "take (length t) (drop j s) = t" using assms(1) by (auto simp: occurs_def)
  have nth: "t ! i = s ! (j + i)" if "i < length t" for i
  proof -
    have "take (length t) (drop j s) ! i = s ! (j + i)" using that le by simp
    then show ?thesis unfolding eq .
  qed
  have "t ! (x - j) = s ! x" "t ! (x - j - 1) = s ! (x - 1)"
    using nth[of "x - j"] nth[of "x - j - 1"] assms(2,3) by auto
  then show ?thesis by (simp add: hash_at_def)
qed

lemma pair_excludes:
  assumes "pair_ok t shift (length t)" "occurs t s j" "j < x" "x < j + length t"
  shows "x \<le> j + unat (shift ! hash_at s x)"
proof -
  have "x - j \<le> unat (shift ! hash_at t (x - j))" using assms(1,3,4) by (auto simp: pair_ok_def)
  then show ?thesis using occurs_hash[OF assms(2-4)] by simp
qed

lemma pair_skip_ok:
  assumes "rd m p (length s) = Some s" "pair_ok t shift (length t)" "length t = Suc m1" "1 \<le> m1" "f + length t = length s"
  shows "k \<le> f \<Longrightarrow> \<forall>j<k. \<not> occurs t s j \<Longrightarrow>
    \<exists>x tmp. pair_skip m shift m1 (p + f) (p + k) = Some (p + x, tmp) \<and> k + m1 \<le> x \<and> tmp \<le> m1 \<and>
      (\<forall>j<x - tmp. \<not> occurs t s j) \<and> x < length s \<and> (tmp = m1 \<longrightarrow> hash_at s x = hash_at t m1)"
proof (induction "f - k" arbitrary: k rule: less_induct)
  case less
  define x where "x = k + m1"
  define tmp where "tmp = unat (shift ! hash_at s x)"
  have x: "1 \<le> x" "x < length s" using assms(3-5) less.prems(1) by (auto simp: x_def)
  have h: "hash2 m (p + x) = Some (hash_at s x)" using hash2_rd[OF assms(1) x] .
  have tmp: "tmp \<le> m1" "tmp \<noteq> 0 \<longrightarrow> hash_at t tmp = hash_at s x"
    using assms(2,3) hash_at_less[of s x] by (auto simp: pair_ok_def tmp_def less_Suc_eq_le)
  have clear: "\<not> occurs t s j" if "j < x - tmp" for j
  proof
    assume o: "occurs t s j"
    then have "k \<le> j" using less.prems(2) by (meson not_le)
    then have "x < j + length t" using assms(3) by (simp add: x_def)
    moreover have "j < x" using that by simp
    ultimately show False using pair_excludes[OF assms(2) o, of x] that unfolding tmp_def by linarith
  qed
  have step: "pair_skip m shift m1 (p + f) (p + k) =
      (if x \<le> f \<and> tmp = 0 then pair_skip m shift m1 (p + f) (p + x) else Some (p + x, tmp))"
    using h by (subst pair_skip.simps) (simp add: x_def tmp_def Let_def add.assoc)
  show ?case
  proof (cases "x \<le> f \<and> tmp = 0")
    case True
    then have "\<exists>y tmp. pair_skip m shift m1 (p + f) (p + x) = Some (p + y, tmp) \<and> x + m1 \<le> y \<and> tmp \<le> m1 \<and>
      (\<forall>j<y - tmp. \<not> occurs t s j) \<and> y < length s \<and> (tmp = m1 \<longrightarrow> hash_at s y = hash_at t m1)"
      using less.hyps[of x] clear assms(4) by (auto simp: x_def)
    then show ?thesis unfolding step using True by (auto simp: x_def)
  next
    case False
    have "hash_at s x = hash_at t m1" if "tmp = m1" using tmp(2) that assms(4) by auto
    then show ?thesis unfolding step using False tmp clear x by (auto simp: x_def)
  qed
qed

lemma memcmp_part:
  assumes "rd m p (length s) = Some s" "rd m q (length t) = Some t" "x + n \<le> length s" "y + n \<le> length t"
  shows "\<exists>r. memcmp m (p + x) (q + y) n = Some r \<and> (r = 0 \<longleftrightarrow> take n (drop x s) = take n (drop y t))"
proof -
  have "rd m (p + x) n = Some (take n (drop x s))" "rd m (q + y) n = Some (take n (drop y t))"
    using rd_take[OF rd_drop[OF assms(1), of x], of n] rd_take[OF rd_drop[OF assms(2), of y], of n] assms(3,4) by auto
  then show ?thesis using memcmp_result cmp_result_eq_0[of "take n (drop x s)" "take n (drop y t)"] assms(3,4) by simp
qed

lemma occurs_last:
  assumes "length t = Suc m1" "1 \<le> m1" "k + length t \<le> length s" "hash_at s (k + m1) = hash_at t m1"
  shows "occurs t s k \<longleftrightarrow> take m1 (drop k s) = take m1 t"
proof
  assume "occurs t s k"
  then have "take m1 (take (length t) (drop k s)) = take m1 t" by (simp add: occurs_def)
  then show "take m1 (drop k s) = take m1 t" using assms(1) by simp
next
  assume eq: "take m1 (drop k s) = take m1 t"
  have "take m1 (drop k s) ! (m1 - 1) = s ! (k + m1 - 1)" using assms(1-3) by simp
  moreover have "take m1 t ! (m1 - 1) = t ! (m1 - 1)" using assms(2) by simp
  ultimately have "s ! (k + m1 - 1) = t ! (m1 - 1)" using eq by simp
  then have l: "s ! (k + m1) = t ! m1" using assms(4) pair_hash_inj by (simp add: hash_at_def)
  have "take (Suc m1) (drop k s) = take m1 (drop k s) @ [s ! (k + m1)]"
    using assms(1,3) by (subst take_Suc_conv_app_nth) auto
  also have "\<dots> = take (Suc m1) t" using assms(1) unfolding l eq by (subst take_Suc_conv_app_nth) auto
  finally show "occurs t s k" using assms(1,3) by (simp add: occurs_def)
qed

lemma memmem_loop_ok:
  assumes "rd m p (length s) = Some s" "rd m q (length t) = Some t" "pair_ok t shift (length t)" "length t = Suc m1"
    "2 \<le> m1" "f + length t = length s" "1 \<le> shift1" "shift1 \<le> m1"
    and shift1: "\<And>i. 1 \<le> i \<Longrightarrow> i < m1 \<Longrightarrow> hash_at t i = hash_at t m1 \<Longrightarrow> i + shift1 \<le> m1"
  shows "\<forall>j<k. \<not> occurs t s j \<Longrightarrow> (15 < m1 \<longrightarrow> off + 8 \<le> m1) \<Longrightarrow>
    memmem_loop m shift q m1 shift1 (p + f) (p + k) off = Some (sub_result p t s)"
proof (induction "Suc f - k" arbitrary: k off rule: less_induct)
  case less
  show ?case
  proof (cases "k \<le> f")
    case False
    have "sub_result p t s = NULL"
      by (rule sub_result_none) (use False less.prems(1) assms(6) in \<open>auto simp: occurs_def\<close>)
    then show ?thesis using False by (subst memmem_loop.simps) simp
  next
    case True
    obtain x tmp where sk: "pair_skip m shift m1 (p + f) (p + k) = Some (p + x, tmp)" "k + m1 \<le> x" "tmp \<le> m1"
      "\<forall>j<x - tmp. \<not> occurs t s j" "x < length s" "tmp = m1 \<longrightarrow> hash_at s x = hash_at t m1"
      using pair_skip_ok[OF assms(1,3,4) _ assms(6) True less.prems(1)] assms(5) by auto
    have px: "p + x - tmp = p + (x - tmp)" using sk by simp
    show ?thesis
    proof (cases "tmp < m1")
      case True
      then show ?thesis using sk px \<open>k \<le> f\<close> less.hyps[of "x - tmp" off] less.prems(2)
        by (subst memmem_loop.simps) (simp add: Let_def)
    next
      case False
      define c where "c = x - m1"
      define off' where "off' = (if off \<ge> 8 then off else m1) - 8"
      have t: "tmp = m1" using False sk(3) by simp
      have c: "k \<le> c" "c + length t \<le> length s" "x = c + m1" using sk t assms(4) by (auto simp: c_def)
      have hash: "hash_at s (c + m1) = hash_at t m1" using sk t c(3) by simp
      have off': "15 < m1 \<longrightarrow> off' + 8 \<le> m1" using less.prems(2) by (auto simp: off'_def)
      obtain r where r: "memcmp m (p + c) q m1 = Some r" "r = 0 \<longleftrightarrow> occurs t s c"
        using memcmp_part[OF assms(1,2), of c m1 0] occurs_last[OF assms(4) _ c(2) hash] assms(4,5) c(2) by auto
      have flt: "\<exists>g. (if m1 \<le> 15 then Some 0 else memcmp m (p + c + off) (q + off) 8) = Some g \<and> (g \<noteq> 0 \<longrightarrow> \<not> occurs t s c)"
      proof (cases "m1 \<le> 15")
        case no: False
        obtain g where g: "memcmp m (p + (c + off)) (q + off) 8 = Some g" "g = 0 \<longleftrightarrow> take 8 (drop (c + off) s) = take 8 (drop off t)"
          using memcmp_part[OF assms(1,2), of "c + off" 8 off] less.prems(2) no assms(4) c(2) by auto
        have "take 8 (drop (c + off) s) = take 8 (drop off t)" if "occurs t s c"
        proof -
          have "take 8 (drop off (take (length t) (drop c s))) = take 8 (drop (c + off) s)"
            using less.prems(2) no assms(4) by (simp add: drop_take add.commute)
          then show ?thesis using that by (simp add: occurs_def)
        qed
        then show ?thesis using g no by (auto simp: add.assoc)
      qed simp
      have next_ok: "\<forall>j<c + shift1. \<not> occurs t s j" if "\<not> occurs t s c"
      proof (intro allI impI notI)
        fix j assume j: "j < c + shift1" "occurs t s j"
        have "c < j" using j(2) sk(4) that t c(3) by (metis add_diff_cancel_right' linorder_neqE_nat)
        moreover have jm: "j < c + m1" using j(1) assms(8) by simp
        ultimately have "hash_at t (c + m1 - j) = hash_at t m1"
          using occurs_hash[OF j(2), of "c + m1"] hash assms(4) by simp
        then have "c + m1 - j + shift1 \<le> m1" using shift1[of "c + m1 - j"] \<open>c < j\<close> jm by simp
        then show False using j(1) jm by simp
      qed
      have IH: "memmem_loop m shift q m1 shift1 (p + f) (p + (c + shift1)) o' = Some (sub_result p t s)"
        if "\<not> occurs t s c" "15 < m1 \<longrightarrow> o' + 8 \<le> m1" for o'
        using less.hyps[of "c + shift1" o'] next_ok[OF that(1)] that(2) c(1) assms(7) \<open>k \<le> f\<close> by simp
      have found: "occurs t s c \<Longrightarrow> sub_result p t s = p + c" using sub_result_found[of t s c] sk(4) t c(3) by simp
      have pc: "p + x - m1 = p + c" using c(3) by simp
      obtain g where g: "(if m1 \<le> 15 then Some 0 else memcmp m (p + c + off) (q + off) 8) = Some g" "g \<noteq> 0 \<longrightarrow> \<not> occurs t s c"
        using flt by blast
      have "memmem_loop m shift q m1 shift1 (p + f) (p + k) off =
          (if g = 0 then if r = 0 then Some (p + c)
             else memmem_loop m shift q m1 shift1 (p + f) (p + (c + shift1)) off'
           else memmem_loop m shift q m1 shift1 (p + f) (p + (c + shift1)) off)"
        using sk(1) \<open>k \<le> f\<close> t pc g(1) r(1)
        by (cases "m1 \<le> 15"; subst memmem_loop.simps) (simp_all add: Let_def off'_def add.assoc)
      then show ?thesis using IH r(2) g(2) found off' less.prems(2) by auto
    qed
  qed
qed

lemma occurs_pair:
  assumes "length t = 2" "i + 2 \<le> length s"
  shows "occurs t s i \<longleftrightarrow> [s ! i, s ! Suc i] = t"
proof -
  have "drop i s = s ! i # s ! Suc i # drop (Suc (Suc i)) s" using assms(2) by (simp add: Cons_nth_drop_Suc)
  then show ?thesis using assms by (simp add: occurs_def)
qed

lemma memmem2_loop_ok:
  assumes "rd m p (length s) = Some s" "length t = 2" "f + 2 = length s"
  shows "1 \<le> k \<Longrightarrow> k \<le> Suc f \<Longrightarrow> \<forall>j<k - 1. \<not> occurs t s j \<Longrightarrow>
    \<exists>k' w. memmem2_loop m (p + f) (pack2 t) (p + k) (pack2 [s ! (k - 1), s ! k]) = Some (p + k', w) \<and> 1 \<le> k' \<and>
      (if w = pack2 t then p + k' - 1 else NULL) = sub_result p t s"
proof (induction "Suc f - k" arbitrary: k)
  case 0
  then have k: "k = Suc f" by simp
  have occ: "occurs t s f \<longleftrightarrow> [s ! f, s ! Suc f] = t"
    using assms(2,3) by (intro occurs_pair) auto
  show ?case
  proof (cases "occurs t s f")
    case True
    then show ?thesis using k 0(4) occ sub_result_found[of t s f p] by (subst memmem2_loop.simps) auto
  next
    case False
    have "\<not> occurs t s j" for j
      using 0(4) k False assms(2,3) by (metis add_le_cancel_right diff_Suc_1 le_neq_implies_less occurs_def)
    then have "sub_result p t s = NULL" by (rule sub_result_none)
    then show ?thesis using k occ False assms(2) p2.pack_inj[of "[s ! f, s ! Suc f]" t]
      by (subst memmem2_loop.simps) auto
  qed
next
  case (Suc d)
  then have k: "k \<le> f" by simp
  have occ: "occurs t s (k - 1) \<longleftrightarrow> [s ! (k - 1), s ! k] = t"
    using assms(2,3) k Suc.prems(1) occurs_pair[of t "k - 1" s] by simp
  show ?case
  proof (cases "occurs t s (k - 1)")
    case True
    then show ?thesis using Suc.prems occ sub_result_found[of t s "k - 1" p] by (subst memmem2_loop.simps) auto
  next
    case False
    have ne: "pack2 [s ! (k - 1), s ! k] \<noteq> pack2 t"
      using occ False assms(2) p2.pack_inj[of "[s ! (k - 1), s ! k]" t] by simp
    have c: "m (p + k + 1) = Some (s ! Suc k)" using rd_nth[OF assms(1), of "Suc k"] k assms(3) by simp
    have none: "\<forall>j<Suc k - 1. \<not> occurs t s j" using Suc.prems(1,3) False by (metis diff_Suc_1 le_add_diff_inverse less_Suc_eq plus_1_eq_Suc)
    have "memmem2_loop m (p + f) (pack2 t) (p + k) (pack2 [s ! (k - 1), s ! k]) =
        memmem2_loop m (p + f) (pack2 t) (p + Suc k) (pack2 [s ! (Suc k - 1), s ! Suc k])"
      using k ne c by (subst memmem2_loop.simps) (simp add: pack2_step)
    then show ?thesis using Suc.hyps(1)[of "Suc k"] Suc.hyps(2) k none by simp
  qed
qed

lemma memmem_block:
  assumes "rd m p (length s) = Some s" "rd m q (length t) = Some t" "length t \<le> 256"
  shows "memmem m p (length s) q (length t) = Some (sub_result p t s)"
proof -
  have q: "m (q + i) = Some (t ! i)" if "i < length t" for i using rd_nth[OF assms(2) that] .
  have p: "m (p + i) = Some (s ! i)" if "i < length s" for i using rd_nth[OF assms(1) that] .
  consider "length t = 0" | "length t = 1" | "2 \<le> length t" "length s < length t" | "length t = 2" "2 \<le> length s"
    | "3 \<le> length t" "length t \<le> length s" by linarith
  then show ?thesis
  proof cases
    case 1
    then show ?thesis by (cases s) (simp_all add: memmem_def sub_result_def)
  next
    case 2
    then obtain c where t: "t = [c]" by (metis length_0_conv length_Suc_conv One_nat_def)
    then show ?thesis using q[of 0] memchr_result[OF assms(1), of "uint c"] by (simp add: memmem_def sub_result_chr)
  next
    case 3
    then have "t \<noteq> []" by auto
    with 3 show ?thesis by (simp add: memmem_def sub_result_short)
  next
    case 4
    define f where "f = length s - 2"
    have f: "f + 2 = length s" using 4 by (simp add: f_def)
    have fin: "p + length s - 2 = p + f" using 4(2) by (simp add: f_def)
    have "\<exists>k' w. memmem2_loop m (p + f) (pack2 t) (p + 1) (pack2 [s ! 0, s ! 1]) = Some (p + k', w) \<and> 1 \<le> k' \<and>
      (if w = pack2 t then p + k' - 1 else NULL) = sub_result p t s"
      using memmem2_loop_ok[OF assms(1) 4(1) f, of 1] by simp
    moreover have "s \<noteq> []" using 4(2) by auto
    ultimately show ?thesis using 4 q[of 0] q[of 1] p[of 0] p[of 1] fin by (auto simp: memmem_def pack2_def Let_def)
  next
    case 5
    define m1 where "m1 = length t - 1"
    have m1: "length t = Suc m1" "2 \<le> m1" "m1 < 256" using 5 assms(3) by (auto simp: m1_def)
    have "pair_ok t (replicate 256 0) 1" by (auto simp: pair_ok_def)
    then obtain sh where sh: "pair_table m q 1 (m1 - 1) (replicate 256 0) = Some sh" "pair_ok t sh m1"
      using pair_table_ok[OF assms(2,3), of 1 "m1 - 1" "replicate 256 0"] m1 by auto
    have h: "hash2 m (q + m1) = Some (hash_at t m1)" using hash2_rd[OF assms(2), of m1] m1 by simp
    define v where "v = unat (sh ! hash_at t m1)"
    have v: "v < m1" "\<And>i. 1 \<le> i \<Longrightarrow> i < m1 \<Longrightarrow> hash_at t i = hash_at t m1 \<Longrightarrow> i \<le> v"
      using sh(2) hash_at_less[of t m1] unfolding pair_ok_def v_def by auto
    have ok: "pair_ok t (sh[hash_at t m1 := of_nat m1]) (length t)"
      using pair_ok_update[OF sh(2)] m1 by simp
    have fin: "p + length s - length t = p + (length s - length t)" using 5 by simp
    have "memmem_loop m (sh[hash_at t m1 := of_nat m1]) q m1 (m1 - v) (p + (length s - length t)) (p + 0) 0 = Some (sub_result p t s)"
    proof (rule memmem_loop_ok[OF assms(1,2) ok m1(1,2)])
      show "i + (m1 - v) \<le> m1" if "1 \<le> i" "i < m1" "hash_at t i = hash_at t m1" for i
        using v(1) v(2)[OF that] by simp
    qed (use v 5 m1 in auto)
    then show ?thesis using 5 m1 sh(1) h fin by (simp add: memmem_def Let_def v_def)
  qed
qed

lemma memmem_match_rd:
  assumes "rd m p n = Some u" "rd m q n = Some t"
  shows "i < n \<Longrightarrow> drop (Suc i) u = drop (Suc i) t \<Longrightarrow>
    \<exists>r. memmem_match m p q i = Some r \<and> (r = 0 \<longleftrightarrow> drop 1 u = drop 1 t)"
proof (induction i)
  case 0
  then show ?case by simp
next
  case (Suc i)
  have nth: "m (p + Suc i) = Some (u ! Suc i)" "m (q + Suc i) = Some (t ! Suc i)"
    using rd_nth[OF assms(1) Suc.prems(1)] rd_nth[OF assms(2) Suc.prems(1)] by auto
  have l: "length u = n" "length t = n" using assms by (auto dest: rd_length)
  show ?case
  proof (cases "u ! Suc i = t ! Suc i")
    case True
    then have "drop (Suc i) u = drop (Suc i) t" using Suc.prems l by (metis Cons_nth_drop_Suc)
    then show ?thesis using Suc.IH Suc.prems(1) True nth by simp
  next
    case False
    have "drop 1 u \<noteq> drop 1 t"
    proof
      assume "drop 1 u = drop 1 t"
      then have "drop 1 u ! i = drop 1 t ! i" by simp
      then show False using False l Suc.prems(1) by simp
    qed
    then show ?thesis using False nth by simp
  qed
qed

lemma memmem_small_loop_ok:
  assumes "rd m q (length t) = Some t" "t \<noteq> []"
  shows "rd m p (length s) = Some s \<Longrightarrow>
    memmem_small_loop m p q (length t) (t ! 0) (length s + 1 - length t) = Some (sub_result p t s)"
proof (induction s arbitrary: p)
  case Nil
  then show ?case using assms(2) by (cases t) (simp_all add: sub_result_short)
next
  case (Cons a s)
  have a: "m p = Some a" "rd m (Suc p) (length s) = Some s" using Cons.prems by (auto simp: bind_eq_Some_conv)
  show ?case
  proof (cases "length t \<le> length (a # s)")
    case False
    then show ?thesis by (simp add: sub_result_short)
  next
    case True
    let ?u = "take (length t) (a # s)"
    have k: "length (a # s) + 1 - length t = Suc (length s + 1 - length t)" using True by simp
    have u: "rd m p (length t) = Some ?u" using rd_take[OF Cons.prems True] .
    have "drop (length t) ?u = drop (length t) t" by simp
    then obtain r where r: "memmem_match m p q (length t - 1) = Some r" "r = 0 \<longleftrightarrow> drop 1 ?u = drop 1 t"
      using memmem_match_rd[OF u assms(1), of "length t - 1"] assms(2) by (cases t) auto
    have "occurs t (a # s) 0 \<longleftrightarrow> a = t ! 0 \<and> r = 0"
      using r(2) assms(2) by (cases t) (auto simp: occurs_0)
    then show ?thesis unfolding k using a r(1) Cons.IH[OF a(2)] sub_result_skip[of t a s p] assms(2)
        sub_result_found[of t "a # s" 0 p] by auto
  qed
qed

lemma memmem_small_block:
  "rd m p (length s) = Some s \<Longrightarrow> rd m q (length t) = Some t \<Longrightarrow>
   memmem_small m p (length s) q (length t) = Some (sub_result p t s)"
proof (cases "t = []")
  case True
  then show ?thesis by (cases s) (simp_all add: memmem_small_def sub_result_def)
next
  case False
  assume "rd m p (length s) = Some s" "rd m q (length t) = Some t"
  then show ?thesis using memmem_small_loop_ok[of m q t p s] False rd_nth[of m q "length t" t 0]
    by (simp add: memmem_small_def)
qed


section \<open>strcasestr\<close>

lemma cmp_result_lower_eq: "ncmp_result (length t) s t = 0 \<longleftrightarrow> take (length t) s = t"
  if "0 \<notin> set s" "0 \<notin> set t" for s t
  using ncmp_result_eq_0[OF that, of "length t"] by simp

lemma lower_notin: "0 \<notin> set u \<Longrightarrow> 0 \<notin> set (map lower u)"
  by (induction u) auto

lemma strcasestr_small_loop_cstr:
  assumes "cstr_at m q t"
  shows "cstr_at m p s \<Longrightarrow>
    strcasestr_small_loop m p q (length t) (lower c) = Some (sub_result p (map lower (c # t)) (map lower s))"
proof (induction s arbitrary: p)
  case Nil
  then show ?case by (subst strcasestr_small_loop.simps) (simp add: sub_result_short)
next
  case (Cons a s)
  have s: "cstr_at m (Suc p) s" "m p = Some a" "a \<noteq> 0" using Cons.prems by auto
  have IH: "strcasestr_small_loop m (Suc p) q (length t) (lower c) = Some (sub_result (Suc p) (map lower (c # t)) (map lower s))"
    using Cons.IH[OF s(1)] .
  have cmp: "strncasecmp m (Suc p) q (length t) = Some (ncmp_result (length t) (map lower s) (map lower t))"
    by (rule strncasecmp_cstr[OF s(1) assms])
  have zero: "ncmp_result (length t) (map lower s) (map lower t) = 0 \<longleftrightarrow> take (length t) (map lower s) = map lower t"
    using cmp_result_lower_eq[of "map lower s" "map lower t"] lower_notin delim_at_notin[OF s(1)] delim_at_notin[OF assms] by simp
  have occ: "occurs (map lower (c # t)) (map lower (a # s)) 0 \<longleftrightarrow> lower a = lower c \<and> take (length t) (map lower s) = map lower t"
    by (auto simp: occurs_0)
  show ?case using s IH cmp zero occ sub_result_skip[of "map lower (c # t)" "lower a" "map lower s" p]
      sub_result_found[of "map lower (c # t)" "map lower (a # s)" 0 p]
    by (subst strcasestr_small_loop.simps) auto
qed

lemma strcasestr_small_cstr:
  assumes "cstr_at m p s" "cstr_at m q t" "word_mapped m"
  shows "strcasestr_small m p q = Some (sub_result p (map lower t) (map lower s))"
proof (cases t)
  case Nil
  then show ?thesis using assms(2) by (cases s) (simp_all add: strcasestr_small_def sub_result_def)
next
  case (Cons c t')
  then have "cstr_at m (Suc q) t'" "m q = Some c" "c \<noteq> 0" using assms(2) by auto
  then show ?thesis using Cons strcasestr_small_loop_cstr[of m "Suc q" t' p s c] strlen_cstr[of m "Suc q" t'] assms(1,3)
    by (simp add: strcasestr_small_def)
qed

section \<open>Properties\<close>

text \<open>
  C29: \<open>memmem\<close> with a needle of at most 256 bytes returns the first occurrence of the
  needle in the haystack, or the null pointer when there is none: the packed search for two bytes and
  the search that hashes pairs of bytes, with its filter and its shifts, skip no occurrence. The
  small variant returns the same.
\<close>

theorem memmem_first:
  assumes "rd m p n = Some s" "rd m q k = Some t" "k \<le> 256"
  shows "\<exists>r. memmem m p n q k = Some r \<and> memmem_small m p n q k = Some r \<and>
    (if \<exists>i. occurs t s i then \<exists>i. r = p + i \<and> occurs t s i \<and> (\<forall>j<i. \<not> occurs t s j) else r = NULL)"
proof -
  have l: "length s = n" "length t = k" using assms by (auto dest: rd_length)
  have "(if \<exists>i. occurs t s i then \<exists>i. sub_result p t s = p + i \<and> occurs t s i \<and> (\<forall>j<i. \<not> occurs t s j)
      else sub_result p t s = NULL)"
    using sub_pos_None[of t s] sub_pos_Some[of t s] by (auto simp: sub_result_def split: option.splits)
  then show ?thesis using memmem_block[of m p s q t] memmem_small_block[of m p s q t] assms l by blast
qed

theorem memmem_first_witness:
  "\<exists>r. memmem (mem_image 16 [1, 0, 2, 1, 0, 3, 1, 0, 3]) 16 6 22 3 = Some r \<and> r = 19"
proof -
  let ?m = "mem_image 16 [1, 0, 2, 1, 0, 3, 1, 0, 3]"
  have 1: "rd ?m 16 6 = Some [1, 0, 2, 1, 0, 3]" "rd ?m 22 3 = Some [1, 0, 3]" by code_simp+
  obtain r where "memmem ?m 16 6 22 3 = Some r" and r: "if \<exists>i. occurs [1, 0, 3] [1, 0, 2, 1, 0, 3] i
      then \<exists>i. r = 16 + i \<and> occurs [1, 0, 3] [1, 0, 2, 1, 0, 3] i \<and> (\<forall>j<i. \<not> occurs [1, 0, 3] [1, 0, 2, 1, 0, 3] j) else r = NULL"
    using memmem_first[OF 1] by auto
  have o: "occurs [1, 0, 3] [1, 0, 2, 1, 0, 3] 3" by code_simp
  then obtain i where i: "r = 16 + i" "occurs [1, 0, 3] [1, 0, 2, 1, 0, 3] i" "\<forall>j<i. \<not> occurs [1, 0, 3] [1, 0, 2, 1, 0, 3] j"
    using r by (metis (no_types, lifting))
  have "sub_pos [1, 0, 3] [1, 0, 2, 1, 0, 3] = Some i" unfolding sub_pos_Some using i(2,3) by blast
  moreover have "sub_pos [1, 0, 3] [1, 0, 2, 1, 0, 3] = Some 3" by code_simp
  ultimately show ?thesis using i(1) \<open>memmem ?m 16 6 22 3 = Some r\<close> by simp
qed

text \<open>
  C30: \<open>strstr\<close> with a needle of less than 255 bytes returns the first occurrence of the
  needle in the string or the null pointer, on each of its paths: no needle, one byte by \<open>strchr\<close>, two to
  four bytes packed in a word, and Sunday's algorithm on a haystack whose end is not known in
  advance. The small variant returns the same for every needle, and the small \<open>strcasestr\<close> the first
  occurrence without regard to case.
\<close>

theorem strstr_first:
  assumes "cstr_at m p s" "cstr_at m q t" "word_mapped m" "p \<noteq> NULL" "length t < 255"
  shows "strstr m p q = Some (sub_result p t s) \<and> strstr_small m p q = Some (sub_result p t s) \<and>
    strcasestr_small m p q = Some (sub_result p (map lower t) (map lower s)) \<and>
    (\<forall>i. sub_result p t s = p + i \<longrightarrow> occurs t s i \<and> (\<forall>j<i. \<not> occurs t s j)) \<and>
    (sub_result p t s = NULL \<longrightarrow> (\<forall>i. \<not> occurs t s i))"
  using strstr_cstr[OF assms] strstr_small_cstr[OF assms(1,2)] strcasestr_small_cstr[OF assms(1-3)] assms(4)
    sub_pos_Some[of t s] sub_pos_None[of t s] by (auto simp: sub_result_def split: option.splits)

theorem strstr_first_witness:
  "strstr (mem_image 16 [97, 98, 97, 98, 97, 98, 97, 99, 0, 97, 98, 97, 98, 97, 99, 0]) 16 25 = Some 18"
proof -
  let ?m = "mem_image 16 [97, 98, 97, 98, 97, 98, 97, 99, 0, 97, 98, 97, 98, 97, 99, 0]"
  have 1: "cstr_at ?m 16 [97, 98, 97, 98, 97, 98, 97, 99]" "cstr_at ?m 25 [97, 98, 97, 98, 97, 99]" by code_simp+
  have 2: "word_mapped ?m" by (rule word_mapped_mem_image) code_simp+
  have 3: "sub_pos [97, 98, 97, 98, 97, 99] [97, 98, 97, 98, 97, 98, 97, 99] = Some 2" by code_simp
  show ?thesis using strstr_first[OF 1 2] unfolding sub_result_def 3 by simp
qed

text \<open>
  \<open>strnstr\<close> hands \<open>memmem\<close> the whole length, so it reads past the terminator of a haystack that is
  shorter: here the string is "a" and the bytes after its terminator are not mapped.
\<close>

lemma strnstr_reads_past_end:
  "strnstr (mem_image 16 [97, 0] ++ mem_image 64 [98, 0]) 16 64 5 = None"
  by code_simp

end
