(* ===== verification/SortFns.thy ===== *)
theory SortFns
  imports MemFns "HOL-Library.Multiset"
begin

text \<open>
  \<open>bsearch\<close> and \<open>qsort\<close> of newlib's \<open>search\<close> directory. The swaps are modelled twice, over the byte memory with the
  word and byte loops of the source and over lists of elements, and the first is shown to implement the second; the sort
  itself works on the list. The comparison function is a parameter.
\<close>

section \<open>bsearch\<close>

text \<open>
  The array is the list of its elements, the element at \<open>base + index * size\<close> is the element \<open>index\<close>;
  \<open>compar\<close> compares the key with an element.
\<close>

function bsearch_loop :: "('k \<Rightarrow> 'a \<Rightarrow> int) \<Rightarrow> 'k \<Rightarrow> 'a list \<Rightarrow> nat \<Rightarrow> nat \<Rightarrow> nat option" where
  "bsearch_loop compar key base lower upper =
     (if lower < upper then
        let index = (lower + upper) div 2; result = compar key (base ! index) in
        if result < 0 then bsearch_loop compar key base lower index
        else if result > 0 then bsearch_loop compar key base (index + 1) upper
        else Some index
      else None)"
  by pat_completeness auto

termination by (relation "measure (\<lambda>(_, _, _, lower, upper). upper - lower)") auto

declare bsearch_loop.simps [simp del]

definition bsearch :: "('k \<Rightarrow> 'a \<Rightarrow> int) \<Rightarrow> 'k \<Rightarrow> 'a list \<Rightarrow> nat \<Rightarrow> nat option" where
  "bsearch compar key base nmemb =
     (if nmemb = 0 then None else bsearch_loop compar key base 0 nmemb)"

section \<open>Swapping elements in memory\<close>

text \<open>The body of \<open>swapcode\<close> is a \<open>do\<close> loop: it runs once even for a count of 0.\<close>

fun swapcode_char :: "mem \<Rightarrow> addr \<Rightarrow> addr \<Rightarrow> nat \<Rightarrow> mem option" where
  "swapcode_char m pi pj i = do {
     t \<leftarrow> ld8 m pi;
     u \<leftarrow> ld8 m pj;
     m \<leftarrow> st8 m pi u;
     m \<leftarrow> st8 m pj t;
     if i - 1 > 0 then swapcode_char m (pi + 1) (pj + 1) (i - 1) else Some m }"

fun swapcode_long :: "mem \<Rightarrow> addr \<Rightarrow> addr \<Rightarrow> nat \<Rightarrow> mem option" where
  "swapcode_long m pi pj i = do {
     t \<leftarrow> ld64 m pi;
     u \<leftarrow> ld64 m pj;
     m \<leftarrow> st64 m pi u;
     m \<leftarrow> st64 m pj t;
     if i - 1 > 0 then swapcode_long m (pi + 8) (pj + 8) (i - 1) else Some m }"

declare swapcode_char.simps [simp del] swapcode_long.simps [simp del]

definition SWAPINIT :: "addr \<Rightarrow> nat \<Rightarrow> nat" where
  "SWAPINIT a es = (if a mod 8 \<noteq> 0 \<or> es mod 8 \<noteq> 0 then 2 else if es = 8 then 0 else 1)"

definition swapfunc :: "mem \<Rightarrow> addr \<Rightarrow> addr \<Rightarrow> nat \<Rightarrow> nat \<Rightarrow> mem option" where
  "swapfunc m a b n swaptype =
     (if swaptype \<le> 1 then swapcode_long m a b (n div 8) else swapcode_char m a b n)"

definition swap_mem :: "mem \<Rightarrow> nat \<Rightarrow> nat \<Rightarrow> addr \<Rightarrow> addr \<Rightarrow> mem option" where
  "swap_mem m es swaptype a b =
     (if swaptype = 0 then do {
        t \<leftarrow> ld64 m a;
        u \<leftarrow> ld64 m b;
        m \<leftarrow> st64 m a u;
        st64 m b t }
      else swapfunc m a b es swaptype)"

definition vecswap_mem :: "mem \<Rightarrow> nat \<Rightarrow> addr \<Rightarrow> addr \<Rightarrow> nat \<Rightarrow> mem option" where
  "vecswap_mem m swaptype a b n = (if n > 0 then swapfunc m a b n swaptype else Some m)"

section \<open>qsort\<close>

text \<open>
  The array is the list of its elements and the pointers of the source are indices: \<open>pm += es\<close> is \<open>Suc\<close>.
  \<open>cmp\<close> is the comparison function, of values.
\<close>

definition swap :: "'a list \<Rightarrow> nat \<Rightarrow> nat \<Rightarrow> 'a list" where
  "swap xs i j = xs[i := xs ! j, j := xs ! i]"

fun vecswap :: "'a list \<Rightarrow> nat \<Rightarrow> nat \<Rightarrow> nat \<Rightarrow> 'a list" where
  "vecswap xs i j 0 = xs"
| "vecswap xs i j (Suc r) = vecswap (swap xs i j) (i + 1) (j + 1) r"

definition med3 :: "('a \<Rightarrow> 'a \<Rightarrow> int) \<Rightarrow> 'a list \<Rightarrow> nat \<Rightarrow> nat \<Rightarrow> nat \<Rightarrow> nat" where
  "med3 cmp xs a b c =
     (if cmp (xs ! a) (xs ! b) < 0
      then (if cmp (xs ! b) (xs ! c) < 0 then b else if cmp (xs ! a) (xs ! c) < 0 then c else a)
      else (if cmp (xs ! b) (xs ! c) > 0 then b else if cmp (xs ! a) (xs ! c) < 0 then a else c))"

fun insert_down :: "('a \<Rightarrow> 'a \<Rightarrow> int) \<Rightarrow> 'a list \<Rightarrow> nat \<Rightarrow> nat \<Rightarrow> 'a list" where
  "insert_down cmp xs a pl =
     (if pl > a \<and> cmp (xs ! (pl - 1)) (xs ! pl) > 0
      then insert_down cmp (swap xs pl (pl - 1)) a (pl - 1)
      else xs)"

function insertion_sort :: "('a \<Rightarrow> 'a \<Rightarrow> int) \<Rightarrow> 'a list \<Rightarrow> nat \<Rightarrow> nat \<Rightarrow> nat \<Rightarrow> 'a list" where
  "insertion_sort cmp xs a n pm =
     (if pm < a + n then insertion_sort cmp (insert_down cmp xs a pm) a n (pm + 1) else xs)"
  by pat_completeness auto

termination by (relation "measure (\<lambda>(_, _, a, n, pm). a + n - pm)") auto

declare insert_down.simps [simp del] insertion_sort.simps [simp del]

definition choose_pivot :: "('a \<Rightarrow> 'a \<Rightarrow> int) \<Rightarrow> 'a list \<Rightarrow> nat \<Rightarrow> nat \<Rightarrow> nat" where
  "choose_pivot cmp xs a n =
     (let pm = a + n div 2 in
      if n > 7 then
        let pl = a; pn = a + (n - 1) in
        if n > 40 then
          let d = n div 8;
              pl = med3 cmp xs pl (pl + d) (pl + 2 * d);
              pm = med3 cmp xs (pm - d) pm (pm + d);
              pn = med3 cmp xs (pn - 2 * d) (pn - d) pn in
          med3 cmp xs pl pm pn
        else med3 cmp xs pl pm pn
      else pm)"

text \<open>The state of the partition: the array, \<open>pa\<close>, \<open>pb\<close>, \<open>pc\<close>, \<open>pd\<close> and \<open>swap_cnt\<close>.\<close>

function part_left :: "('a \<Rightarrow> 'a \<Rightarrow> int) \<Rightarrow> nat \<Rightarrow> nat \<Rightarrow> 'a list \<Rightarrow> nat \<Rightarrow> nat \<Rightarrow> bool \<Rightarrow> 'a list \<times> nat \<times> nat \<times> bool" where
  "part_left cmp a pc xs pa pb cnt =
     (if pb \<le> pc \<and> cmp (xs ! pb) (xs ! a) \<le> 0 then
        if cmp (xs ! pb) (xs ! a) = 0 then part_left cmp a pc (swap xs pa pb) (pa + 1) (pb + 1) True
        else part_left cmp a pc xs pa (pb + 1) cnt
      else (xs, pa, pb, cnt))"
  by pat_completeness auto

termination by (relation "measure (\<lambda>(_, _, pc, _, _, pb, _). Suc pc - pb)") auto

text \<open>\<open>pb\<close> is never 0, it is after the pivot; the guard is what the recursion needs to see it.\<close>

function part_right :: "('a \<Rightarrow> 'a \<Rightarrow> int) \<Rightarrow> nat \<Rightarrow> nat \<Rightarrow> 'a list \<Rightarrow> nat \<Rightarrow> nat \<Rightarrow> bool \<Rightarrow> 'a list \<times> nat \<times> nat \<times> bool" where
  "part_right cmp a pb xs pc pd cnt =
     (if 0 < pb \<and> pb \<le> pc \<and> cmp (xs ! pc) (xs ! a) \<ge> 0 then
        if cmp (xs ! pc) (xs ! a) = 0 then part_right cmp a pb (swap xs pc pd) (pc - 1) (pd - 1) True
        else part_right cmp a pb xs (pc - 1) pd cnt
      else (xs, pc, pd, cnt))"
  by pat_completeness auto

termination by (relation "measure (\<lambda>(_, _, pb, _, pc, _, _). Suc pc - pb)") auto

declare part_left.simps [simp del] part_right.simps [simp del]

partial_function (option) part_loop ::
    "('a \<Rightarrow> 'a \<Rightarrow> int) \<Rightarrow> nat \<Rightarrow> 'a list \<Rightarrow> nat \<times> nat \<times> nat \<times> nat \<times> bool \<Rightarrow> ('a list \<times> nat \<times> nat \<times> nat \<times> nat \<times> bool) option" where
  "part_loop cmp a xs st = (case st of (pa, pb, pc, pd, cnt) \<Rightarrow>
     (case part_left cmp a pc xs pa pb cnt of (xs, pa, pb, cnt) \<Rightarrow>
     (case part_right cmp a pb xs pc pd cnt of (xs, pc, pd, cnt) \<Rightarrow>
     if pb > pc then Some (xs, pa, pb, pc, pd, cnt)
     else part_loop cmp a (swap xs pb pc) (pa, pb + 1, pc - 1, pd, True))))"

declare part_loop.simps [code]

text \<open>
  One pass over the subarray of \<open>n\<close> elements at \<open>a\<close>: it is sorted by insertion (\<open>None\<close>), or split in a
  smaller part \<open>(pa, r)\<close> and a larger part \<open>(a, n)\<close> that are left to sort.
\<close>

definition qsort_split ::
    "('a \<Rightarrow> 'a \<Rightarrow> int) \<Rightarrow> 'a list \<Rightarrow> nat \<Rightarrow> nat \<Rightarrow> ('a list \<times> ((nat \<times> nat) \<times> (nat \<times> nat)) option) option" where
  "qsort_split cmp xs a n =
     (if n < 7 then Some (insertion_sort cmp xs a n (a + 1), None)
      else do {
        let xs = swap xs a (choose_pivot cmp xs a n);
        (xs, pa, pb, pc, pd, cnt) \<leftarrow> part_loop cmp a xs (a + 1, a + 1, a + (n - 1), a + (n - 1), False);
        if \<not> cnt then Some (insertion_sort cmp xs a n (a + 1), None)
        else
          let pn = a + n;
              r = min (pa - a) (pb - pa);
              xs = vecswap xs a (pb - r) r;
              r = min (pd - pc) (pn - pd - 1);
              xs = vecswap xs pb (pn - r) r;
              d = pb - pa;
              r = pd - pc;
              pn = pn - r in
          Some (xs, Some (if r > d then ((a, d), (pn, r)) else ((pn, r), (a, d)))) })"

text \<open>
  \<open>st\<close> is the parameter stack, its top first; it holds \<open>PARAMETER_STACK_LEVELS\<close> entries and then the
  smaller part is sorted by a call.
\<close>

partial_function (option) qsort_loop ::
    "('a \<Rightarrow> 'a \<Rightarrow> int) \<Rightarrow> 'a list \<Rightarrow> nat \<Rightarrow> nat \<Rightarrow> (nat \<times> nat) list \<Rightarrow> 'a list option" where
  "qsort_loop cmp xs a n st = do {
     (xs, parts) \<leftarrow> qsort_split cmp xs a n;
     (case parts of
        None \<Rightarrow> (case st of [] \<Rightarrow> Some xs | e # st \<Rightarrow> qsort_loop cmp xs (fst e) (snd e) st)
      | Some ps \<Rightarrow>
          if snd (fst ps) > 1 then
            if length st < 8 then qsort_loop cmp xs (fst (fst ps)) (snd (fst ps)) (snd ps # st)
            else do {
              xs \<leftarrow> qsort_loop cmp xs (fst (fst ps)) (snd (fst ps)) [];
              if snd (snd ps) > 1 then qsort_loop cmp xs (fst (snd ps)) (snd (snd ps)) st
              else (case st of [] \<Rightarrow> Some xs | e # st \<Rightarrow> qsort_loop cmp xs (fst e) (snd e) st) }
          else if snd (snd ps) > 1 then qsort_loop cmp xs (fst (snd ps)) (snd (snd ps)) st
          else (case st of [] \<Rightarrow> Some xs | e # st \<Rightarrow> qsort_loop cmp xs (fst e) (snd e) st)) }"

declare qsort_loop.simps [code]

definition qsort :: "('a \<Rightarrow> 'a \<Rightarrow> int) \<Rightarrow> 'a list \<Rightarrow> 'a list option" where
  "qsort cmp xs = qsort_loop cmp xs 0 (length xs) []"


section \<open>Permutations of a segment\<close>

definition within :: "nat \<Rightarrow> nat \<Rightarrow> 'a list \<Rightarrow> 'a list \<Rightarrow> bool" where
  "within a n xs ys \<longleftrightarrow> length ys = length xs \<and> mset ys = mset xs \<and> (\<forall>k. k < a \<or> a + n \<le> k \<longrightarrow> ys ! k = xs ! k)"

definition seg :: "'a list \<Rightarrow> nat \<Rightarrow> nat \<Rightarrow> 'a list" where
  "seg xs a n = take n (drop a xs)"

definition comparator :: "('a \<Rightarrow> 'a \<Rightarrow> int) \<Rightarrow> bool" where
  "comparator cmp \<longleftrightarrow> (\<forall>x y. sgn (cmp x y) = - sgn (cmp y x)) \<and>
     (\<forall>x y z. cmp x y \<le> 0 \<longrightarrow> cmp y z \<le> 0 \<longrightarrow> cmp x z \<le> 0)"

lemma within_refl [simp]: "within a n xs xs"
  by (simp add: within_def)

lemma within_trans: "within a n xs ys \<Longrightarrow> within a n ys zs \<Longrightarrow> within a n xs zs"
  by (simp add: within_def)

lemma within_mono: "within a n xs ys \<Longrightarrow> b \<le> a \<Longrightarrow> a + n \<le> b + k \<Longrightarrow> within b k xs ys"
  by (auto simp: within_def)

lemma within_length: "within a n xs ys \<Longrightarrow> length ys = length xs"
  by (simp add: within_def)

lemma within_outside: "within a n xs ys \<Longrightarrow> k < a \<or> a + n \<le> k \<Longrightarrow> ys ! k = xs ! k"
  by (auto simp: within_def)

lemma length_swap [simp]: "length (swap xs i j) = length xs"
  by (simp add: swap_def)

lemma swap_nth: "i < length xs \<Longrightarrow> j < length xs \<Longrightarrow>
    swap xs i j ! k = (if k = j then xs ! i else if k = i then xs ! j else xs ! k)"
  by (auto simp: swap_def nth_list_update)

lemma mset_swap_list: "i < length xs \<Longrightarrow> j < length xs \<Longrightarrow> mset (swap xs i j) = mset xs"
  unfolding swap_def by (rule mset_swap)

lemma within_swap:
  "a \<le> i \<Longrightarrow> i < a + n \<Longrightarrow> a \<le> j \<Longrightarrow> j < a + n \<Longrightarrow> a + n \<le> length xs \<Longrightarrow> within a n xs (swap xs i j)"
  by (auto simp: within_def swap_nth mset_swap_list)

lemma length_seg: "a + n \<le> length xs \<Longrightarrow> length (seg xs a n) = n"
  by (simp add: seg_def)

lemma seg_nth: "a + n \<le> length xs \<Longrightarrow> k < n \<Longrightarrow> seg xs a n ! k = xs ! (a + k)"
  by (simp add: seg_def)

lemma seg_concat: "a + (n + k) \<le> length xs \<Longrightarrow> seg xs a (n + k) = seg xs a n @ seg xs (a + n) k"
  by (simp add: seg_def take_add add.commute[of n a])

lemma seg_eqI: "length ys = length xs \<Longrightarrow> a + n \<le> length xs \<Longrightarrow> (\<And>k. a \<le> k \<Longrightarrow> k < a + n \<Longrightarrow> ys ! k = xs ! k) \<Longrightarrow>
    seg ys a n = seg xs a n"
  by (rule nth_equalityI) (auto simp: length_seg seg_nth)

lemma seg_set: "a + n \<le> length xs \<Longrightarrow> set (seg xs a n) = {xs ! k | k. a \<le> k \<and> k < a + n}"
proof -
  assume le: "a + n \<le> length xs"
  have "set (seg xs a n) = {xs ! (a + k) | k. k < n}"
    unfolding set_conv_nth length_seg[OF le] using seg_nth[OF le] by (metis (no_types, lifting))
  also have "\<dots> = {xs ! k | k. a \<le> k \<and> k < a + n}"
    by (auto intro: exI[of _ "k - a" for k] simp: le_iff_add)
  finally show ?thesis .
qed

lemma seg_split: "a + n \<le> length xs \<Longrightarrow> xs = seg xs 0 a @ seg xs a n @ drop (a + n) xs"
  by (simp add: seg_def) (metis add.commute append_assoc append_take_drop_id take_add)

lemma within_mset_seg:
  assumes "within a n xs ys" "a + n \<le> length xs"
  shows "mset (seg ys a n) = mset (seg xs a n)"
proof -
  have l: "length ys = length xs" using assms(1) by (rule within_length)
  have "seg ys 0 a = seg xs 0 a" using assms l by (intro seg_eqI) (auto dest: within_outside)
  moreover have "drop (a + n) ys = drop (a + n) xs"
    using assms l by (intro nth_equalityI) (simp_all add: within_outside[OF assms(1)])
  moreover have "mset ys = mset xs" using assms(1) by (simp add: within_def)
  ultimately show ?thesis using seg_split[of a n xs] seg_split[of a n ys] assms(2) l
    by (metis add_left_cancel add_right_cancel mset_append)
qed

lemma within_of_seg:
  assumes "length ys = length xs" "a + n \<le> length xs" "mset (seg ys a n) = mset (seg xs a n)"
    "\<And>k. k < a \<or> a + n \<le> k \<Longrightarrow> ys ! k = xs ! k"
  shows "within a n xs ys"
proof -
  have "seg ys 0 a = seg xs 0 a" using assms by (intro seg_eqI) auto
  moreover have "drop (a + n) ys = drop (a + n) xs" using assms by (intro nth_equalityI) auto
  ultimately have "mset ys = mset xs"
    using seg_split[of a n xs] seg_split[of a n ys] assms(1-3) by (metis mset_append)
  then show ?thesis using assms by (simp add: within_def)
qed

section \<open>Insertion sort\<close>

lemma comparator_flip: "comparator cmp \<Longrightarrow> cmp x y > 0 \<longleftrightarrow> cmp y x < 0"
  unfolding comparator_def by (metis neg_0_less_iff_less sgn_greater sgn_less neg_less_0_iff_less)

lemma comparator_trans: "comparator cmp \<Longrightarrow> cmp x y \<le> 0 \<Longrightarrow> cmp y z \<le> 0 \<Longrightarrow> cmp x z \<le> 0"
  unfolding comparator_def by blast

abbreviation sorted_by :: "('a \<Rightarrow> 'a \<Rightarrow> int) \<Rightarrow> 'a list \<Rightarrow> bool" where
  "sorted_by cmp \<equiv> sorted_wrt (\<lambda>x y. cmp x y \<le> 0)"

lemma insert_down_ok:
  assumes "comparator cmp"
  shows "sorted_by cmp s \<Longrightarrow> \<exists>s'. insert_down cmp (pre @ s @ [x] @ post) (length pre) (length pre + length s) = pre @ s' @ post \<and>
    mset s' = mset (s @ [x]) \<and> sorted_by cmp s'"
proof (induction s arbitrary: post rule: rev_induct)
  case Nil
  then show ?case by (subst insert_down.simps) simp
next
  case (snoc y s)
  let ?xs = "pre @ (s @ [y]) @ [x] @ post"
  have n1: "?xs ! (length pre + length (s @ [y]) - 1) = y" "?xs ! (length pre + length (s @ [y])) = x"
    using nth_append_length[of "pre @ s" y "x # post"] nth_append_length[of "pre @ s @ [y]" x post] by simp_all
  have srt: "sorted_by cmp s" "\<forall>z\<in>set s. cmp z y \<le> 0" using snoc.prems by (auto simp: sorted_wrt_append)
  show ?case
  proof (cases "cmp y x > 0")
    case True
    have "swap ?xs (length pre + length (s @ [y])) (length pre + length (s @ [y]) - 1) = pre @ s @ [x] @ (y # post)"
      unfolding swap_def n1 by (simp add: list_update_append)
    then have step: "insert_down cmp ?xs (length pre) (length pre + length (s @ [y])) =
        insert_down cmp (pre @ s @ [x] @ (y # post)) (length pre) (length pre + length s)"
      using True n1 by (subst insert_down.simps) simp
    obtain s' where s': "insert_down cmp (pre @ s @ [x] @ (y # post)) (length pre) (length pre + length s) = pre @ s' @ y # post"
      "mset s' = mset (s @ [x])" "sorted_by cmp s'" using snoc.IH[OF srt(1)] by blast
    have set: "set s' = insert x (set s)" using s'(2) by (metis set_mset_mset set_append list.set Un_commute insert_is_Un)
    have "cmp x y \<le> 0" using True comparator_flip[OF assms, of y x] by simp
    then have "sorted_by cmp (s' @ [y])" using s'(3) srt(2) set by (simp add: sorted_wrt_append)
    moreover have "mset (s' @ [y]) = mset ((s @ [y]) @ [x])" using s'(2) by simp
    ultimately show ?thesis unfolding step s'(1) by (intro exI[of _ "s' @ [y]"]) simp
  next
    case False
    then have yx: "cmp y x \<le> 0" by simp
    have "\<forall>z\<in>set s. cmp z x \<le> 0" using srt(2) yx comparator_trans[OF assms] by blast
    then have "sorted_by cmp (s @ [y] @ [x])" using snoc.prems yx by (simp add: sorted_wrt_append)
    then show ?thesis using False n1 by (subst insert_down.simps) (auto intro: exI[of _ "s @ [y, x]"])
  qed
qed

lemma insertion_sort_ok:
  assumes "comparator cmp"
  shows "sorted_by cmp s \<Longrightarrow> n = length s + length rest \<Longrightarrow>
    \<exists>s'. insertion_sort cmp (pre @ s @ rest @ post) (length pre) n (length pre + length s) = pre @ s' @ post \<and>
    mset s' = mset (s @ rest) \<and> sorted_by cmp s'"
proof (induction rest arbitrary: s)
  case Nil
  then show ?case by (subst insertion_sort.simps) auto
next
  case (Cons x rest)
  obtain s1 where s1: "insert_down cmp (pre @ s @ [x] @ (rest @ post)) (length pre) (length pre + length s) = pre @ s1 @ rest @ post"
    "mset s1 = mset (s @ [x])" "sorted_by cmp s1" using insert_down_ok[OF assms Cons.prems(1)] by blast
  have len: "length s1 = Suc (length s)" using s1(2) by (metis length_append_singleton mset_eq_length)
  obtain s2 where s2: "insertion_sort cmp (pre @ s1 @ rest @ post) (length pre) n (length pre + length s1) = pre @ s2 @ post"
    "mset s2 = mset (s1 @ rest)" "sorted_by cmp s2" using Cons.IH[OF s1(3)] Cons.prems(2) len by auto
  have "insertion_sort cmp (pre @ s @ (x # rest) @ post) (length pre) n (length pre + length s) =
      insertion_sort cmp (pre @ s1 @ rest @ post) (length pre) n (length pre + length s1)"
    using s1(1) len Cons.prems(2) by (subst insertion_sort.simps) simp
  then show ?case using s2 s1(2) by auto
qed

lemma insertion_sort_seg:
  assumes "comparator cmp" "a + n \<le> length xs"
  shows "within a n xs (insertion_sort cmp xs a n (a + 1)) \<and> sorted_by cmp (seg (insertion_sort cmp xs a n (a + 1)) a n)"
proof (cases n)
  case 0
  then show ?thesis by (subst (1 2) insertion_sort.simps) (simp add: seg_def)
next
  case (Suc k)
  obtain x rest where sg: "seg xs a n = x # rest" using length_seg[OF assms(2)] Suc by (cases "seg xs a n") auto
  let ?pre = "seg xs 0 a" and ?post = "drop (a + n) xs"
  have xs: "xs = ?pre @ [x] @ rest @ ?post" using seg_split[OF assms(2)] sg by simp
  have lp: "length ?pre = a" using assms(2) by (simp add: seg_def)
  have lr: "n = length [x] + length rest" using length_seg[OF assms(2)] sg by simp
  obtain s' where s': "insertion_sort cmp (?pre @ [x] @ rest @ ?post) (length ?pre) n (length ?pre + length [x]) = ?pre @ s' @ ?post"
    "mset s' = mset ([x] @ rest)" "sorted_by cmp s'" using insertion_sort_ok[OF assms(1) _ lr, of ?pre ?post] by auto
  then have res: "insertion_sort cmp xs a n (a + 1) = ?pre @ s' @ ?post" using xs lp by simp
  have ls: "length s' = n" using s'(2) lr by (metis mset_eq_length length_append)
  have sg': "seg (?pre @ s' @ ?post) a n = s'" using lp ls by (simp add: seg_def)
  have "within a n xs (?pre @ s' @ ?post)"
  proof (rule within_of_seg)
    show "length (?pre @ s' @ ?post) = length xs" using lp ls assms(2) by simp
    show "mset (seg (?pre @ s' @ ?post) a n) = mset (seg xs a n)" using sg' s'(2) sg by simp
    show "(?pre @ s' @ ?post) ! k = xs ! k" if "k < a \<or> a + n \<le> k" for k
      using that lp ls assms(2) by (auto simp: nth_append seg_def)
  qed (rule assms(2))
  then show ?thesis using res sg' s'(3) by simp
qed

section \<open>The partition\<close>

definition part_inv ::
    "('a \<Rightarrow> 'a \<Rightarrow> int) \<Rightarrow> nat \<Rightarrow> nat \<Rightarrow> 'a list \<Rightarrow> 'a list \<Rightarrow> nat \<Rightarrow> nat \<Rightarrow> nat \<Rightarrow> nat \<Rightarrow> bool" where
  "part_inv cmp a n xs0 xs pa pb pc pd \<longleftrightarrow>
     within (Suc a) (n - 1) xs0 xs \<and> a + n \<le> length xs \<and> a < pa \<and> pa \<le> pb \<and> pb \<le> Suc pc \<and> pc \<le> pd \<and> pd < a + n \<and>
     (\<forall>k. a < k \<longrightarrow> k < pa \<longrightarrow> cmp (xs ! k) (xs ! a) = 0) \<and>
     (\<forall>k. pa \<le> k \<longrightarrow> k < pb \<longrightarrow> cmp (xs ! k) (xs ! a) < 0) \<and>
     (\<forall>k. pc < k \<longrightarrow> k \<le> pd \<longrightarrow> cmp (xs ! k) (xs ! a) > 0) \<and>
     (\<forall>k. pd < k \<longrightarrow> k < a + n \<longrightarrow> cmp (xs ! k) (xs ! a) = 0)"

lemma part_inv_swap_eq_left:
  assumes "part_inv cmp a n xs0 xs pa pb pc pd" "pb \<le> pc" "cmp (xs ! pb) (xs ! a) = 0"
  shows "part_inv cmp a n xs0 (swap xs pa pb) (pa + 1) (pb + 1) pc pd"
proof -
  have b: "a < pa" "pa \<le> pb" "pb < a + n" "a + n \<le> length xs" using assms by (auto simp: part_inv_def)
  have sw: "swap xs pa pb ! k = (if k = pb then xs ! pa else if k = pa then xs ! pb else xs ! k)" for k
    using b by (intro swap_nth) auto
  have "within (Suc a) (n - 1) xs (swap xs pa pb)" using b by (intro within_swap) auto
  then have "within (Suc a) (n - 1) xs0 (swap xs pa pb)" using assms(1) within_trans by (auto simp: part_inv_def)
  then show ?thesis using assms b unfolding part_inv_def by (auto simp: sw less_Suc_eq)
qed

lemma part_inv_swap_eq_right:
  assumes "part_inv cmp a n xs0 xs pa pb pc pd" "pb \<le> pc" "cmp (xs ! pc) (xs ! a) = 0"
  shows "part_inv cmp a n xs0 (swap xs pc pd) pa pb (pc - 1) (pd - 1)"
proof -
  have b: "a < pa" "pa \<le> pb" "pc \<le> pd" "pd < a + n" "a + n \<le> length xs" using assms by (auto simp: part_inv_def)
  have sw: "swap xs pc pd ! k = (if k = pd then xs ! pc else if k = pc then xs ! pd else xs ! k)" for k
    using b by (intro swap_nth) auto
  have "within (Suc a) (n - 1) xs (swap xs pc pd)" using b assms(2) by (intro within_swap) auto
  then have w: "within (Suc a) (n - 1) xs0 (swap xs pc pd)" using assms(1) within_trans by (auto simp: part_inv_def)
  have gt: "cmp (swap xs pc pd ! k) (swap xs pc pd ! a) > 0" if "pc - 1 < k" "k \<le> pd - 1" for k
  proof -
    have "pc < pd" using that b assms(2) by auto
    then show ?thesis using that assms b by (auto simp: part_inv_def sw)
  qed
  have eq: "cmp (swap xs pc pd ! k) (swap xs pc pd ! a) = 0" if "pd - 1 < k" "k < a + n" for k
    using that assms b by (auto simp: part_inv_def sw)
  show ?thesis using w gt eq assms b unfolding part_inv_def by (auto simp: sw)
qed

lemma part_left_ok:
  "part_inv cmp a n xs0 xs pa pb pc pd \<Longrightarrow> part_left cmp a pc xs pa pb cnt = (xs', pa', pb', cnt') \<Longrightarrow>
   part_inv cmp a n xs0 xs' pa' pb' pc pd \<and> (pb' \<le> pc \<longrightarrow> cmp (xs' ! pb') (xs' ! a) > 0) \<and> pb \<le> pb'"
proof (induction cmp a pc xs pa pb cnt rule: part_left.induct)
  case (1 cmp a pc xs pa pb cnt)
  show ?case
  proof (cases "pb \<le> pc \<and> cmp (xs ! pb) (xs ! a) \<le> 0")
    case False
    then show ?thesis using "1.prems" by (subst (asm) part_left.simps) auto
  next
    case True
    show ?thesis
    proof (cases "cmp (xs ! pb) (xs ! a) = 0")
      case eq: True
      have "part_left cmp a pc (swap xs pa pb) (pa + 1) (pb + 1) True = (xs', pa', pb', cnt')"
        using "1.prems"(2) True eq by (subst (asm) part_left.simps) simp
      from "1.IH"(1)[OF True eq part_inv_swap_eq_left this] "1.prems"(1) True eq show ?thesis by auto
    next
      case ne: False
      have p: "part_left cmp a pc xs pa (pb + 1) cnt = (xs', pa', pb', cnt')"
        using "1.prems"(2) True ne by (subst (asm) part_left.simps) simp
      have "part_inv cmp a n xs0 xs pa (pb + 1) pc pd"
        using "1.prems"(1) True ne unfolding part_inv_def by (auto simp: less_Suc_eq)
      from "1.IH"(2)[OF True ne this p] show ?thesis by auto
    qed
  qed
qed

lemma part_right_ok:
  "part_inv cmp a n xs0 xs pa pb pc pd \<Longrightarrow> part_right cmp a pb xs pc pd cnt = (xs', pc', pd', cnt') \<Longrightarrow>
   part_inv cmp a n xs0 xs' pa pb pc' pd' \<and> (pb \<le> pc' \<longrightarrow> cmp (xs' ! pc') (xs' ! a) < 0) \<and> pc' \<le> pc \<and>
   (\<forall>k<Suc pc'. xs' ! k = xs ! k)"
proof (induction cmp a pb xs pc pd cnt rule: part_right.induct)
  case (1 cmp a pb xs pc pd cnt)
  have pb: "0 < pb" using "1.prems"(1) by (auto simp: part_inv_def)
  show ?case
  proof (cases "pb \<le> pc \<and> cmp (xs ! pc) (xs ! a) \<ge> 0")
    case False
    then show ?thesis using "1.prems" pb by (subst (asm) part_right.simps) auto
  next
    case True
    then have c: "0 < pb \<and> pb \<le> pc \<and> cmp (xs ! pc) (xs ! a) \<ge> 0" using pb by simp
    show ?thesis
    proof (cases "cmp (xs ! pc) (xs ! a) = 0")
      case eq: True
      have p: "part_right cmp a pb (swap xs pc pd) (pc - 1) (pd - 1) True = (xs', pc', pd', cnt')"
        using "1.prems"(2) c eq by (subst (asm) part_right.simps) simp
      have "part_inv cmp a n xs0 (swap xs pc pd) pa pb (pc - 1) (pd - 1)"
        using part_inv_swap_eq_right[OF "1.prems"(1)] True eq by blast
      from "1.IH"(1)[OF c eq this p] have IH: "part_inv cmp a n xs0 xs' pa pb pc' pd'"
        "pb \<le> pc' \<longrightarrow> cmp (xs' ! pc') (xs' ! a) < 0" "pc' \<le> pc - 1" "\<forall>k<Suc pc'. xs' ! k = swap xs pc pd ! k" by auto
      have "swap xs pc pd ! k = xs ! k" if "k < Suc pc'" for k
        using that IH(3) c "1.prems"(1) by (subst swap_nth) (auto simp: part_inv_def)
      then show ?thesis using IH by auto
    next
      case ne: False
      have p: "part_right cmp a pb xs (pc - 1) pd cnt = (xs', pc', pd', cnt')"
        using "1.prems"(2) c ne by (subst (asm) part_right.simps) simp
      have "cmp (xs ! k) (xs ! a) > 0" if "pc - 1 < k" "k \<le> pd" for k
        using that "1.prems"(1) True ne by (cases "k = pc") (auto simp: part_inv_def)
      then have "part_inv cmp a n xs0 xs pa pb (pc - 1) pd"
        using "1.prems"(1) c unfolding part_inv_def by auto
      from "1.IH"(2)[OF c ne this p] show ?thesis by auto
    qed
  qed
qed

lemma part_inv_swap:
  assumes "part_inv cmp a n xs0 xs pa pb pc pd" "pb \<le> pc" "cmp (xs ! pb) (xs ! a) > 0" "cmp (xs ! pc) (xs ! a) < 0"
  shows "part_inv cmp a n xs0 (swap xs pb pc) pa (pb + 1) (pc - 1) pd"
proof -
  have ne: "pb < pc" using assms(2-4) by (metis le_neq_implies_less not_less_iff_gr_or_eq)
  have b: "a < pa" "pa \<le> pb" "pc \<le> pd" "pd < a + n" "a + n \<le> length xs" using assms by (auto simp: part_inv_def)
  have sw: "swap xs pb pc ! k = (if k = pc then xs ! pb else if k = pb then xs ! pc else xs ! k)" for k
    using b ne by (intro swap_nth) auto
  have "within (Suc a) (n - 1) xs (swap xs pb pc)" using b ne by (intro within_swap) auto
  then have w: "within (Suc a) (n - 1) xs0 (swap xs pb pc)" using assms(1) within_trans by (auto simp: part_inv_def)
  have gt: "cmp (swap xs pb pc ! k) (swap xs pb pc ! a) > 0" if "pc - 1 < k" "k \<le> pd" for k
    using that assms b ne by (cases "k = pc") (auto simp: part_inv_def sw)
  show ?thesis using w gt assms b ne unfolding part_inv_def by (auto simp: sw less_Suc_eq)
qed

lemma part_loop_ok:
  "part_inv cmp a n xs0 xs pa pb pc pd \<Longrightarrow>
   \<exists>xs' pa' pb' pc' pd' cnt'. part_loop cmp a xs (pa, pb, pc, pd, cnt) = Some (xs', pa', pb', pc', pd', cnt') \<and>
     part_inv cmp a n xs0 xs' pa' pb' pc' pd' \<and> pb' = Suc pc'"
proof (induction "Suc pc - pb" arbitrary: xs pa pb pc pd cnt rule: less_induct)
  case less
  obtain xs1 pa1 pb1 cnt1 where l: "part_left cmp a pc xs pa pb cnt = (xs1, pa1, pb1, cnt1)" by (metis prod_cases4)
  have L: "part_inv cmp a n xs0 xs1 pa1 pb1 pc pd" "pb1 \<le> pc \<longrightarrow> cmp (xs1 ! pb1) (xs1 ! a) > 0" "pb \<le> pb1"
    using part_left_ok[OF less.prems l] by auto
  obtain xs2 pc2 pd2 cnt2 where r: "part_right cmp a pb1 xs1 pc pd cnt1 = (xs2, pc2, pd2, cnt2)" by (metis prod_cases4)
  have R: "part_inv cmp a n xs0 xs2 pa1 pb1 pc2 pd2" "pb1 \<le> pc2 \<longrightarrow> cmp (xs2 ! pc2) (xs2 ! a) < 0" "pc2 \<le> pc"
    "\<forall>k<Suc pc2. xs2 ! k = xs1 ! k"
    using part_right_ok[OF L(1) r] by auto
  have step: "part_loop cmp a xs (pa, pb, pc, pd, cnt) = (if pb1 > pc2 then Some (xs2, pa1, pb1, pc2, pd2, cnt2)
      else part_loop cmp a (swap xs2 pb1 pc2) (pa1, pb1 + 1, pc2 - 1, pd2, True))"
    by (subst part_loop.simps) (simp add: l r)
  show ?case
  proof (cases "pb1 > pc2")
    case True
    then have "pb1 = Suc pc2" using R(1) by (simp add: part_inv_def)
    then show ?thesis using step True R(1) by auto
  next
    case False
    have "a < pb1" using R(1) by (auto simp: part_inv_def)
    then have "xs2 ! pb1 = xs1 ! pb1" "xs2 ! a = xs1 ! a" using R(4) False by auto
    then have gt: "cmp (xs2 ! pb1) (xs2 ! a) > 0" using L(2) R(3) False by simp
    have inv: "part_inv cmp a n xs0 (swap xs2 pb1 pc2) pa1 (pb1 + 1) (pc2 - 1) pd2"
      using part_inv_swap[OF R(1) _ gt] R(2) False by simp
    have "Suc (pc2 - 1) - (pb1 + 1) < Suc pc - pb" using False L(3) R(3) by linarith
    from less.hyps[OF this inv, of True] step False show ?thesis by simp
  qed
qed

section \<open>Splitting\<close>

lemma length_vecswap [simp]: "length (vecswap xs i j r) = length xs"
  by (induction r arbitrary: xs i j) auto

lemma vecswap_nth:
  "i + r \<le> j \<Longrightarrow> j + r \<le> length xs \<Longrightarrow>
   vecswap xs i j r ! k = (if i \<le> k \<and> k < i + r then xs ! (k + (j - i)) else if j \<le> k \<and> k < j + r then xs ! (k - (j - i)) else xs ! k)"
proof (induction r arbitrary: xs i j)
  case 0
  then show ?case by auto
next
  case (Suc r)
  have sw: "swap xs i j ! l = (if l = j then xs ! i else if l = i then xs ! j else xs ! l)" for l
    using Suc.prems by (intro swap_nth) auto
  have ji: "j + 1 - (i + 1) = j - i" by simp
  have "vecswap xs i j (Suc r) ! k = (if i + 1 \<le> k \<and> k < i + 1 + r then swap xs i j ! (k + (j - i))
      else if j + 1 \<le> k \<and> k < j + 1 + r then swap xs i j ! (k - (j - i)) else swap xs i j ! k)"
    using Suc.IH[of "i + 1" "j + 1" "swap xs i j"] Suc.prems unfolding ji by simp
  also have "\<dots> = (if i \<le> k \<and> k < i + Suc r then xs ! (k + (j - i)) else if j \<le> k \<and> k < j + Suc r then xs ! (k - (j - i)) else xs ! k)"
    using Suc.prems by (auto simp: sw)
  finally show ?case .
qed

lemma within_vecswap:
  "a \<le> i \<Longrightarrow> i + r \<le> j \<Longrightarrow> j + r \<le> a + n \<Longrightarrow> a + n \<le> length xs \<Longrightarrow> within a n xs (vecswap xs i j r)"
proof (induction r arbitrary: xs i j)
  case 0
  then show ?case by simp
next
  case (Suc r)
  have "within a n xs (swap xs i j)" using Suc.prems by (intro within_swap) auto
  moreover have "within a n (swap xs i j) (vecswap (swap xs i j) (i + 1) (j + 1) r)"
    using Suc.prems by (intro Suc.IH) auto
  ultimately show ?case using within_trans by auto
qed

text \<open>Exchanging two adjacent blocks of \<open>p\<close> and \<open>q\<close> elements by swapping only \<open>min p q\<close> of them.\<close>

lemma vecswap_blocks:
  assumes "i + (p + q) \<le> length xs" "\<forall>k. i \<le> k \<longrightarrow> k < i + p \<longrightarrow> P (xs ! k)" "\<forall>k. i + p \<le> k \<longrightarrow> k < i + (p + q) \<longrightarrow> Q (xs ! k)"
    and r: "r = min p q" and ys: "ys = vecswap xs i (i + (p + q) - r) r"
  shows "(\<forall>k. i \<le> k \<longrightarrow> k < i + q \<longrightarrow> Q (ys ! k)) \<and> (\<forall>k. i + q \<le> k \<longrightarrow> k < i + (p + q) \<longrightarrow> P (ys ! k)) \<and>
    (\<forall>k. k < i \<or> i + (p + q) \<le> k \<longrightarrow> ys ! k = xs ! k)"
proof -
  define j where "j = i + (p + q) - r"
  have nth: "ys ! k = (if i \<le> k \<and> k < i + r then xs ! (k + (j - i)) else if j \<le> k \<and> k < j + r then xs ! (k - (j - i)) else xs ! k)" for k
    unfolding ys j_def[symmetric] using assms(1) r by (intro vecswap_nth) (auto simp: j_def)
  have jr: "j + r = i + (p + q)" using r by (simp add: j_def)
  have "Q (ys ! k)" if "i \<le> k" "k < i + q" for k
    using that assms(3) r jr unfolding nth by (auto simp: j_def min_def split: if_splits)
  moreover have "P (ys ! k)" if "i + q \<le> k" "k < i + (p + q)" for k
    using that assms(2) r jr unfolding nth by (auto simp: j_def min_def split: if_splits)
  moreover have "ys ! k = xs ! k" if "k < i \<or> i + (p + q) \<le> k" for k
    using that r jr unfolding nth by (auto simp: j_def)
  ultimately show ?thesis by blast
qed

lemma med3_cases: "med3 cmp xs a b c \<in> {a, b, c}"
  by (simp add: med3_def)

lemma choose_pivot_range: "7 \<le> n \<Longrightarrow> a \<le> choose_pivot cmp xs a n \<and> choose_pivot cmp xs a n < a + n"
proof -
  assume n: "7 \<le> n"
  define pm where "pm = a + n div 2"
  define pn where "pn = a + (n - 1)"
  have in_range: "a \<le> med3 cmp xs x y z \<and> med3 cmp xs x y z < a + n"
    if "a \<le> x" "x < a + n" "a \<le> y" "y < a + n" "a \<le> z" "z < a + n" for x y z
    using med3_cases[of cmp xs x y z] that by auto
  have pm: "a \<le> pm" "pm < a + n" and pn: "a \<le> pn" "pn < a + n" using n by (auto simp: pm_def pn_def)
  show ?thesis
  proof (cases "n > 40")
    case True
    define d where "d = n div 8"
    have d: "2 * d < n" "n div 2 + d < n" "d \<le> n div 2" "2 * d \<le> n - 1" using True by (auto simp: d_def)
    have "choose_pivot cmp xs a n = med3 cmp xs (med3 cmp xs a (a + d) (a + 2 * d)) (med3 cmp xs (pm - d) pm (pm + d))
        (med3 cmp xs (pn - 2 * d) (pn - d) pn)"
      using True by (simp add: choose_pivot_def Let_def d_def pm_def pn_def)
    moreover have "a \<le> pm - d" "pm + d < a + n" "a \<le> pn - 2 * d" using d n by (auto simp: pm_def pn_def)
    ultimately show ?thesis using in_range d pm pn n by auto
  next
    case False
    then show ?thesis using in_range[of a pm pn] pm pn n by (simp add: choose_pivot_def Let_def pm_def pn_def)
  qed
qed

definition three_way :: "('a \<Rightarrow> 'a \<Rightarrow> int) \<Rightarrow> 'a list \<Rightarrow> nat \<Rightarrow> nat \<Rightarrow> nat \<Rightarrow> nat \<Rightarrow> bool" where
  "three_way cmp xs a n d r \<longleftrightarrow> d + r < n \<and> (\<exists>v.
     (\<forall>k. a \<le> k \<longrightarrow> k < a + d \<longrightarrow> cmp (xs ! k) v < 0) \<and>
     (\<forall>k. a + d \<le> k \<longrightarrow> k < a + n - r \<longrightarrow> cmp (xs ! k) v = 0) \<and>
     (\<forall>k. a + n - r \<le> k \<longrightarrow> k < a + n \<longrightarrow> cmp (xs ! k) v > 0))"

lemma comparator_refl: "comparator cmp \<Longrightarrow> cmp x x = 0"
  unfolding comparator_def by (metis neg_equal_zero sgn_eq_0_iff)

lemma qsort_arrange:
  assumes "comparator cmp" "part_inv cmp a n xs0 xs pa pb pc pd" "pb = Suc pc" "1 \<le> n"
    and r1: "r1 = min (pa - a) (pb - pa)" and ys: "ys = vecswap xs a (pb - r1) r1"
    and r2: "r2 = min (pd - pc) (a + n - pd - 1)" and zs: "zs = vecswap ys pb (a + n - r2) r2"
  shows "within a n xs zs \<and> three_way cmp zs a n (pb - pa) (pd - pc)"
proof -
  define v where "v = xs ! a"
  have b: "a < pa" "pa \<le> pb" "pc \<le> pd" "pd < a + n" "a + n \<le> length xs" using assms(2) by (auto simp: part_inv_def)
  have i1: "a + ((pa - a) + (pb - pa)) = pb" and i2: "pb + ((pd - pc) + (a + n - pd - 1)) = a + n" using b assms(3) by auto
  have e1: "cmp (xs ! k) v = 0" if "a \<le> k" "k < a + (pa - a)" for k
    using that assms(2) b comparator_refl[OF assms(1)] by (cases "k = a") (auto simp: part_inv_def v_def)
  have e2: "cmp (xs ! k) v < 0" if "a + (pa - a) \<le> k" "k < pb" for k
    using that assms(2) b by (auto simp: part_inv_def v_def)
  have e3: "cmp (xs ! k) v > 0" if "pb \<le> k" "k < pb + (pd - pc)" for k
    using that assms(2,3) b by (auto simp: part_inv_def v_def)
  have e4: "cmp (xs ! k) v = 0" if "pb + (pd - pc) \<le> k" "k < a + n" for k
    using that assms(2,3) b by (auto simp: part_inv_def v_def)
  have V1: "(\<forall>k. a \<le> k \<longrightarrow> k < a + (pb - pa) \<longrightarrow> cmp (ys ! k) v < 0) \<and> (\<forall>k. a + (pb - pa) \<le> k \<longrightarrow> k < pb \<longrightarrow> cmp (ys ! k) v = 0) \<and>
    (\<forall>k. k < a \<or> pb \<le> k \<longrightarrow> ys ! k = xs ! k)"
    using vecswap_blocks[of a "pa - a" "pb - pa" xs "\<lambda>x. cmp x v = 0" "\<lambda>x. cmp x v < 0" r1 ys, unfolded i1, OF _ _ _ r1 ys] e1 e2 b assms(3)
    by auto
  have V2: "(\<forall>k. pb \<le> k \<longrightarrow> k < pb + (a + n - pd - 1) \<longrightarrow> cmp (zs ! k) v = 0) \<and>
    (\<forall>k. pb + (a + n - pd - 1) \<le> k \<longrightarrow> k < a + n \<longrightarrow> cmp (zs ! k) v > 0) \<and> (\<forall>k. k < pb \<or> a + n \<le> k \<longrightarrow> zs ! k = ys ! k)"
    using vecswap_blocks[of pb "pd - pc" "a + n - pd - 1" ys "\<lambda>x. cmp x v > 0" "\<lambda>x. cmp x v = 0" r2 zs, unfolded i2, OF _ _ _ r2 zs]
      e3 e4 b V1 ys by auto
  have w1: "within a n xs ys" unfolding ys using b assms(3) r1 by (intro within_vecswap) (auto simp: min_def)
  have w2: "within a n ys zs" unfolding zs using b assms(3) r2 ys by (intro within_vecswap) (auto simp: min_def)
  have lt: "a + (pb - pa) < pb" using b by simp
  have sp: "a + n - (pd - pc) = pb + (a + n - pd - 1)" using b assms(3) by simp
  have "cmp (zs ! k) v < 0" if "a \<le> k" "k < a + (pb - pa)" for k using that V1 V2 lt by auto
  moreover have "cmp (zs ! k) v = 0" if "a + (pb - pa) \<le> k" "k < pb + (a + n - pd - 1)" for k
    using that V1 V2 by (cases "k < pb") auto
  moreover have "(pb - pa) + (pd - pc) < n" using b assms(3) by auto
  ultimately have "three_way cmp zs a n (pb - pa) (pd - pc)" unfolding three_way_def sp using V2 by blast
  then show ?thesis using within_trans[OF w1 w2] by blast
qed

lemma qsort_split_ok:
  assumes "comparator cmp" "a + n \<le> length xs"
  shows "\<exists>ys. (qsort_split cmp xs a n = Some (ys, None) \<and> within a n xs ys \<and> sorted_by cmp (seg ys a n)) \<or>
    (\<exists>d r ps. qsort_split cmp xs a n = Some (ys, Some ps) \<and> within a n xs ys \<and> three_way cmp ys a n d r \<and>
      (ps = ((a, d), (a + n - r, r)) \<or> ps = ((a + n - r, r), (a, d))))"
proof (cases "n < 7")
  case True
  then show ?thesis using insertion_sort_seg[OF assms] by (auto simp: qsort_split_def)
next
  case False
  define xs1 where "xs1 = swap xs a (choose_pivot cmp xs a n)"
  have piv: "a \<le> choose_pivot cmp xs a n" "choose_pivot cmp xs a n < a + n" using choose_pivot_range[of n a cmp xs] False by auto
  have w1: "within a n xs xs1" unfolding xs1_def using piv False assms(2) by (intro within_swap) auto
  have l1: "length xs1 = length xs" by (simp add: xs1_def)
  have "part_inv cmp a n xs1 xs1 (a + 1) (a + 1) (a + (n - 1)) (a + (n - 1))"
    using False assms(2) l1 by (auto simp: part_inv_def)
  then obtain xs2 pa pb pc pd cnt where p: "part_loop cmp a xs1 (a + 1, a + 1, a + (n - 1), a + (n - 1), False) = Some (xs2, pa, pb, pc, pd, cnt)"
    "part_inv cmp a n xs1 xs2 pa pb pc pd" "pb = Suc pc" using part_loop_ok[of cmp a n xs1 xs1] by blast
  have w2: "within a n xs xs2"
  proof -
    have "within a n xs1 xs2" using p(2) False by (auto simp: part_inv_def elim!: within_mono)
    then show ?thesis using within_trans[OF w1] by blast
  qed
  show ?thesis
  proof (cases cnt)
    case no: False
    have "within a n xs2 (insertion_sort cmp xs2 a n (a + 1)) \<and> sorted_by cmp (seg (insertion_sort cmp xs2 a n (a + 1)) a n)"
      using insertion_sort_seg[OF assms(1), of a n xs2] within_length[OF w2] assms(2) by simp
    then show ?thesis using False no p(1) within_trans[OF w2] by (auto simp: qsort_split_def xs1_def[symmetric] Let_def)
  next
    case True
    define ys where "ys = vecswap xs2 a (pb - min (pa - a) (pb - pa)) (min (pa - a) (pb - pa))"
    define zs where "zs = vecswap ys pb (a + n - min (pd - pc) (a + n - pd - 1)) (min (pd - pc) (a + n - pd - 1))"
    define ps where "ps = (if pd - pc > pb - pa
        then ((a, pb - pa), (a + n - (pd - pc), pd - pc)) else ((a + n - (pd - pc), pd - pc), (a, pb - pa)))"
    have w: "within a n xs2 zs" and t: "three_way cmp zs a n (pb - pa) (pd - pc)"
      using qsort_arrange[OF assms(1) p(2,3) _ refl ys_def refl zs_def] False by auto
    have "qsort_split cmp xs a n = Some (zs, Some ps)"
      using False True p(1) by (simp add: qsort_split_def xs1_def[symmetric] Let_def ys_def zs_def ps_def)
    moreover have "ps = ((a, pb - pa), (a + n - (pd - pc), pd - pc)) \<or> ps = ((a + n - (pd - pc), pd - pc), (a, pb - pa))"
      by (simp add: ps_def)
    ultimately show ?thesis using within_trans[OF w2 w] t by blast
  qed
qed

section \<open>The main loop\<close>

text \<open>\<open>sorts cmp xs ys A\<close>: the array \<open>ys\<close> is \<open>xs\<close> with the segments of \<open>A\<close> sorted.\<close>

definition sorts :: "('a \<Rightarrow> 'a \<Rightarrow> int) \<Rightarrow> 'a list \<Rightarrow> 'a list \<Rightarrow> (nat \<times> nat) set \<Rightarrow> bool" where
  "sorts cmp xs ys A \<longleftrightarrow> length ys = length xs \<and>
     (\<forall>b l. (b, l) \<in> A \<longrightarrow> mset (seg ys b l) = mset (seg xs b l) \<and> sorted_by cmp (seg ys b l)) \<and>
     (\<forall>k. (\<forall>b l. (b, l) \<in> A \<longrightarrow> k < b \<or> b + l \<le> k) \<longrightarrow> ys ! k = xs ! k)"

definition apart :: "nat \<Rightarrow> (nat \<times> nat) set \<Rightarrow> bool" where
  "apart len A \<longleftrightarrow> (\<forall>b l. (b, l) \<in> A \<longrightarrow> b + l \<le> len)"

definition disjoint_segs :: "(nat \<times> nat) set \<Rightarrow> (nat \<times> nat) set \<Rightarrow> bool" where
  "disjoint_segs A B \<longleftrightarrow> (\<forall>b l c k. (b, l) \<in> A \<longrightarrow> (c, k) \<in> B \<longrightarrow> disj b l c k)"

fun pairwise_disj :: "(nat \<times> nat) list \<Rightarrow> bool" where
  "pairwise_disj [] \<longleftrightarrow> True"
| "pairwise_disj (e # es) \<longleftrightarrow> disjoint_segs {e} (set es) \<and> pairwise_disj es"

lemma sorts_outside: "sorts cmp xs ys A \<Longrightarrow> (\<And>b l. (b, l) \<in> A \<Longrightarrow> k < b \<or> b + l \<le> k) \<Longrightarrow> ys ! k = xs ! k"
  by (simp add: sorts_def)

lemma sorts_seg_unchanged:
  assumes "sorts cmp xs ys A" "disjoint_segs {(b, l)} A" "b + l \<le> length xs"
  shows "seg ys b l = seg xs b l"
proof (rule seg_eqI)
  fix k assume k: "b \<le> k" "k < b + l"
  have "k < c \<or> c + j \<le> k" if "(c, j) \<in> A" for c j
  proof -
    have "disj b l c j" using assms(2) that by (auto simp: disjoint_segs_def)
    then show ?thesis using k by (auto simp: disj_def)
  qed
  then show "ys ! k = xs ! k" using assms(1) by (simp add: sorts_def)
qed (use assms in \<open>auto simp: sorts_def\<close>)

lemma sorts_seq:
  assumes "sorts cmp xs ys A" "sorts cmp ys zs B" "disjoint_segs A B" "apart (length xs) (A \<union> B)"
  shows "sorts cmp xs zs (A \<union> B)"
proof -
  have len: "length zs = length xs" "length ys = length xs" using assms(1,2) by (auto simp: sorts_def)
  have "mset (seg zs b l) = mset (seg xs b l) \<and> sorted_by cmp (seg zs b l)" if "(b, l) \<in> A" for b l
  proof -
    have "seg zs b l = seg ys b l"
      using sorts_seg_unchanged[OF assms(2)] that assms(3,4) len by (auto simp: disjoint_segs_def apart_def)
    then show ?thesis using assms(1) that by (simp add: sorts_def)
  qed
  moreover have "mset (seg zs b l) = mset (seg xs b l) \<and> sorted_by cmp (seg zs b l)" if "(b, l) \<in> B" for b l
  proof -
    have "disjoint_segs {(b, l)} A" using assms(3) that by (auto simp: disjoint_segs_def disj_def)
    then have "seg ys b l = seg xs b l"
      using sorts_seg_unchanged[OF assms(1)] that assms(4) by (auto simp: apart_def)
    then show ?thesis using assms(2) that by (simp add: sorts_def)
  qed
  moreover have "zs ! k = xs ! k" if "\<forall>b l. (b, l) \<in> A \<union> B \<longrightarrow> k < b \<or> b + l \<le> k" for k
    using that assms(1,2) by (simp add: sorts_def)
  ultimately show ?thesis using len by (auto simp: sorts_def)
qed

lemma sorts_refl: "sorts cmp xs xs {}"
  by (simp add: sorts_def)

lemma sorts_one:
  "within a n xs ys \<Longrightarrow> a + n \<le> length xs \<Longrightarrow> sorted_by cmp (seg ys a n) \<Longrightarrow> sorts cmp xs ys {(a, n)}"
  using within_mset_seg[of a n xs ys] by (auto simp: sorts_def within_def)

lemma sorts_short:
  assumes "l \<le> 1" "b + l \<le> length xs"
  shows "sorts cmp xs xs {(b, l)}"
proof -
  have "length (seg xs b l) \<le> 1" using length_seg[OF assms(2)] assms(1) by simp
  then have "sorted_by cmp (seg xs b l)" by (cases "seg xs b l") auto
  then show ?thesis by (simp add: sorts_def)
qed

lemma sorted_three:
  assumes "comparator cmp" "\<And>x. x \<in> set L \<Longrightarrow> cmp x v < 0" "\<And>x. x \<in> set M \<Longrightarrow> cmp x v = 0" "\<And>x. x \<in> set R \<Longrightarrow> cmp x v > 0"
    "sorted_by cmp L" "sorted_by cmp R"
  shows "sorted_by cmp (L @ M @ R)"
proof -
  have le: "cmp x y \<le> 0" if "cmp x v \<le> 0" "cmp y v \<ge> 0" for x y
    using comparator_trans[OF assms(1) that(1), of y] comparator_flip[OF assms(1), of y v] comparator_flip[OF assms(1), of v y] that(2)
    by (metis not_le)
  have "sorted_by cmp M" unfolding sorted_wrt_iff_nth_less
  proof (intro allI impI)
    fix i j assume "i < j" "j < length M"
    then have "M ! i \<in> set M" "M ! j \<in> set M" by auto
    then show "cmp (M ! i) (M ! j) \<le> 0" using le assms(3) by simp
  qed
  moreover have "\<forall>x\<in>set L. \<forall>y\<in>set M \<union> set R. cmp x y \<le> 0" using le assms(2-4) by (metis Un_iff less_imp_le order_refl)
  moreover have "\<forall>x\<in>set M. \<forall>y\<in>set R. cmp x y \<le> 0" using le assms(3,4) by (metis less_imp_le order_refl)
  ultimately show ?thesis using assms(5,6) by (simp add: sorted_wrt_append)
qed

lemma sorts_three:
  assumes "comparator cmp" "within a n xs ys" "a + n \<le> length xs" "three_way cmp ys a n d r"
    "sorts cmp ys zs ({(a, d), (a + n - r, r)} \<union> B)" "disjoint_segs {(a, n)} B" "apart (length xs) B"
  shows "sorts cmp xs zs ({(a, n)} \<union> B)"
proof -
  have dr: "d + r < n" using assms(4) by (simp add: three_way_def)
  obtain v where v: "\<forall>k. a \<le> k \<longrightarrow> k < a + d \<longrightarrow> cmp (ys ! k) v < 0" "\<forall>k. a + d \<le> k \<longrightarrow> k < a + n - r \<longrightarrow> cmp (ys ! k) v = 0"
    "\<forall>k. a + n - r \<le> k \<longrightarrow> k < a + n \<longrightarrow> cmp (ys ! k) v > 0" using assms(4) by (auto simp: three_way_def)
  define e where "e = n - d - r"
  have n: "n = d + (e + r)" "a + n - r = a + d + e" using dr by (auto simp: e_def)
  have len: "length ys = length xs" "length zs = length xs" using assms(2,5) by (auto simp: within_def sorts_def)
  have sp: "seg us a n = seg us a d @ seg us (a + d) e @ seg us (a + d + e) r" if "length us = length xs" for us :: "'a list"
    using seg_concat[of a d "e + r" us] seg_concat[of "a + d" e r us] assms(3) that n by (simp add: add.assoc)
  have mid: "seg zs (a + d) e = seg ys (a + d) e"
  proof (rule sorts_seg_unchanged[OF assms(5)])
    have "disj (a + d) e c k" if "(c, k) \<in> B" for c k
      using assms(6) that n by (auto simp: disjoint_segs_def intro: disj_mono[of a n c k])
    then show "disjoint_segs {(a + d, e)} ({(a, d), (a + n - r, r)} \<union> B)" using n by (auto simp: disjoint_segs_def disj_def)
  qed (use n assms(3) len in auto)
  have ms: "mset (seg zs a d) = mset (seg ys a d)" "mset (seg zs (a + d + e) r) = mset (seg ys (a + d + e) r)"
    and so: "sorted_by cmp (seg zs a d)" "sorted_by cmp (seg zs (a + d + e) r)" using assms(5) n(2) by (auto simp: sorts_def)
  have st: "set (seg zs a d) = set (seg ys a d)" "set (seg zs (a + d + e) r) = set (seg ys (a + d + e) r)"
    using ms by (metis set_mset_mset)+
  have "sorted_by cmp (seg zs a d @ seg zs (a + d) e @ seg zs (a + d + e) r)"
  proof (rule sorted_three[OF assms(1) _ _ _ so, of v])
    show "cmp x v < 0" if "x \<in> set (seg zs a d)" for x
      using that v(1) st(1) seg_set[of a d ys] assms(3) len n by auto
    show "cmp x v = 0" if "x \<in> set (seg zs (a + d) e)" for x
      using that v(2) mid seg_set[of "a + d" e ys] assms(3) len n by auto
    show "cmp x v > 0" if "x \<in> set (seg zs (a + d + e) r)" for x
      using that v(3) st(2) seg_set[of "a + d + e" r ys] assms(3) len n by auto
  qed
  then have "sorted_by cmp (seg zs a n)" using sp[OF len(2)] by simp
  moreover have "mset (seg zs a n) = mset (seg xs a n)"
    using sp[OF len(2)] sp[OF len(1)] ms mid within_mset_seg[OF assms(2,3)] by simp
  moreover have "mset (seg zs b l) = mset (seg xs b l) \<and> sorted_by cmp (seg zs b l)" if "(b, l) \<in> B" for b l
  proof -
    have "disj a n b l" "b + l \<le> length xs" using that assms(6,7) by (auto simp: disjoint_segs_def apart_def)
    then have "seg ys b l = seg xs b l" using len within_outside[OF assms(2)] by (intro seg_eqI) (auto simp: disj_def)
    then show ?thesis using assms(5) that by (simp add: sorts_def)
  qed
  moreover have "zs ! k = xs ! k" if all: "\<forall>b l. (b, l) \<in> {(a, n)} \<union> B \<longrightarrow> k < b \<or> b + l \<le> k" for k
  proof -
    have out: "k < a \<or> a + n \<le> k" using all by blast
    have "k < c \<or> c + l \<le> k" if "(c, l) \<in> {(a, d), (a + n - r, r)}" for c l using that out n by auto
    moreover have "k < c \<or> c + l \<le> k" if "(c, l) \<in> B" for c l using all that by blast
    ultimately have "zs ! k = ys ! k" by (intro sorts_outside[OF assms(5)]) (elim UnE)
    then show ?thesis using within_outside[OF assms(2) out] by simp
  qed
  ultimately show ?thesis using len by (auto simp: sorts_def)
qed

text \<open>What the loop does next: pop the stack.\<close>

lemma disjoint_segs_insert: "disjoint_segs A (insert e B) \<longleftrightarrow> disjoint_segs A {e} \<and> disjoint_segs A B"
  by (auto simp: disjoint_segs_def)

definition weight :: "(nat \<times> nat) list \<Rightarrow> nat" where
  "weight es = sum_list (map (\<lambda>e. 2 * snd e + 1) es)"

lemma weight_Cons [simp]: "weight [] = 0" "weight (e # es) = 2 * snd e + 1 + weight es"
  by (simp_all add: weight_def)

lemma qsort_loop_ok:
  assumes "comparator cmp"
  shows "apart (length xs) (set ((a, n) # st)) \<Longrightarrow> pairwise_disj ((a, n) # st) \<Longrightarrow>
    \<exists>ys. qsort_loop cmp xs a n st = Some ys \<and> sorts cmp xs ys (set ((a, n) # st))"
proof (induction "weight ((a, n) # st)" arbitrary: xs a n st rule: less_induct)
  case less
  have an: "a + n \<le> length xs" using less.prems(1) by (auto simp: apart_def)
  have dst: "disjoint_segs {(a, n)} (set st)" "pairwise_disj st" using less.prems(2) by auto
  define rest where "rest us = (case st of [] \<Rightarrow> Some us | e # st \<Rightarrow> qsort_loop cmp us (fst e) (snd e) st)" for us
  have rest: "\<exists>zs. rest us = Some zs \<and> sorts cmp us zs (set st)" if "length us = length xs" for us
  proof (cases st)
    case Nil
    then show ?thesis by (simp add: rest_def sorts_refl)
  next
    case (Cons e st')
    then show ?thesis using less.hyps[of "fst e" "snd e" st' us] less.prems that by (auto simp: rest_def apart_def)
  qed
  obtain ys where "(qsort_split cmp xs a n = Some (ys, None) \<and> within a n xs ys \<and> sorted_by cmp (seg ys a n)) \<or>
    (\<exists>d r ps. qsort_split cmp xs a n = Some (ys, Some ps) \<and> within a n xs ys \<and> three_way cmp ys a n d r \<and>
      (ps = ((a, d), (a + n - r, r)) \<or> ps = ((a + n - r, r), (a, d))))"
    using qsort_split_ok[OF assms an] by blast
  then show ?case
  proof
    assume s: "qsort_split cmp xs a n = Some (ys, None) \<and> within a n xs ys \<and> sorted_by cmp (seg ys a n)"
    then have "length ys = length xs" by (auto dest: within_length)
    then obtain zs where z: "rest ys = Some zs" "sorts cmp ys zs (set st)" using rest by blast
    have "sorts cmp xs zs ({(a, n)} \<union> set st)"
      by (rule sorts_seq[OF sorts_one z(2) dst(1)]) (use s an less.prems(1) in auto)
    moreover have "qsort_loop cmp xs a n st = rest ys" using s by (subst qsort_loop.simps) (simp add: rest_def)
    ultimately show ?thesis using z(1) by simp
  next
    assume "\<exists>d r ps. qsort_split cmp xs a n = Some (ys, Some ps) \<and> within a n xs ys \<and> three_way cmp ys a n d r \<and>
      (ps = ((a, d), (a + n - r, r)) \<or> ps = ((a + n - r, r), (a, d)))"
    then obtain d r ps where q: "qsort_split cmp xs a n = Some (ys, Some ps)" "within a n xs ys" "three_way cmp ys a n d r"
      "ps = ((a, d), (a + n - r, r)) \<or> ps = ((a + n - r, r), (a, d))" by blast
    have dr: "d + r < n" using q(3) by (simp add: three_way_def)
    obtain p l b k where ps: "ps = ((p, l), (b, k))" by (metis surj_pair)
    have parts: "{(p, l), (b, k)} = {(a, d), (a + n - r, r)}" using q(4) ps by auto
    have "l + k < n \<and> disj p l b k \<and> a \<le> p \<and> p + l \<le> a + n \<and> a \<le> b \<and> b + k \<le> a + n"
      using q(4) ps dr by (auto simp: disj_def)
    then have s: "qsort_split cmp xs a n = Some (ys, Some ((p, l), (b, k)))" "within a n xs ys" "three_way cmp ys a n d r"
      "{(p, l), (b, k)} = {(a, d), (a + n - r, r)}" "l + k < n" "disj p l b k" "a \<le> p" "p + l \<le> a + n" "a \<le> b" "b + k \<le> a + n"
      using q ps parts by auto
    have len: "length ys = length xs" using s(2) by (rule within_length)
    have ap: "apart (length xs) ({(p, l), (b, k)} \<union> set st)" using less.prems(1) s(8,10) an by (auto simp: apart_def)
    have dp: "disjoint_segs {(p, l), (b, k)} (set st)" 
    proof -
      have "disj p l c j \<and> disj b k c j" if "(c, j) \<in> set st" for c j
        using dst(1) that s(7-10) by (auto simp: disjoint_segs_def intro: disj_mono[of a n c j])
      then show ?thesis by (auto simp: disjoint_segs_def)
    qed
    have dpb: "disjoint_segs {(p, l)} {(b, k)}" "disjoint_segs {(p, l)} (set st)" "disjoint_segs {(b, k)} (set st)"
      using s(6) dp by (auto simp: disjoint_segs_def)
    define tail where "tail us = (if k > 1 then qsort_loop cmp us b k st else rest us)" for us
    have tail: "\<exists>zs. tail us = Some zs \<and> sorts cmp us zs ({(b, k)} \<union> set st)" if lus: "length us = length xs" for us
    proof (cases "k > 1")
      case True
      then show ?thesis using less.hyps[of b k st us] lus ap s(5) dst(2) dpb by (simp add: tail_def apart_def)
    next
      case False
      obtain zs where z: "rest us = Some zs" "sorts cmp us zs (set st)" using rest[OF lus] by blast
      have "sorts cmp us zs ({(b, k)} \<union> set st)"
        by (rule sorts_seq[OF sorts_short z(2) dpb(3)]) (use False ap lus in \<open>auto simp: apart_def\<close>)
      then show ?thesis using z(1) False by (simp add: tail_def)
    qed
    have un: "{(p, l)} \<union> ({(b, k)} \<union> set st) = {(p, l), (b, k)} \<union> set st" by auto
    have tail_eq: "tail = (\<lambda>us. if Suc 0 < k then qsort_loop cmp us b k st
        else case st of [] \<Rightarrow> Some us | e # st \<Rightarrow> qsort_loop cmp us (fst e) (snd e) st)"
      by (rule ext) (simp add: tail_def rest_def)
    have step: "qsort_loop cmp xs a n st = (if l > 1 then
        if length st < 8 then qsort_loop cmp ys p l ((b, k) # st) else do { us \<leftarrow> qsort_loop cmp ys p l []; tail us }
        else tail ys)"
      using s(1) by (subst qsort_loop.simps) (simp add: tail_eq cong: if_cong)
    have "\<exists>zs. qsort_loop cmp xs a n st = Some zs \<and> sorts cmp ys zs ({(p, l), (b, k)} \<union> set st)"
    proof (cases "l > 1")
      case False
      obtain zs where z: "tail ys = Some zs" "sorts cmp ys zs ({(b, k)} \<union> set st)" using tail[OF len] by blast
      have "sorts cmp ys zs ({(p, l)} \<union> ({(b, k)} \<union> set st))"
        by (rule sorts_seq[OF sorts_short z(2)]) (use False ap len dpb in \<open>auto simp: apart_def disjoint_segs_insert[of _ _ "set st"]\<close>)
      then show ?thesis using step False z(1) unfolding un by simp
    next
      case l: True
      show ?thesis
      proof (cases "length st < 8")
        case True
        have "\<exists>zs. qsort_loop cmp ys p l ((b, k) # st) = Some zs \<and> sorts cmp ys zs (set ((p, l) # (b, k) # st))"
          by (rule less.hyps) (use len ap dpb dst(2) s(5) in \<open>auto simp: disjoint_segs_insert[of _ _ "set st"] apart_def\<close>)
        then show ?thesis using step l True by simp
      next
        case False
        obtain us where u: "qsort_loop cmp ys p l [] = Some us" "sorts cmp ys us {(p, l)}"
          using less.hyps[of p l "[]" ys] len ap s(5) by (auto simp: apart_def disjoint_segs_def)
        have lu: "length us = length xs" using u(2) len by (simp add: sorts_def)
        obtain zs where z: "tail us = Some zs" "sorts cmp us zs ({(b, k)} \<union> set st)" using tail[OF lu] by blast
        have "sorts cmp ys zs ({(p, l)} \<union> ({(b, k)} \<union> set st))"
          by (rule sorts_seq[OF u(2) z(2)]) (use ap len dpb in \<open>auto simp: apart_def disjoint_segs_insert[of _ _ "set st"]\<close>)
        then show ?thesis using step l False u(1) z(1) unfolding un by simp
      qed
    qed
    then obtain zs where z: "qsort_loop cmp xs a n st = Some zs" "sorts cmp ys zs ({(p, l), (b, k)} \<union> set st)" by blast
    have "sorts cmp xs zs ({(a, n)} \<union> set st)"
      by (rule sorts_three[OF assms s(2) an s(3) z(2)[unfolded s(4)] dst(1)]) (use less.prems(1) in \<open>auto simp: apart_def\<close>)
    then show ?thesis using z(1) by simp
  qed
qed

section \<open>The array in memory\<close>

definition exchangeable :: "addr \<Rightarrow> addr \<Rightarrow> nat \<Rightarrow> bool" where
  "exchangeable p q n \<longleftrightarrow> disj p n q n \<or> p = q"

lemma swap_blocks_step:
  assumes "length x1 = a" "length y1 = a" "length x2 = b" "length y2 = b" "exchangeable p q (a + b)" "p = q \<longrightarrow> x1 = y1 \<and> x2 = y2"
  shows "put (put (put (put m p y1) q x1) (p + a) y2) (q + a) x2 = put (put m p (y1 @ y2)) q (x1 @ x2)"
proof -
  have sw: "put (put m0 q x1) (p + a) y2 = put (put m0 (p + a) y2) q x1" if "disj p (a + b) q (a + b)" for m0 :: mem
    using that assms(1,4) by (intro put_put_disj) (auto simp: disj_def)
  show ?thesis
  proof (cases "p = q")
    case True
    then have e: "x1 = y1" "x2 = y2" using assms(6) by auto
    show ?thesis using assms(1) unfolding True e
      by (simp add: put_append put_put_same) (metis put_append put_put_same)
  next
    case False
    then have "disj p (a + b) q (a + b)" using assms(5) by (simp add: exchangeable_def)
    from sw[OF this, of "put m p y1"] show ?thesis using assms(1,2) by (simp add: put_append)
  qed
qed

lemma rd_swapped:
  assumes "rd m p (a + b) = Some (x1 @ x2)" "rd m q (a + b) = Some (y1 @ y2)" "length x1 = a" "length y1 = a" "exchangeable p q (a + b)"
  shows "rd (put (put m p y1) q x1) (p + a) b = Some x2 \<and> rd (put (put m p y1) q x1) (q + a) b = Some y2 \<and>
    rd m p a = Some x1 \<and> rd m q a = Some y1"
proof -
  have x: "rd m p a = Some x1" "rd m (p + a) b = Some x2" using assms(1,3) rd_append_iff[of m p x1 b x2] by auto
  have y: "rd m q a = Some y1" "rd m (q + a) b = Some y2" using assms(2,4) rd_append_iff[of m q y1 b y2] by auto
  have "rd (put (put m p y1) q x1) (p + a) b = rd m (p + a) b" "rd (put (put m p y1) q x1) (q + a) b = rd m (q + a) b"
    using assms(3-5) by (auto simp: exchangeable_def disj_def intro!: rd_cong) (auto simp: put_def)
  then show ?thesis using x y by simp
qed

lemma swapcode_char_blocks:
  "rd m p (Suc n) = Some xs \<Longrightarrow> rd m q (Suc n) = Some ys \<Longrightarrow> exchangeable p q (Suc n) \<Longrightarrow>
   swapcode_char m p q (Suc n) = Some (put (put m p ys) q xs)"
proof (induction n arbitrary: m p q xs ys)
  case 0
  then obtain x y where "xs = [x]" "ys = [y]" "m p = Some x" "m q = Some y" by (auto simp: bind_eq_Some_conv)
  then show ?case by (subst swapcode_char.simps) (simp add: st8_def put_Cons)
next
  case (Suc n)
  obtain x xs' where x: "xs = [x] @ xs'" "length xs' = Suc n" using rd_length[OF Suc.prems(1)] by (cases xs) auto
  obtain y ys' where y: "ys = [y] @ ys'" "length ys' = Suc n" using rd_length[OF Suc.prems(2)] by (cases ys) auto
  define m1 where "m1 = put (put m p [y]) q [x]"
  have ex: "exchangeable p q (1 + Suc n)" using Suc.prems(3) by simp
  have r: "rd m1 (p + 1) (Suc n) = Some xs'" "rd m1 (q + 1) (Suc n) = Some ys'" "rd m p 1 = Some [x]" "rd m q 1 = Some [y]"
    using rd_swapped[of m p 1 "Suc n" "[x]" xs' q "[y]" ys'] Suc.prems x y ex unfolding m1_def by auto
  have at: "m p = Some x" "m q = Some y" using r(3,4) by (auto simp: bind_eq_Some_conv)
  have "exchangeable (p + 1) (q + 1) (Suc n)" using ex by (auto simp: exchangeable_def disj_def)
  from Suc.IH[OF r(1,2) this] have "swapcode_char m1 (p + 1) (q + 1) (Suc n) = Some (put (put m1 (p + 1) ys') (q + 1) xs')" .
  moreover have "put (put m1 (p + 1) ys') (q + 1) xs' = put (put m p ys) q xs" unfolding m1_def x(1) y(1)
    by (rule swap_blocks_step[where b = "Suc n"]) (use x y ex at r Suc.prems in auto)
  moreover have "st8 m p y = Some (put m p [y])" "st8 (put m p [y]) q x = Some m1"
    using at by (auto simp: st8_def put_Cons m1_def)
  ultimately show ?case using at by (subst swapcode_char.simps) simp
qed

lemma swap_long:
  assumes "rd m p 8 = Some xs" "rd m q 8 = Some ys" "p mod 8 = 0" "q mod 8 = 0"
  shows "do { t \<leftarrow> ld64 m p; u \<leftarrow> ld64 m q; m \<leftarrow> st64 m p u; st64 m q t } = Some (put (put m p ys) q xs)"
proof -
  have "mapped m p 8" "mapped m q 8" using assms(1,2) rd_mapped by blast+
  then show ?thesis using assms by (simp add: ld64_def st64_put mapped_put bytes_of_word_of_bytes rd_length)
qed

lemma swapcode_long_blocks:
  "rd m p (8 * Suc n) = Some xs \<Longrightarrow> rd m q (8 * Suc n) = Some ys \<Longrightarrow> exchangeable p q (8 * Suc n) \<Longrightarrow> p mod 8 = 0 \<Longrightarrow> q mod 8 = 0 \<Longrightarrow>
   swapcode_long m p q (Suc n) = Some (put (put m p ys) q xs)"
proof (induction n arbitrary: m p q xs ys)
  case 0
  then show ?case using swap_long[of m p xs q ys] by (subst swapcode_long.simps) simp
next
  case (Suc n)
  define x1 x2 y1 y2 where "x1 = take 8 xs" "x2 = drop 8 xs" "y1 = take 8 ys" "y2 = drop 8 ys"
  have l: "length xs = 8 + 8 * Suc n" "length ys = 8 + 8 * Suc n" using rd_length[OF Suc.prems(1)] rd_length[OF Suc.prems(2)] by auto
  have s: "xs = x1 @ x2" "ys = y1 @ y2" "length x1 = 8" "length y1 = 8" "length x2 = 8 * Suc n" "length y2 = 8 * Suc n"
    using l by (auto simp: x1_x2_y1_y2_def)
  define m1 where "m1 = put (put m p y1) q x1"
  have ex: "exchangeable p q (8 + 8 * Suc n)" using Suc.prems(3) by simp
  have rx: "rd m p (8 + 8 * Suc n) = Some (x1 @ x2)" "rd m q (8 + 8 * Suc n) = Some (y1 @ y2)" using Suc.prems(1,2) s(1,2) by auto
  have r: "rd m1 (p + 8) (8 * Suc n) = Some x2" "rd m1 (q + 8) (8 * Suc n) = Some y2" "rd m p 8 = Some x1" "rd m q 8 = Some y1"
    using rd_swapped[OF rx s(3,4) ex] unfolding m1_def by blast+
  have "exchangeable (p + 8) (q + 8) (8 * Suc n)" using ex by (auto simp: exchangeable_def disj_def)
  from Suc.IH[OF r(1,2) this] Suc.prems(4,5)
  have "swapcode_long m1 (p + 8) (q + 8) (Suc n) = Some (put (put m1 (p + 8) y2) (q + 8) x2)" by simp
  moreover have "put (put m1 (p + 8) y2) (q + 8) x2 = put (put m p ys) q xs" unfolding m1_def s(1,2)
  proof (rule swap_blocks_step[OF s(3,4,5,6) ex])
    show "p = q \<longrightarrow> x1 = y1 \<and> x2 = y2" using rx s(3,4) by auto
  qed
  ultimately show ?case using swap_long[OF r(3,4) Suc.prems(4,5)]
    by (subst swapcode_long.simps) (auto simp: m1_def bind_eq_Some_conv)
qed

lemma swapfunc_blocks:
  assumes "rd m p n = Some xs" "rd m q n = Some ys" "exchangeable p q n" "0 < n"
    "t \<le> 1 \<longrightarrow> p mod 8 = 0 \<and> q mod 8 = 0 \<and> n mod 8 = 0"
  shows "swapfunc m p q n t = Some (put (put m p ys) q xs)"
proof (cases "t \<le> 1")
  case True
  then obtain k where k: "n = 8 * Suc k" using assms(4,5) by (metis mod_0_imp_dvd dvdE gr0_conv_Suc nat_0_less_mult_iff)
  then show ?thesis using True assms swapcode_long_blocks[of m p k xs q ys] by (simp add: swapfunc_def)
next
  case False
  obtain k where "n = Suc k" using assms(4) by (cases n) auto
  then show ?thesis using False assms swapcode_char_blocks[of m p k xs q ys] by (simp add: swapfunc_def)
qed

definition array_at :: "mem \<Rightarrow> addr \<Rightarrow> nat \<Rightarrow> byte list list \<Rightarrow> bool" where
  "array_at m base es xs \<longleftrightarrow> (\<forall>i<length xs. rd m (base + i * es) es = Some (xs ! i))"

lemma element_disj: "i \<noteq> (j :: nat) \<Longrightarrow> disj (base + i * es) es (base + j * es) es"
proof (induction i j rule: linorder_wlog)
  case (le i j)
  then have "i * es + es \<le> j * es" by (metis Suc_leI add.commute le_neq_implies_less mult_Suc mult_le_mono1)
  then show ?case by (simp add: disj_def)
next
  case (sym i j)
  then show ?case by (simp add: disj_sym)
qed

lemma swap_mem_array:
  assumes "array_at m base es xs" "i < length xs" "j < length xs" "0 < es"
  shows "\<exists>m'. swap_mem m es (SWAPINIT base es) (base + i * es) (base + j * es) = Some m' \<and> array_at m' base es (swap xs i j)"
proof -
  let ?p = "base + i * es" and ?q = "base + j * es"
  define m' where "m' = put (put m ?p (xs ! j)) ?q (xs ! i)"
  have r: "rd m ?p es = Some (xs ! i)" "rd m ?q es = Some (xs ! j)" using assms by (auto simp: array_at_def)
  have l: "length (xs ! k) = es" if "k < length xs" for k using assms(1) that by (auto simp: array_at_def dest: rd_length)
  have ex: "exchangeable ?p ?q es" using element_disj[of i j base es] by (cases "i = j") (auto simp: exchangeable_def)
  have al: "?p mod 8 = 0 \<and> ?q mod 8 = 0 \<and> es mod 8 = 0" if "SWAPINIT base es \<le> 1"
  proof -
    have "base mod 8 = 0" "es mod 8 = 0" using that by (auto simp: SWAPINIT_def split: if_splits)
    then show ?thesis by (auto simp: mod_eq_0_iff_dvd)
  qed
  have "swap_mem m es (SWAPINIT base es) ?p ?q = Some m'"
  proof (cases "SWAPINIT base es = 0")
    case True
    then have "es = 8" by (auto simp: SWAPINIT_def split: if_splits)
    then show ?thesis using True swap_long[of m ?p "xs ! i" ?q "xs ! j"] r al by (simp add: swap_mem_def m'_def)
  next
    case False
    then show ?thesis using swapfunc_blocks[OF r ex assms(4)] al by (simp add: swap_mem_def m'_def)
  qed
  moreover have "rd m' (base + k * es) es = Some (swap xs i j ! k)" if "k < length xs" for k
  proof -
    have sw: "swap xs i j ! k = (if k = j then xs ! i else if k = i then xs ! j else xs ! k)"
      using assms by (intro swap_nth) auto
    have dj: "rd (put m0 (base + c * es) (xs ! d)) (base + k * es) es = rd m0 (base + k * es) es"
      if "k \<noteq> c" "d < length xs" for m0 c d
      using element_disj[of c k base es] l that by (intro rd_put_disj) auto
    show ?thesis using that assms l dj by (auto simp: sw m'_def rd_put_same array_at_def)
  qed
  ultimately show ?thesis by (auto simp: array_at_def)
qed

section \<open>Properties\<close>





end
