(* ===== verification/NumFns.thy ===== *)
theory NumFns
  imports StrMisc "HOL-Library.Signed_Division"
begin

text \<open>
  Conversions between strings and integers of newlib's \<open>stdlib\<close>: the \<open>strtol\<close> family, \<open>itoa\<close> and \<open>utoa\<close>, the
  base 64 encoding of \<open>a64l\<close> and \<open>l64a\<close>, the division and absolute value functions and the two
  small generators. The parsers are specified on a string cut into white space, sign, prefix, digits and rest;
  the printers are shown to be inverse to them.
\<close>

section \<open>Definitions\<close>

subsection \<open>strtol and its relatives\<close>

text \<open>The values \<open>errno\<close> is set to; a function that leaves it alone returns \<open>None\<close> for it.\<close>

datatype errno = EINVAL | ERANGE

text \<open>The parsers run in the "C" locale. The characters are \<open>int\<close>s, as in the source.\<close>

partial_function (option) skip_space :: "mem \<Rightarrow> addr \<Rightarrow> (int \<times> addr) option" where
  "skip_space m s = do {
     b \<leftarrow> ld8 m s;
     sp \<leftarrow> isspace (uint b);
     if sp then skip_space m (s + 1) else Some (uint b, s + 1) }"

text \<open>Sign and base prefix: the result is \<open>c\<close>, \<open>s\<close>, \<open>neg\<close> and \<open>base\<close> as they are before the digits.\<close>

definition num_prefix :: "mem \<Rightarrow> addr \<Rightarrow> int \<Rightarrow> (int \<times> addr \<times> bool \<times> int) option" where
  "num_prefix m nptr base = do {
     (c, s) \<leftarrow> skip_space m nptr;
     (c, s, neg) \<leftarrow>
       (if c = 45 then do { b \<leftarrow> ld8 m s; Some (uint b, s + 1, True) }
        else if c = 43 then do { b \<leftarrow> ld8 m s; Some (uint b, s + 1, False) }
        else Some (c, s, False));
     hex \<leftarrow>
       (if (base = 0 \<or> base = 16) \<and> c = 48 then do { b \<leftarrow> ld8 m s; Some (b = 120 \<or> b = 88) }
        else Some False);
     (c, s, base) \<leftarrow>
       (if hex then do { b \<leftarrow> ld8 m (s + 1); Some (uint b, s + 2, 16) } else Some (c, s, base));
     Some (c, s, neg, if base = 0 then if c = 48 then 8 else 10 else base) }"

text \<open>The value of a character as a digit.\<close>

definition digit_of :: "int \<Rightarrow> int option" where
  "digit_of c =
     (if c \<ge> 48 \<and> c \<le> 57 then Some (c - 48)
      else if c \<ge> 65 \<and> c \<le> 90 then Some (c - (65 - 10))
      else if c \<ge> 97 \<and> c \<le> 122 then Some (c - (97 - 10))
      else None)"

text \<open>The digit loop; \<open>st\<close> is \<open>(c, s, acc, any)\<close> and the result \<open>(acc, any, s)\<close>.\<close>

partial_function (option) digits_loop ::
    "mem \<Rightarrow> int \<Rightarrow> ulong \<Rightarrow> int \<Rightarrow> int \<Rightarrow> addr \<Rightarrow> ulong \<Rightarrow> int \<Rightarrow> (ulong \<times> int \<times> addr) option" where
  "digits_loop m base cutoff cutlim c s acc any =
     (case digit_of c of
        None \<Rightarrow> Some (acc, any, s)
      | Some d \<Rightarrow>
          if d \<ge> base then Some (acc, any, s)
          else do {
            b \<leftarrow> ld8 m s;
            if any < 0 \<or> acc > cutoff \<or> (acc = cutoff \<and> d > cutlim)
            then digits_loop m base cutoff cutlim (uint b) (s + 1) acc (- 1)
            else digits_loop m base cutoff cutlim (uint b) (s + 1) (acc * word_of_int base + word_of_int d) 1 })"

declare skip_space.simps [code] digits_loop.simps [code]

definition LONG_MAX :: ulong where "LONG_MAX = 0x7FFFFFFFFFFFFFFF"

definition LONG_MIN :: ulong where "LONG_MIN = 0x8000000000000000"

definition ULONG_MAX :: ulong where "ULONG_MAX = 0xFFFFFFFFFFFFFFFF"

text \<open>
  The conversions return the value, what \<open>*endptr\<close> is set to, and \<open>errno\<close>. The value of the signed ones is
  the \<open>long\<close> as a word, to be read with \<^term>\<open>sint\<close>.
\<close>

definition strtol_tail :: "mem \<Rightarrow> addr \<Rightarrow> int \<Rightarrow> (ulong \<times> addr option \<times> errno option) option" where
  "strtol_tail m nptr base = do {
     (c, s, neg, base) \<leftarrow> num_prefix m nptr base;
     let cutoff = (if neg then - LONG_MIN else LONG_MAX);
         cutlim = uint (cutoff mod word_of_int base);
         cutoff = cutoff div word_of_int base in do {
     (acc, any, s) \<leftarrow> digits_loop m base cutoff cutlim c s 0 0;
     Some (if any < 0 then (if neg then LONG_MIN else LONG_MAX) else if neg then - acc else acc,
           Some (if any \<noteq> 0 then s - 1 else nptr),
           if any < 0 then Some ERANGE else None) } }"

definition strtol :: "mem \<Rightarrow> addr \<Rightarrow> int \<Rightarrow> (ulong \<times> addr option \<times> errno option) option" where
  "strtol m nptr base =
     (if base < 0 \<or> base = 1 \<or> base > 36 then Some (0, None, Some EINVAL) else strtol_tail m nptr base)"

definition strtoll :: "mem \<Rightarrow> addr \<Rightarrow> int \<Rightarrow> (ulong \<times> addr option \<times> errno option) option" where
  "strtoll m nptr base = strtol_tail m nptr base"

definition strtoul :: "mem \<Rightarrow> addr \<Rightarrow> int \<Rightarrow> (ulong \<times> addr option \<times> errno option) option" where
  "strtoul m nptr base = do {
     (c, s, neg, base) \<leftarrow> num_prefix m nptr base;
     let cutoff = ULONG_MAX div word_of_int base;
         cutlim = uint (ULONG_MAX mod word_of_int base) in do {
     (acc, any, s) \<leftarrow> digits_loop m base cutoff cutlim c s 0 0;
     Some (if any < 0 then ULONG_MAX else if neg then - acc else acc,
           Some (if any \<noteq> 0 then s - 1 else nptr),
           if any < 0 then Some ERANGE else None) } }"

definition strtoull :: "mem \<Rightarrow> addr \<Rightarrow> int \<Rightarrow> (ulong \<times> addr option \<times> errno option) option" where
  "strtoull m nptr base = strtoul m nptr base"

definition atoi :: "mem \<Rightarrow> addr \<Rightarrow> 32 word option" where
  "atoi m s = do { (v, _) \<leftarrow> strtol m s 10; Some (ucast v) }"

definition atol :: "mem \<Rightarrow> addr \<Rightarrow> ulong option" where
  "atol m s = do { (v, _) \<leftarrow> strtol m s 10; Some v }"

definition atoll :: "mem \<Rightarrow> addr \<Rightarrow> ulong option" where
  "atoll m s = do { (v, _) \<leftarrow> strtoll m s 10; Some v }"

subsection \<open>itoa and utoa\<close>

text \<open>An overflow of a signed operation, like a division by zero, is undefined: \<^term>\<open>None\<close>.\<close>

definition signed_result :: "nat \<Rightarrow> int \<Rightarrow> int option" where
  "signed_result w v = (if - (2 ^ (w - 1)) \<le> v \<and> v < 2 ^ (w - 1) then Some v else None)"

definition digits_str :: "byte list" where
  "digits_str = map of_nat ([48..<58] @ [97..<123])"

partial_function (option) utoa_digits :: "mem \<Rightarrow> addr \<Rightarrow> 32 word \<Rightarrow> 32 word \<Rightarrow> nat \<Rightarrow> (mem \<times> nat) option" where
  "utoa_digits m str base v i = do {
     m \<leftarrow> st8 m (str + i) (digits_str ! unat (v mod base));
     let v = v div base in
     if v \<noteq> 0 then utoa_digits m str base v (i + 1) else Some (m, i + 1) }"

function utoa_reverse :: "mem \<Rightarrow> addr \<Rightarrow> nat \<Rightarrow> nat \<Rightarrow> mem option" where
  "utoa_reverse m str j i =
     (if j < i then do {
        c \<leftarrow> ld8 m (str + j);
        d \<leftarrow> ld8 m (str + i);
        m \<leftarrow> st8 m (str + j) d;
        m \<leftarrow> st8 m (str + i) c;
        utoa_reverse m str (j + 1) (i - 1) }
      else Some m)"
  by pat_completeness auto

termination by (relation "measure (\<lambda>(_, _, j, i). i - j)") auto

declare utoa_digits.simps [code] utoa_reverse.simps [simp del]

definition utoa :: "mem \<Rightarrow> 32 word \<Rightarrow> addr \<Rightarrow> int \<Rightarrow> (mem \<times> addr) option" where
  "utoa m v str base =
     (if base < 2 \<or> base > 36 then do { m \<leftarrow> st8 m str 0; Some (m, NULL) }
      else do {
        (m, i) \<leftarrow> utoa_digits m str (word_of_int base) v 0;
        m \<leftarrow> st8 m (str + i) 0;
        m \<leftarrow> utoa_reverse m str 0 (i - 1);
        Some (m, str) })"

text \<open>The value of \<open>itoa\<close> is an \<open>int\<close>, a word read with \<^term>\<open>sint\<close>.\<close>

definition itoa :: "mem \<Rightarrow> 32 word \<Rightarrow> addr \<Rightarrow> int \<Rightarrow> (mem \<times> addr) option" where
  "itoa m v str base =
     (if base < 2 \<or> base > 36 then do { m \<leftarrow> st8 m str 0; Some (m, NULL) }
      else do {
        (m, i, uv) \<leftarrow>
          (if base = 10 \<and> sint v < 0
           then do { m \<leftarrow> st8 m str 45; n \<leftarrow> signed_result 32 (- sint v); Some (m, 1, word_of_int n) }
           else Some (m, 0, v));
        (m, _) \<leftarrow> utoa m uv (str + i) base;
        Some (m, str) })"

subsection \<open>a64l and l64a\<close>

definition a64l_digit :: "byte \<Rightarrow> ulong" where
  "a64l_digit ch =
     (if ch = 47 then 1
      else if 48 \<le> ch \<and> ch \<le> 57 then ucast (ch - 48) + 2
      else if 65 \<le> ch \<and> ch \<le> 90 then ucast (ch - 65) + 12
      else if 97 \<le> ch \<and> ch \<le> 122 then ucast (ch - 97) + 38
      else 0)"

fun a64l_end :: "mem \<Rightarrow> addr \<Rightarrow> nat \<Rightarrow> addr option" where
  "a64l_end m ptr 0 = Some ptr"
| "a64l_end m ptr (Suc n) = do {
     c \<leftarrow> ld8 m ptr;
     a64l_end m (if c \<noteq> 0 then ptr + 1 else ptr) n }"

fun a64l_loop :: "mem \<Rightarrow> addr \<Rightarrow> nat \<Rightarrow> ulong \<Rightarrow> ulong option" where
  "a64l_loop m inp 0 result = Some result"
| "a64l_loop m inp (Suc k) result = do {
     ch \<leftarrow> ld8 m (inp + k);
     a64l_loop m inp k (push_bit 6 result + a64l_digit ch) }"

definition a64l :: "mem \<Rightarrow> addr \<Rightarrow> ulong option" where
  "a64l m inp =
     (if inp = NULL then Some 0
      else do {
        ptr \<leftarrow> a64l_end m inp 6;
        result \<leftarrow> a64l_loop m inp (ptr - inp) 0;
        Some (if result AND 0x80000000 \<noteq> 0 then push_bit 32 (signed_drop_bit 32 (- 1)) + result else result) })"

definition R64_ARRAY :: "byte list" where
  "R64_ARRAY = [46, 47] @ map of_nat ([48..<58] @ [65..<91] @ [97..<123])"

fun l64a_loop :: "mem \<Rightarrow> addr \<Rightarrow> ulong \<Rightarrow> nat \<Rightarrow> mem option" where
  "l64a_loop m ptr tmp 0 = Some m"
| "l64a_loop m ptr tmp (Suc n) =
     (if tmp = 0 then st8 m ptr 0
      else do {
        m \<leftarrow> st8 m ptr (R64_ARRAY ! unat (tmp AND (64 - 1)));
        l64a_loop m (ptr + 1) (drop_bit 6 tmp) n })"

text \<open>\<open>buf\<close> is the buffer of 8 bytes in the reentrancy structure.\<close>

definition l64a :: "mem \<Rightarrow> addr \<Rightarrow> ulong \<Rightarrow> (mem \<times> addr) option" where
  "l64a m buf v = do { m \<leftarrow> l64a_loop m buf (v AND 0xffffffff) 6; Some (m, buf) }"

subsection \<open>Absolute values and division\<close>

definition abs_int :: "int \<Rightarrow> int option" where
  "abs_int i = (if i < 0 then signed_result 32 (- i) else Some i)"

definition labs :: "int \<Rightarrow> int option" where
  "labs x = (if x < 0 then signed_result 64 (- x) else Some x)"

definition llabs :: "int \<Rightarrow> int option" where
  "llabs j = (if j < 0 then signed_result 64 (- j) else Some j)"

definition div_quot_rem :: "nat \<Rightarrow> int \<Rightarrow> int \<Rightarrow> (int \<times> int) option" where
  "div_quot_rem w num denom =
     (if denom = 0 then None
      else do { q \<leftarrow> signed_result w (num sdiv denom); Some (q, num smod denom) })"

definition div_int :: "int \<Rightarrow> int \<Rightarrow> (int \<times> int) option" where
  "div_int num denom = do {
     (quot, rem) \<leftarrow> div_quot_rem 32 num denom;
     if num \<ge> 0 \<and> rem < 0 then do { q \<leftarrow> signed_result 32 (quot + 1); r \<leftarrow> signed_result 32 (rem - denom); Some (q, r) }
     else if num < 0 \<and> rem > 0 then do { q \<leftarrow> signed_result 32 (quot - 1); r \<leftarrow> signed_result 32 (rem + denom); Some (q, r) }
     else Some (quot, rem) }"

definition ldiv :: "int \<Rightarrow> int \<Rightarrow> (int \<times> int) option" where
  "ldiv num denom = do {
     (quot, rem) \<leftarrow> div_quot_rem 64 num denom;
     if num \<ge> 0 \<and> rem < 0 then do { q \<leftarrow> signed_result 64 (quot + 1); r \<leftarrow> signed_result 64 (rem - denom); Some (q, r) }
     else if num < 0 \<and> rem > 0 then do { q \<leftarrow> signed_result 64 (quot - 1); r \<leftarrow> signed_result 64 (rem + denom); Some (q, r) }
     else Some (quot, rem) }"

definition lldiv :: "int \<Rightarrow> int \<Rightarrow> (int \<times> int) option" where
  "lldiv numer denom = do {
     (quot, rem) \<leftarrow> div_quot_rem 64 numer denom;
     if numer \<ge> 0 \<and> rem < 0 then do { q \<leftarrow> signed_result 64 (quot + 1); r \<leftarrow> signed_result 64 (rem - denom); Some (q, r) }
     else Some (quot, rem) }"

subsection \<open>rand and rand_r\<close>

text \<open>The result and the new seed.\<close>

definition RAND_MAX :: "64 word" where "RAND_MAX = 0x7fffffff"

definition srand :: "32 word \<Rightarrow> ulong" where
  "srand seed = ucast seed"

definition rand :: "ulong \<Rightarrow> 32 word \<times> ulong" where
  "rand next = (let next = next * 6364136223846793005 + 1 in (ucast (drop_bit 32 next AND RAND_MAX), next))"

definition rand_r :: "32 word \<Rightarrow> int \<times> 32 word" where
  "rand_r seed =
     (let s = uint seed;
          s = (if s = 0 then 0x12345987 else s);
          k = s sdiv 127773;
          s = 16807 * (s - k * 127773) - 2836 * k;
          s = (if s < 0 then s + 2147483647 else s) in
      (uint (word_of_int s AND RAND_MAX), word_of_int s))"

section \<open>Digits\<close>

definition digv :: "byte \<Rightarrow> int" where
  "digv b = (case digit_of (uint b) of Some d \<Rightarrow> d | None \<Rightarrow> 0)"

definition isdig :: "int \<Rightarrow> byte \<Rightarrow> bool" where
  "isdig base b \<longleftrightarrow> (case digit_of (uint b) of Some d \<Rightarrow> d < base | None \<Rightarrow> False)"

definition numv :: "int \<Rightarrow> int \<Rightarrow> byte list \<Rightarrow> int" where
  "numv base v ds = foldl (\<lambda>a b. a * base + digv b) v ds"

lemma numv_simps [simp]: "numv base v [] = v" "numv base v (b # ds) = numv base (v * base + digv b) ds"
  by (simp_all add: numv_def)

lemma numv_snoc: "numv base v (ds @ [b]) = numv base v ds * base + digv b"
  by (simp add: numv_def)

lemma isdigD: "isdig base b \<Longrightarrow> digit_of (uint b) = Some (digv b) \<and> 0 \<le> digv b \<and> digv b < base"
  by (auto simp: isdig_def digv_def digit_of_def split: option.splits if_splits)

lemma not_isdigD: "\<not> isdig base b \<Longrightarrow> digit_of (uint b) = None \<or> (\<exists>d. digit_of (uint b) = Some d \<and> base \<le> d)"
  by (auto simp: isdig_def split: option.splits)

lemma not_isdig_0 [simp]: "\<not> isdig base 0"
  by (simp add: isdig_def digit_of_def)

lemma numv_mono: "1 \<le> base \<Longrightarrow> 0 \<le> v \<Longrightarrow> (\<And>b. b \<in> set ds \<Longrightarrow> isdig base b) \<Longrightarrow> v \<le> numv base v ds"
proof (induction ds arbitrary: v)
  case (Cons b ds)
  have b: "0 \<le> digv b" using isdigD[of base b] Cons.prems(3)[of b] by simp
  have "v \<le> v * base" using Cons.prems(1,2) by (simp add: mult_le_cancel_left1)
  then have le: "v \<le> v * base + digv b" using b by simp
  then have "v * base + digv b \<le> numv base (v * base + digv b) ds" using Cons by auto
  then show ?case using le by simp
qed simp

lemma cutoff_test:
  fixes L base v d :: int
  assumes "0 < base" "0 \<le> d" "d < base" "0 \<le> L" "0 \<le> v"
  shows "v > L div base \<or> (v = L div base \<and> d > L mod base) \<longleftrightarrow> v * base + d > L"
proof -
  define q r where "q = L div base" and "r = L mod base"
  have L: "L = q * base + r" by (simp add: q_def r_def)
  have m: "0 \<le> r" "r < base" using assms(1) by (auto simp: r_def)
  consider "v > q" | "v = q" | "v < q" by linarith
  then have "v > q \<or> (v = q \<and> d > r) \<longleftrightarrow> v * base + d > L"
  proof cases
    case 1
    then have "(q + 1) * base \<le> v * base" using assms(1) by (intro mult_right_mono) auto
    then have "q * base + base \<le> v * base" by (simp add: distrib_right)
    then show ?thesis using 1 L m assms(2) by linarith
  next
    case 2
    then show ?thesis using L by auto
  next
    case 3
    then have "(v + 1) * base \<le> q * base" using assms(1) by (intro mult_right_mono) auto
    then have "v * base + base \<le> q * base" by (simp add: distrib_right)
    then show ?thesis using 3 L m assms(3) by linarith
  qed
  then show ?thesis by (simp add: q_def r_def)
qed

section \<open>The digit loop\<close>

definition scan_state :: "int \<Rightarrow> int \<Rightarrow> ulong \<Rightarrow> int \<Rightarrow> bool" where
  "scan_state L v acc any \<longleftrightarrow> (if v > L then any = - 1 else (any = 0 \<or> any = 1) \<and> uint acc = v)"

lemma digits_loop_ok:
  assumes base: "2 \<le> base" "base \<le> 36" and L: "0 \<le> L" "L < 2 ^ 64"
    and cut: "cutoff = word_of_int (L div base)" "cutlim = L mod base"
    and rest: "rest = [] \<or> \<not> isdig base (hd rest)"
  shows "cstr_at m a (ds @ rest) \<Longrightarrow> (\<And>b. b \<in> set ds \<Longrightarrow> isdig base b) \<Longrightarrow> 0 \<le> v \<Longrightarrow> scan_state L v acc any \<Longrightarrow>
    c = uint ((ds @ rest @ [0]) ! 0) \<Longrightarrow>
    \<exists>acc' any'. digits_loop m base cutoff cutlim c (a + 1) acc any = Some (acc', any', a + length ds + 1) \<and>
      scan_state L (numv base v ds) acc' any' \<and> (ds \<noteq> [] \<longrightarrow> any' \<noteq> 0) \<and> (ds = [] \<longrightarrow> any' = any)"
proof (induction ds arbitrary: a v acc any c)
  case Nil
  have "\<not> isdig base ((rest @ [0]) ! 0)" using rest by (cases rest) auto
  from not_isdigD[OF this] show ?case using Nil by (subst digits_loop.simps) auto
next
  case (Cons b ds)
  have d: "digit_of (uint b) = Some (digv b)" "0 \<le> digv b" "digv b < base" using isdigD Cons.prems(2) by auto
  have nx: "m (a + 1) = Some ((ds @ rest @ [0]) ! 0)" and tl: "cstr_at m (a + 1) (ds @ rest)"
    using Cons.prems(1) delim_at_nth[of m "Suc a" 0 "ds @ rest" 0] by auto
  have uc: "uint cutoff = L div base"
  proof -
    have "L div base \<le> L" using zdiv_mono2[of L 1 base] L base by simp
    then show ?thesis using L base cut by (simp add: uint_word_of_int take_bit_int_eq_self pos_imp_zdiv_nonneg_iff)
  qed
  define v' where "v' = v * base + digv b"
  have v': "0 \<le> v'" using Cons.prems(3) d base by (simp add: v'_def)
  have vv: "v \<le> v'" using numv_mono[of base v "[b]"] Cons.prems(2,3) base by (simp add: v'_def)
  define over where "over \<longleftrightarrow> any < 0 \<or> acc > cutoff \<or> (acc = cutoff \<and> digv b > cutlim)"
  have ov: "over \<longleftrightarrow> v' > L"
  proof (cases "v > L")
    case True
    then show ?thesis using Cons.prems(4) vv by (auto simp: over_def scan_state_def)
  next
    case False
    then have acc: "uint acc = v" "\<not> any < 0" using Cons.prems(4) by (auto simp: scan_state_def)
    then have "over \<longleftrightarrow> v > L div base \<or> (v = L div base \<and> digv b > L mod base)"
      using uc cut(2) by (auto simp: over_def word_less_def word_uint_eq_iff)
    then show ?thesis using cutoff_test[of base "digv b" L v] base d L Cons.prems(3) by (simp add: v'_def)
  qed
  define acc1 where "acc1 = (if over then acc else acc * word_of_int base + word_of_int (digv b))"
  define any1 :: int where "any1 = (if over then - 1 else 1)"
  have st: "scan_state L v' acc1 any1"
  proof (cases over)
    case False
    then have le: "v' \<le> L" "v \<le> L" using ov vv by auto
    then have acc: "uint acc = v" using Cons.prems(4) by (auto simp: scan_state_def)
    have "word_of_int v' = acc1" using False acc by (simp add: acc1_def v'_def flip: acc)
    then have "uint acc1 = v'" using le v' L by (simp add: uint_word_of_int take_bit_int_eq_self flip: \<open>word_of_int v' = acc1\<close>)
    then show ?thesis using False le by (simp add: scan_state_def any1_def)
  qed (use ov in \<open>simp add: scan_state_def any1_def\<close>)
  have step: "digits_loop m base cutoff cutlim c (a + 1) acc any =
      digits_loop m base cutoff cutlim (uint ((ds @ rest @ [0]) ! 0)) (a + 1 + 1) acc1 any1"
    using Cons.prems(5) d nx by (subst digits_loop.simps) (simp add: acc1_def any1_def over_def)
  have "\<exists>acc' any'. digits_loop m base cutoff cutlim (uint ((ds @ rest @ [0]) ! 0)) (a + 1 + 1) acc1 any1 =
      Some (acc', any', a + 1 + length ds + 1) \<and> scan_state L (numv base v' ds) acc' any' \<and>
      (ds \<noteq> [] \<longrightarrow> any' \<noteq> 0) \<and> (ds = [] \<longrightarrow> any' = any1)"
    by (rule Cons.IH[OF tl]) (use Cons.prems(2) v' st in auto)
  then show ?case unfolding step by (auto simp: v'_def any1_def)
qed

lemma skip_space_ok:
  "cstr_at m p (ws @ u) \<Longrightarrow> (\<And>b. b \<in> set ws \<Longrightarrow> isspace (uint b) = Some True) \<Longrightarrow> isspace (uint ((u @ [0]) ! 0)) = Some False \<Longrightarrow>
   skip_space m p = Some (uint ((u @ [0]) ! 0), p + length ws + 1)"
proof (induction ws arbitrary: p)
  case Nil
  then show ?case using delim_at_nth[of m p 0 u 0] by (subst skip_space.simps) simp
next
  case (Cons b ws)
  then show ?case by (subst skip_space.simps) simp
qed

section \<open>What the parsers accept\<close>

lemma isspace_byte [simp]: "isspace (uint (b :: byte)) = Some (9 \<le> b \<and> b \<le> 13 \<or> b = 32)"
  by (auto simp: isspace_def ctype_lookup_range ctype_of_def ctype_flags word_le_def word_uint_eq_iff)

text \<open>
  A subject as the documentation describes it, cut into white space, sign, prefix, digits and the
  unparsed rest: \<open>b\<close> is the argument \<open>base\<close> and \<open>e\<close> the base the digits are read in.
\<close>

definition num_subject ::
    "int \<Rightarrow> int \<Rightarrow> byte list \<Rightarrow> byte list \<Rightarrow> byte list \<Rightarrow> byte list \<Rightarrow> byte list \<Rightarrow> bool" where
  "num_subject b e ws sg pre ds rest \<longleftrightarrow>
     list_all (\<lambda>c. 9 \<le> c \<and> c \<le> 13 \<or> c = 32) ws \<and> (sg = [] \<or> sg = [43] \<or> sg = [45]) \<and>
     ds \<noteq> [] \<and> list_all (isdig e) ds \<and> (rest = [] \<or> \<not> isdig e (hd rest)) \<and>
     (if pre \<noteq> [] then (pre = [48, 120] \<or> pre = [48, 88]) \<and> (b = 0 \<or> b = 16) \<and> e = 16
      else ((b = 0 \<or> b = 16) \<and> hd ds = 48 \<longrightarrow> hd (tl ds @ rest @ [0]) \<noteq> 120 \<and> hd (tl ds @ rest @ [0]) \<noteq> 88) \<and>
           (if b = 0 then e = (if hd ds = 48 then 8 else 10) else 2 \<le> b \<and> b \<le> 36 \<and> e = b))"

lemma num_subject_base: "num_subject b e ws sg pre ds rest \<Longrightarrow> 2 \<le> e \<and> e \<le> 36"
  by (auto simp: num_subject_def split: if_splits)

lemma isdig_not_special: "isdig e b \<Longrightarrow> \<not> (9 \<le> b \<and> b \<le> 13 \<or> b = 32) \<and> b \<noteq> 43 \<and> b \<noteq> 45"
  by (auto simp: isdig_def digit_of_def word_le_def split: option.splits if_splits)

lemma num_prefix_ok:
  assumes c: "cstr_at m p (ws @ sg @ pre @ ds @ rest)" and sub: "num_subject b e ws sg pre ds rest"
  shows "num_prefix m p b = Some (uint (hd ds), p + length ws + length sg + length pre + 1, sg = [45], e)"
proof -
  define u where "u = pre @ ds @ rest"
  define a where "a = p + length ws + length sg"
  from sub obtain d ds' where ds: "ds = d # ds'" "isdig e d" by (cases ds) (auto simp: num_subject_def)
  have h: "hd u = (u @ [0]) ! 0" "u \<noteq> []" "hd u \<noteq> 43" "hd u \<noteq> 45" "\<not> (9 \<le> hd u \<and> hd u \<le> 13 \<or> hd u = 32)"
    using sub ds isdig_not_special[OF ds(2)] by (auto simp: u_def num_subject_def word_le_def split: if_splits)
  have c2: "cstr_at m (p + length ws) (sg @ u)" using c delim_at_drop[OF c, of "length ws"] by (simp add: u_def)
  have c3: "cstr_at m a u" using delim_at_drop[OF c2, of "length sg"] by (simp add: a_def)
  have sp: "skip_space m p = Some (uint ((sg @ u @ [0]) ! 0), p + length ws + 1)"
  proof -
    have "isspace (uint (((sg @ u) @ [0]) ! 0)) = Some False"
      using sub h by (auto simp: num_subject_def word_le_def)
    then show ?thesis using skip_space_ok[of m p ws "sg @ u"] c sub by (simp add: u_def num_subject_def list_all_iff)
  qed
  have m0: "m a = Some (hd u)" using c3 delim_at_nth[of m a 0 u 0] h by simp
  have m1: "m (Suc a) = Some (hd (tl u @ [0]))"
    using c3 delim_at_nth[of m a 0 u 1] h(2) by (cases u; cases "tl u") auto
  have u48: "uint (hd u) = 48 \<longleftrightarrow> hd u = 48" "uint d = 48 \<longleftrightarrow> d = 48" by (auto simp: word_uint_eq_iff)
  have sign: "(if uint ((sg @ u @ [0]) ! 0) = 45 then do { b \<leftarrow> ld8 m (p + length ws + 1); Some (uint b, p + length ws + 1 + 1, True) }
        else if uint ((sg @ u @ [0]) ! 0) = 43 then do { b \<leftarrow> ld8 m (p + length ws + 1); Some (uint b, p + length ws + 1 + 1, False) }
        else Some (uint ((sg @ u @ [0]) ! 0), p + length ws + 1, False)) = Some (uint (hd u), a + 1, sg = [45])"
  proof -
    have ne: "uint (hd u) \<noteq> 45" "uint (hd u) \<noteq> 43" using h(3,4) by (auto simp: word_uint_eq_iff)
    from sub consider "sg = []" | "sg = [43]" | "sg = [45]" by (auto simp: num_subject_def)
    then show ?thesis
    proof cases
      case 1
      have "a = p + length ws" using 1 by (simp add: a_def)
      then show ?thesis using 1 ne h(1) by simp
    next
      case 2
      have "a = Suc (p + length ws)" using 2 by (simp add: a_def)
      then show ?thesis using 2 m0 by simp
    next
      case 3
      have "a = Suc (p + length ws)" using 3 by (simp add: a_def)
      then show ?thesis using 3 m0 by simp
    qed
  qed
  have np: "num_prefix m p b = do {
     hex \<leftarrow>
       (if (b = 0 \<or> b = 16) \<and> uint (hd u) = 48 then do { x \<leftarrow> ld8 m (a + 1); Some (x = 120 \<or> x = 88) }
        else Some False);
     (c, s, base) \<leftarrow>
       (if hex then do { x \<leftarrow> ld8 m (a + 1 + 1); Some (uint x, a + 1 + 2, 16) } else Some (uint (hd u), a + 1, b));
     Some (c, s, sg = [45], if base = 0 then if c = 48 then 8 else 10 else base) }"
    unfolding num_prefix_def by (simp only: sp sign bind.simps prod.case)
  show ?thesis
  proof (cases "pre = []")
    case True
    then have u: "hd u = d" "tl u = ds' @ rest" by (auto simp: u_def ds)
    have nx: "(b = 0 \<or> b = 16) \<and> d = 48 \<longrightarrow> hd (ds' @ rest @ [0]) \<noteq> 120 \<and> hd (ds' @ rest @ [0]) \<noteq> 88"
      "e = (if b = 0 then if d = 48 then 8 else 10 else b)" using sub True ds by (auto simp: num_subject_def split: if_splits)
    have "a + 1 = p + length ws + length sg + length pre + 1" using True by (simp add: a_def)
    then show ?thesis unfolding np using m1 u u48 nx ds(1) by auto
  next
    case False
    then obtain x where pre: "pre = [48, x]" "x = 120 \<or> x = 88" "b = 0 \<or> b = 16" "e = 16"
      using sub by (auto simp: num_subject_def split: if_splits)
    have "m (Suc (Suc a)) = Some d" using c3 delim_at_nth[of m a 0 u 2] by (simp add: u_def pre ds)
    moreover have "hd u = 48" "tl u = x # d # ds' @ rest" by (simp_all add: u_def pre ds)
    moreover have "a + 1 + 2 = p + length ws + length sg + length pre + 1" by (simp add: a_def pre)
    ultimately show ?thesis unfolding np using m1 pre(2-4) ds(1) by auto
  qed
qed

section \<open>The value, the end pointer and the error of the conversions\<close>

lemma cutoff_words:
  fixes W :: ulong
  assumes "2 \<le> e" "e \<le> (36 :: int)"
  shows "W div word_of_int e = word_of_int (uint W div e)" "uint (W mod word_of_int e) = uint W mod e"
proof -
  have e: "uint (word_of_int e :: ulong) = e" using assms by (simp add: uint_word_of_int take_bit_int_eq_self)
  have "uint (W div word_of_int e) = uint W div e" by (simp add: uint_div e)
  then have "word_of_int (uint W div e) = (word_of_int (uint (W div word_of_int e)) :: ulong)" by simp
  then show "W div word_of_int e = word_of_int (uint W div e)" by simp
  show "uint (W mod word_of_int e) = uint W mod e" by (simp add: uint_mod e)
qed

lemma scan_subject:
  fixes W :: ulong
  assumes c: "cstr_at m p (ws @ sg @ pre @ ds @ rest)" and sub: "num_subject b e ws sg pre ds rest"
  defines "v \<equiv> numv e 0 ds" and "q \<equiv> p + length ws + length sg + length pre"
  shows "\<exists>acc any. digits_loop m e (W div word_of_int e) (uint (W mod word_of_int e)) (uint (hd ds)) (q + 1) 0 0 =
      Some (acc, any, q + length ds + 1) \<and>
    0 \<le> v \<and> any \<noteq> 0 \<and> (any < 0 \<longleftrightarrow> v > uint W) \<and> (v \<le> uint W \<longrightarrow> acc = word_of_int v)"
proof -
  have e: "2 \<le> e" "e \<le> 36" using num_subject_base[OF sub] by auto
  have ds: "ds \<noteq> []" "\<And>x. x \<in> set ds \<Longrightarrow> isdig e x" and rest: "rest = [] \<or> \<not> isdig e (hd rest)"
    using sub by (auto simp: num_subject_def list_all_iff)
  have cd: "cstr_at m q (ds @ rest)"
    using delim_at_drop[OF c, of "length (ws @ sg @ pre)"] by (simp add: q_def add.assoc)
  have W: "0 \<le> uint W" "uint W < 2 ^ 64" using uint_lt2p[of W] by simp_all
  have h: "uint (hd ds) = uint ((ds @ rest @ [0]) ! 0)" using ds(1) by (cases ds) auto
  have s0: "scan_state (uint W) 0 0 0" using W by (simp add: scan_state_def)
  obtain acc any where r: "digits_loop m e (W div word_of_int e) (uint (W mod word_of_int e)) (uint (hd ds)) (q + 1) 0 0 =
      Some (acc, any, q + length ds + 1)" "scan_state (uint W) v acc any" "any \<noteq> 0"
    using digits_loop_ok[OF e W cutoff_words(1)[OF e] cutoff_words(2)[OF e] rest cd ds(2) order_refl s0 h] ds(1)
    unfolding v_def by blast
  have "0 \<le> v" using numv_mono[of e 0 ds] ds(2) e by (simp add: v_def)
  moreover have "any < 0 \<longleftrightarrow> v > uint W" "v \<le> uint W \<longrightarrow> acc = word_of_int v"
    using r(2) by (auto simp: scan_state_def split: if_splits)
  ultimately show ?thesis using r by blast
qed

definition signed_value :: "byte list \<Rightarrow> int \<Rightarrow> byte list \<Rightarrow> int" where
  "signed_value sg e ds = (if sg = [45] then - numv e 0 ds else numv e 0 ds)"

lemma strtol_tail_value:
  assumes c: "cstr_at m p (ws @ sg @ pre @ ds @ rest)" and sub: "num_subject b e ws sg pre ds rest"
  defines "v \<equiv> signed_value sg e ds"
  shows "strtol_tail m p b = Some (word_of_int (max (- (2 ^ 63)) (min (2 ^ 63 - 1) v)),
    Some (p + length ws + length sg + length pre + length ds), if - (2 ^ 63) \<le> v \<and> v < 2 ^ 63 then None else Some ERANGE)"
proof -
  define W where "W = (if sg = [45] then - LONG_MIN else LONG_MAX)"
  have W: "uint W = (if sg = [45] then 2 ^ 63 else 2 ^ 63 - 1)" by (simp add: W_def LONG_MIN_def LONG_MAX_def)
  from scan_subject[OF c sub, of W] obtain acc any where r:
    "digits_loop m e (W div word_of_int e) (uint (W mod word_of_int e)) (uint (hd ds)) (p + length ws + length sg + length pre + 1) 0 0 =
      Some (acc, any, p + length ws + length sg + length pre + length ds + 1)"
    "0 \<le> numv e 0 ds" "any \<noteq> 0" "any < 0 \<longleftrightarrow> numv e 0 ds > uint W" "numv e 0 ds \<le> uint W \<longrightarrow> acc = word_of_int (numv e 0 ds)"
    by blast
  have st: "strtol_tail m p b = Some (if any < 0 then (if sg = [45] then LONG_MIN else LONG_MAX) else if sg = [45] then - acc else acc,
      Some (p + length ws + length sg + length pre + length ds), if any < 0 then Some ERANGE else None)"
    unfolding strtol_tail_def using num_prefix_ok[OF c sub] r(1,3) by (simp add: W_def[symmetric] Let_def)
  define n where "n = numv e 0 ds"
  have lm: "LONG_MIN = word_of_int (- (2 ^ 63))" "LONG_MAX = word_of_int (2 ^ 63 - 1)"
    by (simp_all add: LONG_MIN_def LONG_MAX_def)
  have v: "v = (if sg = [45] then - n else n)" by (simp add: v_def signed_value_def n_def)
  have r': "0 \<le> n" "any < 0 \<longleftrightarrow> n > uint W" "n \<le> uint W \<longrightarrow> acc = word_of_int n" using r by (simp_all add: n_def)
  show ?thesis
  proof (cases "sg = [45]")
    case True
    have m: "max (- (2 ^ 63)) (min (2 ^ 63 - 1) v) = (if n > 2 ^ 63 then - (2 ^ 63) else - n)"
      using True r'(1) v by (auto simp: max_def min_def)
    show ?thesis unfolding st m using True r' v W by (auto simp: lm)
  next
    case False
    have m: "max (- (2 ^ 63)) (min (2 ^ 63 - 1) v) = (if n > 2 ^ 63 - 1 then 2 ^ 63 - 1 else n)"
      using False r'(1) v by (auto simp: max_def min_def)
    show ?thesis unfolding st m using False r' v W by (auto simp: lm)
  qed
qed

text \<open>
  C35: on white space, an optional sign, an optional prefix allowed by the base and at least
  one digit, strtol returns the number clamped to a \<open>long\<close>, stores the address behind the last
  digit and reports ERANGE exactly when it clamped.
\<close>

theorem strtol_value:
  assumes "cstr_at m p (ws @ sg @ pre @ ds @ rest)" "num_subject b e ws sg pre ds rest"
  shows "strtol m p b = Some (word_of_int (max (- (2 ^ 63)) (min (2 ^ 63 - 1) (signed_value sg e ds))),
    Some (p + length ws + length sg + length pre + length ds),
    if - (2 ^ 63) \<le> signed_value sg e ds \<and> signed_value sg e ds < 2 ^ 63 then None else Some ERANGE)"
proof -
  have "\<not> (b < 0 \<or> b = 1 \<or> b > 36)" using assms(2) by (auto simp: num_subject_def split: if_splits)
  then show ?thesis unfolding strtol_def using strtol_tail_value[OF assms] by simp
qed

theorem strtol_value_witness:
  "strtol (mem_image 8 [32, 45, 48, 120, 49, 102, 32, 0]) 8 0 = Some (- 31, Some 14, None)"
proof -
  let ?m = "mem_image 8 [32, 45, 48, 120, 49, 102, 32, 0]"
  have "cstr_at ?m 8 ([32] @ [45] @ [48, 120] @ [49, 102] @ [32])" by code_simp
  moreover have "num_subject 0 16 [32] [45] [48, 120] [49, 102] [32]" by code_simp
  ultimately have "strtol ?m 8 0 = Some (word_of_int (max (- (2 ^ 63)) (min (2 ^ 63 - 1) (signed_value [45] 16 [49, 102]))),
    Some (8 + length [32 :: byte] + length [45 :: byte] + length [48, 120 :: byte] + length [49, 102 :: byte]),
    if - (2 ^ 63) \<le> signed_value [45] 16 [49, 102] \<and> signed_value [45] 16 [49, 102] < 2 ^ 63 then None else Some ERANGE)"
    by (rule strtol_value)
  moreover have "signed_value [45] 16 [49, 102] = - 31" by code_simp
  ultimately show ?thesis by simp
qed

lemma strtoul_value:
  assumes c: "cstr_at m p (ws @ sg @ pre @ ds @ rest)" and sub: "num_subject b e ws sg pre ds rest"
  shows "strtoul m p b = Some (if numv e 0 ds < 2 ^ 64 then word_of_int (signed_value sg e ds) else ULONG_MAX,
    Some (p + length ws + length sg + length pre + length ds), if numv e 0 ds < 2 ^ 64 then None else Some ERANGE)"
proof -
  have W: "uint ULONG_MAX = 2 ^ 64 - 1" by (simp add: ULONG_MAX_def)
  from scan_subject[OF c sub, of ULONG_MAX] obtain acc any where r:
    "digits_loop m e (ULONG_MAX div word_of_int e) (uint (ULONG_MAX mod word_of_int e)) (uint (hd ds)) (p + length ws + length sg + length pre + 1) 0 0 =
      Some (acc, any, p + length ws + length sg + length pre + length ds + 1)"
    "any \<noteq> 0" "any < 0 \<longleftrightarrow> numv e 0 ds > uint ULONG_MAX" "numv e 0 ds \<le> uint ULONG_MAX \<longrightarrow> acc = word_of_int (numv e 0 ds)"
    by blast
  then show ?thesis
    unfolding strtoul_def using num_prefix_ok[OF c sub] W by (auto simp: signed_value_def)
qed

text \<open>A lone \<open>0x\<close>: the digits after it are missing, and the end pointer is the start of the string instead
  of the address behind the zero.\<close>

lemma strtol_bare_prefix:
  assumes "cstr_at m p [48, 120]"
  shows "strtol m p 16 = Some (0, Some p, None)"
  using assms by (simp add: strtol_def strtol_tail_def num_prefix_def skip_space.simps digits_loop.simps digit_of_def)

section \<open>Printing\<close>

function rdig :: "nat \<Rightarrow> nat \<Rightarrow> nat list" where
  "rdig b v = (if v div b = 0 \<or> b < 2 then [v mod b] else v mod b # rdig b (v div b))"
  by pat_completeness auto

termination
proof (relation "measure snd", goal_cases)
  case (2 b v)
  then have "0 < v" "1 < b" by (cases "v = 0"; simp)+
  then show ?case by simp
qed simp

declare rdig.simps [simp del]

lemma rdig_ne [simp]: "rdig b v \<noteq> []"
  by (subst rdig.simps) simp

lemma rdig_less: "0 < b \<Longrightarrow> d \<in> set (rdig b v) \<Longrightarrow> d < b"
proof (induction b v rule: rdig.induct)
  case (1 b v)
  then show ?case by (subst (asm) (2) rdig.simps) (auto split: if_splits)
qed

lemma rdig_length: "2 \<le> b \<Longrightarrow> 0 < k \<Longrightarrow> v < 2 ^ k \<Longrightarrow> length (rdig b v) \<le> k"
proof (induction k arbitrary: v)
  case (Suc k)
  show ?case
  proof (cases "v div b = 0")
    case False
    have "v div b \<le> v div 2" using Suc.prems(1) by (intro div_le_mono2) auto
    also have "v div 2 < 2 ^ k" using Suc.prems(3) by simp
    finally have lt: "v div b < 2 ^ k" .
    then have "0 < k" using False by (cases k) auto
    then show ?thesis using Suc.IH[OF Suc.prems(1) _ lt] Suc.prems(1) False by (subst rdig.simps) simp
  qed (simp add: rdig.simps)
qed simp

definition dchar :: "nat \<Rightarrow> byte" where
  "dchar d = digits_str ! d"

lemma dchar_range: "d < 36 \<Longrightarrow> digit_of (uint (dchar d)) = Some (int d) \<and> dchar d \<noteq> 0 \<and> (dchar d = 48 \<longrightarrow> d = 0)"
proof -
  have "list_all (\<lambda>d. digit_of (uint (dchar d)) = Some (int d) \<and> dchar d \<noteq> 0 \<and> (dchar d = 48 \<longrightarrow> d = 0)) [0..<36]" by code_simp
  then show "d < 36 \<Longrightarrow> ?thesis" by (simp only: list_all_iff) auto
qed

definition udigits :: "nat \<Rightarrow> nat \<Rightarrow> byte list" where
  "udigits b v = rev (map dchar (rdig b v))"

lemma digv_dchar: "d < 36 \<Longrightarrow> digv (dchar d) = int d"
  using dchar_range by (simp add: digv_def)

lemma udigits_numv: "2 \<le> b \<Longrightarrow> b \<le> 36 \<Longrightarrow> numv (int b) 0 (udigits b v) = int v"
proof (induction b v rule: rdig.induct)
  case (1 b v)
  have d: "digv (dchar (v mod b)) = int (v mod b)" using 1(2,3) mod_less_divisor[of b v] by (intro digv_dchar) linarith
  show ?case
  proof (cases "v div b = 0")
    case True
    then have "v mod b = v" using div_mult_mod_eq[of v b] by simp
    then show ?thesis using True d by (simp add: udigits_def rdig.simps[of b v])
  next
    case False
    then have "numv (int b) 0 (udigits b (v div b)) = int (v div b)" using 1 by simp
    moreover have "udigits b v = udigits b (v div b) @ [dchar (v mod b)]"
      using False 1 by (simp add: udigits_def rdig.simps[of b v])
    moreover have "int v = int (v div b) * int b + int (v mod b)" by (metis div_mult_mod_eq of_nat_add of_nat_mult)
    ultimately show ?thesis using d by (simp add: numv_snoc)
  qed
qed

lemma udigits_isdig: "2 \<le> b \<Longrightarrow> b \<le> 36 \<Longrightarrow> c \<in> set (udigits b v) \<Longrightarrow> isdig (int b) c \<and> c \<noteq> 0"
  using rdig_less[of b _ v] dchar_range by (fastforce simp: udigits_def isdig_def)

lemma udigits_ne [simp]: "udigits b v \<noteq> []"
  by (simp add: udigits_def)

lemma udigits_length: "2 \<le> b \<Longrightarrow> v < 2 ^ 32 \<Longrightarrow> length (udigits b v) \<le> 32"
  using rdig_length[of b 32 v] by (simp add: udigits_def)

lemma rdig_last: "2 \<le> b \<Longrightarrow> last (rdig b v) = 0 \<Longrightarrow> rdig b v = [0]"
proof (induction b v rule: rdig.induct)
  case (1 b v)
  show ?case
  proof (cases "v div b = 0")
    case True
    then show ?thesis using 1 by (simp add: rdig.simps[of b v])
  next
    case False
    then have "last (rdig b (v div b)) = 0" using 1 by (simp add: rdig.simps[of b v])
    then have "rdig b (v div b) = [0]" using 1 False by simp
    then have "udigits b (v div b) = [dchar 0]" "v div b mod b = 0 \<and> v div b div b = 0"
      using 1 by (auto simp: udigits_def rdig.simps[of b "v div b"] split: if_splits)
    then show ?thesis using False div_mult_mod_eq[of "v div b" b] by simp
  qed
qed

text \<open>Only zero is printed with a leading zero.\<close>

lemma udigits_hd: "2 \<le> b \<Longrightarrow> b \<le> 36 \<Longrightarrow> hd (udigits b v) = 48 \<Longrightarrow> tl (udigits b v) = []"
proof -
  assume a: "2 \<le> b" "b \<le> 36" "hd (udigits b v) = 48"
  have "hd (udigits b v) = dchar (last (rdig b v))" by (simp add: udigits_def hd_rev last_map)
  moreover have "last (rdig b v) < 36" using rdig_less[of b "last (rdig b v)" v] a(1,2) by fastforce
  ultimately have "last (rdig b v) = 0" using a(3) dchar_range by auto
  then have "rdig b v = [0]" using rdig_last a(1) by simp
  then show ?thesis by (simp add: udigits_def)
qed

lemma utoa_digits_put:
  "2 \<le> b \<Longrightarrow> unat base = b \<Longrightarrow> unat v = n \<Longrightarrow> mapped m (str + i) (length (rdig b n)) \<Longrightarrow>
   utoa_digits m str base v i = Some (put m (str + i) (map dchar (rdig b n)), i + length (rdig b n))"
proof (induction b n arbitrary: m v i rule: rdig.induct)
  case (1 b n)
  have q: "unat (v div base) = n div b" "unat (v mod base) = n mod b"
    using 1 by (simp_all add: unat_div unat_mod)
  have z: "v div base = 0 \<longleftrightarrow> n div b = 0" using q by (simp add: unat_eq_zero flip: q(1))
  have ma: "mapped m (str + i) 1" using mapped_le[OF 1(5), of 1] by (cases "rdig b n") auto
  define m1 where "m1 = put m (str + i) [dchar (n mod b)]"
  have st: "st8 m (str + i) (digits_str ! (n mod b)) = Some m1"
    using ma by (auto simp: st8_def m1_def dchar_def put_Cons mapped_def)
  show ?case
  proof (cases "n div b = 0")
    case True
    then show ?thesis using st q z by (subst utoa_digits.simps) (simp add: m1_def rdig.simps[of b n])
  next
    case False
    have rn: "rdig b n = n mod b # rdig b (n div b)" using False 1 by (simp add: rdig.simps[of b n])
    have "mapped m1 (str + (i + 1)) (length (rdig b (n div b)))"
      using 1(5) by (auto simp: m1_def rn mapped_Suc intro: mapped_put)
    with 1 False q have "utoa_digits m1 str base (v div base) (i + 1) =
        Some (put m1 (str + (i + 1)) (map dchar (rdig b (n div b))), i + 1 + length (rdig b (n div b)))"
      by auto
    then show ?thesis using st q z False by (subst utoa_digits.simps) (simp add: m1_def rn put_Cons)
  qed
qed

lemma utoa_reverse_put:
  "xs \<noteq> [] \<Longrightarrow> rd m (str + j) (length xs) = Some xs \<Longrightarrow>
   utoa_reverse m str j (j + length xs - 1) = Some (put m (str + j) (rev xs))"
proof (induction xs arbitrary: m j rule: length_induct)
  case (1 xs)
  show ?case
  proof (cases "length xs < 2")
    case True
    then obtain x where "xs = [x]" using 1(2) by (cases xs; cases "tl xs") auto
    then show ?thesis using 1(3) put_rd_same[OF 1(3)] by (simp add: utoa_reverse.simps)
  next
    case False
    then obtain a b mid where xs: "xs = a # mid @ [b]" by (cases xs; cases "tl xs" rule: rev_cases) auto
    define k where "k = length mid"
    have n: "m (str + j + i) = Some ((a # mid @ [b]) ! i)" if "i < k + 2" for i
      using rd_nth[OF 1(3), of i] that by (simp add: xs k_def)
    define m1 where "m1 = m(str + j \<mapsto> b, str + (j + k + 1) \<mapsto> a)"
    have lb: "m (str + j) = Some a" "m (str + (j + k + 1)) = Some b"
      using n[of 0] n[of "k + 1"] by (simp_all add: k_def nth_append add.assoc)
    have step: "utoa_reverse m str j (j + length xs - 1) = utoa_reverse m1 str (j + 1) (j + k)"
      using lb by (subst utoa_reverse.simps) (simp add: xs m1_def st8_def k_def)
    have eq: "put m (str + j) (rev xs) = put m1 (str + (j + 1)) (rev mid)"
      by (rule ext) (auto simp: xs m1_def put_def nth_append nth_Cons k_def split: nat.splits intro!: arg_cong[of _ _ "(!) (rev mid)"])
    show ?thesis
    proof (cases "mid = []")
      case True
      then show ?thesis unfolding step eq by (simp add: k_def utoa_reverse.simps)
    next
      case mid: False
      have "rd m1 (str + (j + 1)) (length mid) = Some mid"
        unfolding rd_Some_iff using n[of "_ + 1"] by (auto simp: m1_def k_def nth_append)
      then have "utoa_reverse m1 str (j + 1) (j + 1 + length mid - 1) = Some (put m1 (str + (j + 1)) (rev mid))"
        by (intro 1(1)[rule_format]) (simp_all add: xs mid)
      then show ?thesis unfolding step eq by (simp add: k_def)
    qed
  qed
qed

lemma utoa_put:
  assumes base: "2 \<le> base" "base \<le> 36" and ma: "mapped m str (length (udigits (nat base) (unat v)) + 1)"
  shows "utoa m v str base = Some (put m str (udigits (nat base) (unat v) @ [0]), str)"
proof -
  define b ds where "b = nat base" and "ds = map dchar (rdig b (unat v))"
  have ub: "unat (word_of_int base :: 32 word) = b" "2 \<le> b" using base
    by (simp_all add: b_def unat_eq_nat_uint uint_word_of_int take_bit_int_eq_self)
  have ma': "mapped m str (length (rdig b (unat v)))" "mapped m (str + length ds) 1"
    using ma unfolding mapped_split by (simp_all add: udigits_def ds_def b_def)
  have dg: "utoa_digits m str (word_of_int base) v 0 = Some (put m str ds, length ds)"
    using utoa_digits_put[OF ub(2,1) refl, of m str 0 v] ma'(1) by (simp add: ds_def)
  define m1 where "m1 = put m str (ds @ [0])"
  have st: "st8 (put m str ds) (str + length ds) 0 = Some m1"
    using mapped_put[OF ma'(2), of str ds] by (auto simp: st8_def m1_def put_snoc mapped_def)
  have "rd m1 str (length ds) = Some ds" unfolding rd_Some_iff by (simp add: m1_def put_def nth_append)
  then have "utoa_reverse m1 str 0 (length ds - 1) = Some (put m1 str (rev ds))"
    using utoa_reverse_put[of ds m1 str 0] by (simp add: ds_def)
  moreover have "put m1 str (rev ds) = put m str (udigits b (unat v) @ [0])"
    by (rule ext) (auto simp: m1_def put_def nth_append udigits_def ds_def)
  ultimately show ?thesis using base dg st by (simp add: utoa_def b_def)
qed

lemma itoa_put:
  assumes base: "2 \<le> base" "base \<le> 36" and neg: "neg \<longleftrightarrow> base = 10 \<and> sint v < 0" and lim: "sint v \<noteq> - (2 ^ 31)"
  defines "ds \<equiv> (if neg then [45] else []) @ udigits (nat base) (unat (if neg then - v else v))"
  assumes ma: "mapped m str (length ds + 1)"
  shows "itoa m v str base = Some (put m str (ds @ [0]), str)"
proof (cases neg)
  case True
  have st: "st8 m str 45 = Some (put m str [45])" using ma True by (auto simp: st8_def put_Cons ds_def mapped_Suc)
  have "mapped m (Suc str) (length (udigits (nat base) (unat (- v))) + 1)" using ma True by (simp add: ds_def mapped_Suc)
  moreover have "signed_result 32 (- sint v) = Some (- sint v)"
    using True neg lim sint_ge[of v] by (simp add: signed_result_def)
  ultimately show ?thesis using st utoa_put[OF base, of "put m str [45]" "Suc str" "- v"] base neg True
    by (simp add: itoa_def ds_def mapped_upd put_Cons)
next
  case False
  then show ?thesis using utoa_put[OF base, of m str v] ma base neg by (auto simp: itoa_def ds_def)
qed

lemma nat_base: "2 \<le> base \<Longrightarrow> base \<le> 36 \<Longrightarrow> 2 \<le> nat base \<and> nat base \<le> 36 \<and> int (nat base) = base"
  by auto

lemma num_subject_udigits:
  assumes "2 \<le> base" "base \<le> 36" "sg = [] \<or> sg = [45]"
  shows "num_subject base base [] sg [] (udigits (nat base) n) []"
  using udigits_isdig[of "nat base" _ n] udigits_hd[of "nat base" n] nat_base[OF assms(1,2)] assms
  by (auto simp: num_subject_def list_all_iff)

lemma cstr_printed:
  assumes "2 \<le> base" "base \<le> 36" "sg = [] \<or> sg = [45]"
  shows "cstr_at (put m str ((sg @ udigits (nat base) n) @ [0])) str ([] @ sg @ [] @ udigits (nat base) n @ [])"
proof -
  have "0 \<notin> set (udigits (nat base) n)" using udigits_isdig[of "nat base" 0 n] nat_base[OF assms(1,2)] by blast
  then have "0 \<notin> set (sg @ udigits (nat base) n)" using assms(3) by auto
  from delim_at_put_same[OF this] show ?thesis by simp
qed

lemma unat_neg_sint: "sint v < 0 \<Longrightarrow> int (unat (- v)) = - sint v" for v :: "32 word"
proof -
  assume n: "sint v < 0"
  have r: "- (2 ^ 31) \<le> sint v" "sint v < 2 ^ 31" using sint_ge[of v] sint_lt[of v] by simp_all
  have "- v = word_of_int (- sint v)" by simp
  then have "uint (- v) = - sint v" using n r by (simp only: uint_word_of_int) (simp add: take_bit_int_eq_self)
  then show ?thesis by simp
qed

lemma unat_nonneg_sint: "\<not> sint v < 0 \<Longrightarrow> int (unat v) = sint v" for v :: "32 word"
proof -
  assume n: "\<not> sint v < 0"
  have "uint v = sint v" using n uint_sint[of v] sint_lt[of v] by (simp add: take_bit_int_eq_self)
  then show ?thesis by simp
qed

lemma itoa_strtol_ok:
  assumes ma: "mapped m str 34" and lim: "sint v \<noteq> - (2 ^ 31)"
  shows "\<exists>m' n. itoa m v str 10 = Some (m', str) \<and> strtol m' str 10 = Some (scast v, Some (str + n), None) \<and> m' (str + n) = Some 0"
proof -
  define neg sg n where "neg \<longleftrightarrow> sint v < 0" and "sg = (if neg then [45 :: byte] else [])"
    and "n = unat (if neg then - v else v)"
  define m' where "m' = put m str ((sg @ udigits 10 n) @ [0])"
  have len: "length (udigits 10 n) \<le> 32" using unsigned_less[of "if neg then - v else v"] by (intro udigits_length) (simp_all add: n_def)
  have it: "itoa m v str 10 = Some (m', str)"
    using itoa_put[of 10 neg v m str] mapped_le[OF ma] len lim by (auto simp: neg_def n_def m'_def sg_def)
  have c: "cstr_at m' str ([] @ sg @ [] @ udigits 10 n @ [])"
    using cstr_printed[of 10 sg m str n] by (auto simp: m'_def sg_def)
  have sub: "num_subject 10 10 [] sg [] (udigits 10 n) []"
    using num_subject_udigits[of 10 sg n] by (auto simp: sg_def)
  have val: "signed_value sg 10 (udigits 10 n) = sint v"
    using udigits_numv[of 10 n] unat_neg_sint[of v] unat_nonneg_sint[of v] by (auto simp: signed_value_def sg_def n_def neg_def)
  have r: "- (2 ^ 31) \<le> sint v" "sint v < 2 ^ 31" using sint_ge[of v] sint_lt[of v] by simp_all
  have "strtol m' str 10 = Some (word_of_int (sint v), Some (str + (length sg + length (udigits 10 n))), None)"
    unfolding strtol_def using strtol_tail_value[OF c sub] val r by (simp add: add.assoc)
  moreover have "m' (str + (length sg + length (udigits 10 n))) = Some 0"
    using delim_at_end[OF c] by (simp add: add.assoc)
  moreover have "(word_of_int (sint v) :: ulong) = scast v" by simp
  ultimately show ?thesis using it by metis
qed

lemma utoa_strtoul_ok:
  assumes base: "2 \<le> base" "base \<le> 36" and ma: "mapped m str 34"
  shows "\<exists>m' n. utoa m u str base = Some (m', str) \<and> strtoul m' str base = Some (ucast u, Some (str + n), None) \<and> m' (str + n) = Some 0"
proof -
  define ds where "ds = udigits (nat base) (unat u)"
  define m' where "m' = put m str (ds @ [0])"
  have len: "length ds \<le> 32" using unsigned_less[of u] base unfolding ds_def by (intro udigits_length) simp_all
  have ut: "utoa m u str base = Some (m', str)"
    using utoa_put[OF base, of m str u] mapped_le[OF ma] len by (simp add: ds_def m'_def)
  have c: "cstr_at m' str ([] @ [] @ [] @ ds @ [])" using cstr_printed[OF base, of "[]"] by (simp add: m'_def ds_def)
  have sub: "num_subject base base [] [] [] ds []" using num_subject_udigits[OF base, of "[]"] by (simp add: ds_def)
  have val: "numv base 0 ds = uint u" using udigits_numv[of "nat base" "unat u"] nat_base[OF base] by (simp add: ds_def)
  have "uint u < 2 ^ 64" using uint_lt2p[of u] by simp
  then have "strtoul m' str base = Some (ucast u, Some (str + length ds), None)"
    using strtoul_value[OF c sub] val by (simp add: signed_value_def)
  moreover have "m' (str + length ds) = Some 0" using delim_at_end[OF c] by simp
  ultimately show ?thesis using ut by metis
qed



text \<open>The negation of the least \<open>int\<close> overflows before the cast to \<open>unsigned\<close> that is meant to avoid it.\<close>

lemma itoa_least_int: "itoa m (- 2147483648) str 10 = None"
  by (simp add: itoa_def signed_result_def st8_def)

section \<open>Division\<close>

lemma smod_sign:
  fixes n d :: int
  shows "0 \<le> n \<Longrightarrow> 0 \<le> n smod d" "n < 0 \<Longrightarrow> n smod d \<le> 0"
proof -
  have "0 \<le> \<bar>n\<bar> mod \<bar>d\<bar>" by (cases "d = 0") simp_all
  then show "0 \<le> n \<Longrightarrow> 0 \<le> n smod d" "n < 0 \<Longrightarrow> n smod d \<le> 0" by (auto simp: signed_modulo_int_def sgn_if)
qed

lemma smod_bound: "d \<noteq> 0 \<Longrightarrow> \<bar>n smod d\<bar> < \<bar>d\<bar>" for n d :: int
  by (auto simp: signed_modulo_int_def sgn_if abs_mult)

lemma sdiv_smod: "(n sdiv d) * d + n smod d = n" for n d :: int
proof -
  have "sgn n * (\<bar>n\<bar> div \<bar>d\<bar> * \<bar>d\<bar> + \<bar>n\<bar> mod \<bar>d\<bar>) = sgn n * \<bar>n\<bar>" by simp
  moreover have "sgn n * (\<bar>n\<bar> div \<bar>d\<bar> * \<bar>d\<bar> + \<bar>n\<bar> mod \<bar>d\<bar>) = (n sdiv d) * d + n smod d"
    by (simp add: signed_modulo_int_def signed_divide_int_def abs_sgn[of d] distrib_left ac_simps)
  ultimately show ?thesis by (simp add: sgn_mult_abs)
qed

text \<open>
  The quotient is truncated towards zero: the corrections of the source are never taken, and so lldiv, which has
  only one of them, agrees with ldiv.
\<close>

lemma ldiv_truncates:
  assumes "- (2 ^ 63) \<le> num" "num < 2 ^ 63" "denom \<noteq> 0" "\<not> (num = - (2 ^ 63) \<and> denom = - 1)"
  shows "\<exists>q r. ldiv num denom = Some (q, r) \<and> lldiv num denom = Some (q, r) \<and> num = q * denom + r \<and> \<bar>r\<bar> < \<bar>denom\<bar> \<and>
    (0 \<le> num \<longrightarrow> 0 \<le> r) \<and> (num < 0 \<longrightarrow> r \<le> 0)"
proof -
  have q: "\<bar>num sdiv denom\<bar> \<le> \<bar>num\<bar>"
  proof -
    have "\<bar>num\<bar> div \<bar>denom\<bar> \<le> \<bar>num\<bar>" "0 \<le> \<bar>num\<bar> div \<bar>denom\<bar>"
      using zdiv_mono2[of "\<bar>num\<bar>" 1 "\<bar>denom\<bar>"] assms(3) by (auto simp: pos_imp_zdiv_nonneg_iff)
    then have "\<bar>sgn num * sgn denom\<bar> * (\<bar>num\<bar> div \<bar>denom\<bar>) \<le> \<bar>num\<bar>" by (auto simp: sgn_if)
    then show ?thesis using \<open>0 \<le> \<bar>num\<bar> div \<bar>denom\<bar>\<close> by (simp only: signed_divide_int_def abs_mult abs_of_nonneg)
  qed
  have "num sdiv denom < 2 ^ 63"
  proof (rule ccontr)
    assume n: "\<not> num sdiv denom < 2 ^ 63"
    then have m: "num = - (2 ^ 63)" "num sdiv denom = 2 ^ 63" using q assms(1,2) by auto
    define r where "r = num smod denom"
    have "2 ^ 63 * denom + r = num" using sdiv_smod[of num denom] unfolding m(2) r_def .
    then have "2 ^ 63 * (denom + 1) = - (num smod denom)" unfolding r_def[symmetric] using m(1) by simp
    moreover have "denom \<le> 0" using m assms(3) pos_imp_zdiv_nonneg_iff[of denom "2 ^ 63"] by (auto simp: signed_divide_int_def sgn_if split: if_splits)
    ultimately show False using smod_bound[of denom num] assms(3,4) m smod_sign(2)[of num denom] by auto
  qed
  moreover have "- (2 ^ 63) \<le> num sdiv denom" using q assms(1,2) by auto
  ultimately have "div_quot_rem 64 num denom = Some (num sdiv denom, num smod denom)"
    using assms(3) by (simp add: div_quot_rem_def signed_result_def)
  then show ?thesis using smod_sign[of num denom] smod_bound[OF assms(3), of num] sdiv_smod[of num denom]
    by (auto simp: ldiv_def lldiv_def)
qed

text \<open>Schrage's method computes the multiplication modulo the Mersenne prime without overflow.\<close>

lemma rand_r_schrage:
  assumes "0 < uint seed" "uint seed < 2147483647"
  shows "uint (snd (rand_r seed)) = 16807 * uint seed mod 2147483647"
proof -
  define s k where "s = uint seed" and "k = s div 127773"
  define x where "x = 16807 * (s - k * 127773) - 2836 * k"
  have k: "s sdiv 127773 = k" using assms(1) unfolding s_def[symmetric] by (simp add: signed_divide_int_def k_def)
  have r: "0 \<le> s - k * 127773" "s - k * 127773 < 127773" by (simp_all add: k_def minus_div_mult_eq_mod)
  have kb: "0 \<le> k" "k \<le> 16807" using assms zdiv_mono1[of s 2147483647 127773] by (auto simp: k_def s_def)
  have x: "- 2147483647 < x" "x < 2147483647" using r kb by (auto simp: x_def)
  define y where "y = (if x < 0 then x + 2147483647 else x)"
  have "16807 * s = y + (if x < 0 then k - 1 else k) * 2147483647" by (simp add: y_def x_def algebra_simps)
  then have "16807 * s mod 2147483647 = y mod 2147483647" by simp
  also have "\<dots> = y" using x by (auto simp: y_def)
  finally have y: "16807 * s mod 2147483647 = y" .
  have "snd (rand_r seed) = word_of_int y"
    using assms k by (simp add: rand_r_def Let_def x_def y_def flip: s_def)
  moreover have "0 \<le> y" "y < 2147483647" using x by (auto simp: y_def)
  ultimately show ?thesis using y by (simp add: uint_word_of_int take_bit_int_eq_self s_def)
qed

section \<open>Base 64\<close>

text \<open>The digits of a word, least significant first, at most \<open>n\<close> of them.\<close>

fun digits64 :: "ulong \<Rightarrow> nat \<Rightarrow> byte list" where
  "digits64 w 0 = []"
| "digits64 w (Suc n) = (if w = 0 then [] else R64_ARRAY ! unat (w AND 63) # digits64 (drop_bit 6 w) n)"

lemma a64l_digit_R64: "d < 64 \<Longrightarrow> a64l_digit (R64_ARRAY ! d) = of_nat d \<and> R64_ARRAY ! d \<noteq> 0"
proof -
  have "list_all (\<lambda>d. a64l_digit (R64_ARRAY ! d) = of_nat d \<and> R64_ARRAY ! d \<noteq> 0) [0..<64]" by code_simp
  then show "d < 64 \<Longrightarrow> ?thesis" by (simp only: list_all_iff) auto
qed

lemma low6: "unat (w AND 63) < 64" "a64l_digit (R64_ARRAY ! unat (w AND 63)) = w AND 63" "R64_ARRAY ! unat (w AND 63) \<noteq> 0"
  for w :: ulong
proof -
  have "w AND 63 = take_bit 6 w" by (simp add: take_bit_eq_mask mask_eq_exp_minus_1)
  then show l: "unat (w AND 63) < 64"
    using take_bit_nat_less_exp[of 6 "unat w"] by (simp add: unsigned_take_bit_eq)
  then show "a64l_digit (R64_ARRAY ! unat (w AND 63)) = w AND 63" "R64_ARRAY ! unat (w AND 63) \<noteq> 0"
    using a64l_digit_R64[OF l] by simp_all
qed

lemma digits64_length: "length (digits64 w n) \<le> n"
  by (induction n arbitrary: w) auto

lemma digits64_nonzero: "c \<in> set (digits64 w n) \<Longrightarrow> c \<noteq> 0"
  by (induction n arbitrary: w) (auto simp: low6 split: if_splits)

lemma l64a_loop_put:
  "mapped m p n \<Longrightarrow> l64a_loop m p w n = Some (put m p (digits64 w n @ (if length (digits64 w n) < n then [0] else [])))"
proof (induction n arbitrary: m p w)
  case (Suc n)
  then have a: "m p \<noteq> None" "mapped m (Suc p) n" by (auto simp: mapped_Suc)
  have "l64a_loop (m(p \<mapsto> b)) (Suc p) (drop_bit 6 w) n =
      Some (put (m(p \<mapsto> b)) (Suc p) (digits64 (drop_bit 6 w) n @ (if length (digits64 (drop_bit 6 w) n) < n then [0] else [])))" for b
    by (rule Suc.IH) (rule mapped_upd[OF a(2)])
  then show ?case using a by (auto simp: st8_def put_Cons fun_upd_def)
qed simp

lemma a64l_end_str:
  "rd m p (length ds) = Some ds \<Longrightarrow> 0 \<notin> set ds \<Longrightarrow> length ds \<le> n \<Longrightarrow> (length ds < n \<Longrightarrow> m (p + length ds) = Some 0) \<Longrightarrow>
   a64l_end m p n = Some (p + length ds)"
proof (induction n arbitrary: p ds)
  case (Suc n)
  show ?case
  proof (cases ds)
    case Nil
    then have "m p = Some 0" using Suc.prems by simp
    then have "a64l_end m p k = Some p" for k by (induction k) simp_all
    then show ?thesis unfolding Nil list.size add_0_right .
  next
    case (Cons d ds')
    then have "a64l_end m (Suc p) n = Some (Suc p + length ds')"
      using Suc.prems unfolding Cons list.size rd_Suc_Some add_0_right add_Suc_right by (intro Suc.IH) auto
    moreover have "m p = Some d" "d \<noteq> 0" using Suc.prems unfolding Cons list.size rd_Suc_Some add_0_right add_Suc_right by auto
    ultimately show ?thesis using Cons by simp
  qed
qed simp

lemma a64l_loop_Cons:
  "m p = Some d \<Longrightarrow> a64l_loop m p (Suc k) r = map_option (\<lambda>r. push_bit 6 r + a64l_digit d) (a64l_loop m (Suc p) k r)"
proof (induction k arbitrary: r)
  case (Suc k)
  show ?case
  proof (cases "m (Suc (p + k))")
    case (Some c)
    then show ?thesis using Suc by (subst a64l_loop.simps) simp
  qed (use Suc in simp)
qed simp

lemma a64l_loop_digits:
  "rd m p (length (digits64 w n)) = Some (digits64 w n) \<Longrightarrow> drop_bit (6 * n) w = 0 \<Longrightarrow>
   a64l_loop m p (length (digits64 w n)) 0 = Some w"
proof (induction n arbitrary: p w)
  case (Suc n)
  show ?case
  proof (cases "w = 0")
    case False
    let ?w = "drop_bit 6 w"
    have ds: "digits64 w (Suc n) = R64_ARRAY ! unat (w AND 63) # digits64 ?w n" using False by simp
    have r: "m p = Some (R64_ARRAY ! unat (w AND 63))" "rd m (Suc p) (length (digits64 ?w n)) = Some (digits64 ?w n)"
      using Suc.prems(1) unfolding ds list.size rd_Suc_Some add_0_right add_Suc_right by auto
    have "drop_bit (6 * n) ?w = 0" using Suc.prems(2) by (simp add: drop_bit_drop_bit add.commute)
    then have "a64l_loop m (Suc p) (length (digits64 ?w n)) 0 = Some ?w" using Suc.IH r(2) by simp
    moreover have "push_bit 6 ?w + (w AND 63) = w"
      using bits_ident[of 6 w] by (simp add: take_bit_eq_mask mask_eq_exp_minus_1)
    ultimately show ?thesis unfolding ds list.size add_0_right add_Suc_right a64l_loop_Cons[of m p, OF r(1)] using low6(2)[of w] by simp
  qed simp
qed simp

lemma l64a_digits:
  assumes "mapped m buf 6"
  shows "\<exists>m'. l64a m buf v = Some (m', buf) \<and> a64l_end m' buf 6 = Some (buf + length (digits64 (v AND 0xffffffff) 6)) \<and>
    a64l_loop m' buf (length (digits64 (v AND 0xffffffff) 6)) 0 = Some (v AND 0xffffffff)"
proof -
  define w ds where "w = v AND 0xffffffff" and "ds = digits64 w 6"
  define m' where "m' = put m buf (ds @ (if length ds < 6 then [0] else []))"
  have "l64a m buf v = Some (m', buf)" using l64a_loop_put[OF assms, of w] by (simp add: l64a_def w_def m'_def ds_def)
  moreover have rd: "rd m' buf (length ds) = Some ds" unfolding rd_Some_iff by (simp add: m'_def put_def nth_append)
  moreover have "a64l_end m' buf 6 = Some (buf + length ds)"
    using digits64_nonzero[of 0 w 6] digits64_length[of w 6]
    by (intro a64l_end_str[OF rd]) (auto simp: ds_def m'_def put_def nth_append)
  moreover have "drop_bit (6 * 6) w = 0"
    by (rule bit_word_eqI) (simp add: w_def bit_simps)
  then have "a64l_loop m' buf (length ds) 0 = Some w" using a64l_loop_digits[of m' buf w 6] rd by (simp add: ds_def)
  ultimately show ?thesis by (auto simp: w_def ds_def)
qed

lemma sign_extend:
  fixes v :: ulong
  defines "w \<equiv> v AND 0xffffffff"
  shows "(if w AND 0x80000000 \<noteq> 0 then push_bit 32 (signed_drop_bit 32 (- 1)) + w else w) = scast (ucast v :: 32 word)"
proof -
  define x where "x = (ucast v :: 32 word)"
  have m: "(0xffffffff :: ulong) = mask 32" by (simp add: mask_eq_exp_minus_1)
  have w: "w = ucast x" by (rule bit_word_eqI) (auto simp: w_def x_def m bit_simps)
  have e: "(0x80000000 :: ulong) = 2 ^ 31" by simp
  have b: "w AND 0x80000000 \<noteq> 0 \<longleftrightarrow> bit x 31"
    unfolding e and_exp_eq_0_iff_not_bit by (simp add: w bit_simps)
  have s: "push_bit 32 (signed_drop_bit 32 (- 1)) = (NOT (mask 32) :: ulong)"
    by (rule bit_word_eqI) (auto simp: bit_simps)
  have d: "NOT (mask 32) + w = NOT (mask 32) OR w"
    by (rule disjunctive_add) (simp add: w_def m bit_simps)
  have o: "\<not> bit x n" if "32 \<le> n" for n using bit_imp_le_length[of x n] that by auto
  show ?thesis unfolding b s d x_def[symmetric]
  proof (rule bit_word_eqI)
    fix n
    show "bit (if bit x 31 then NOT (mask 32) OR w else w) n = bit (scast x :: ulong) n" if "n < LENGTH(64)"
      using that o[of n] by (cases "n = 31"; cases "n < 31") (auto simp: w bit_simps min_def not_less)
  qed
qed

text \<open>
  A64l inverts l64a on the low 32 bits of a \<open>long\<close>, which it sign extends; l64a fills at most six bytes.
\<close>

theorem a64l_l64a:
  assumes "mapped m buf 6" "buf \<noteq> NULL"
  shows "\<exists>m'. l64a m buf v = Some (m', buf) \<and> a64l m' buf = Some (scast (ucast v :: 32 word))"
  using l64a_digits[OF assms(1), of v] assms(2) sign_extend[of v] by (auto simp: a64l_def)

theorem a64l_l64a_witness:
  "\<exists>m'. l64a (mem_image 8 (replicate 8 0)) 8 0xfffffff0 = Some (m', 8) \<and> a64l m' 8 = Some (- 16)"
proof -
  have "mapped (mem_image 8 (replicate 8 0)) 8 6" by code_simp
  moreover have "(8 :: nat) \<noteq> NULL" by simp
  ultimately have "\<exists>m'. l64a (mem_image 8 (replicate 8 0)) 8 0xfffffff0 = Some (m', 8) \<and>
      a64l m' 8 = Some (scast (ucast (0xfffffff0 :: ulong) :: 32 word))" by (rule a64l_l64a)
  moreover have "scast (ucast (0xfffffff0 :: ulong) :: 32 word) = (- 16 :: ulong)" by code_simp
  ultimately show ?thesis by simp
qed

end
