(* ===== verification/TimeFns.thy ===== *)
theory TimeFns
  imports NumFns
begin

text \<open>
  Calendar time of newlib: \<open>gmtime_r\<close>, \<open>localtime_r\<close>, \<open>mktime\<close> and the computation of the change-over times of
  daylight saving time. The lemmas relate broken-down time to a day count defined by the rules of the Gregorian
  calendar, and so the conversions to each other.
\<close>

section \<open>Definitions\<close>

subsection \<open>Broken-down time and time zones\<close>

text \<open>
  All fields are C integers. An addition on them that leaves the range of its type is undefined, and then the
  operation has no value.
\<close>

record tm =
  tm_sec :: int
  tm_min :: int
  tm_hour :: int
  tm_mday :: int
  tm_mon :: int
  tm_year :: int
  tm_wday :: int
  tm_yday :: int
  tm_isdst :: int

record tzrule =
  tz_ch :: byte
  tz_m :: int
  tz_n :: int
  tz_d :: int
  tz_s :: int
  tz_change :: int
  tz_offset :: int

record tzinfo =
  tznorth :: bool
  tzyear :: int
  tzrule0 :: tzrule
  tzrule1 :: tzrule

definition gettzinfo :: tzinfo where
  "gettzinfo = \<lparr>tznorth = True, tzyear = 0,
     tzrule0 = \<lparr>tz_ch = 74, tz_m = 0, tz_n = 0, tz_d = 0, tz_s = 0, tz_change = 0, tz_offset = 0\<rparr>,
     tzrule1 = \<lparr>tz_ch = 74, tz_m = 0, tz_n = 0, tz_d = 0, tz_s = 0, tz_change = 0, tz_offset = 0\<rparr>\<rparr>"

abbreviation int32 :: "int \<Rightarrow> int option" where "int32 \<equiv> signed_result 32"

abbreviation int64 :: "int \<Rightarrow> int option" where "int64 \<equiv> signed_result 64"

definition SECSPERMIN :: int where "SECSPERMIN = 60"

definition MINSPERHOUR :: int where "MINSPERHOUR = 60"

definition HOURSPERDAY :: int where "HOURSPERDAY = 24"

definition SECSPERHOUR :: int where "SECSPERHOUR = SECSPERMIN * MINSPERHOUR"

definition SECSPERDAY :: int where "SECSPERDAY = SECSPERHOUR * HOURSPERDAY"

definition DAYSPERWEEK :: int where "DAYSPERWEEK = 7"

definition YEAR_BASE :: int where "YEAR_BASE = 1900"

definition EPOCH_YEAR :: int where "EPOCH_YEAR = 1970"

definition EPOCH_WDAY :: int where "EPOCH_WDAY = 4"

definition EPOCH_YEARS_SINCE_LEAP :: int where "EPOCH_YEARS_SINCE_LEAP = 2"

definition EPOCH_YEARS_SINCE_CENTURY :: int where "EPOCH_YEARS_SINCE_CENTURY = 70"

definition EPOCH_YEARS_SINCE_LEAP_CENTURY :: int where "EPOCH_YEARS_SINCE_LEAP_CENTURY = 370"

lemmas time_consts = SECSPERMIN_def MINSPERHOUR_def HOURSPERDAY_def SECSPERHOUR_def SECSPERDAY_def DAYSPERWEEK_def
  YEAR_BASE_def EPOCH_YEAR_def EPOCH_WDAY_def EPOCH_YEARS_SINCE_LEAP_def EPOCH_YEARS_SINCE_CENTURY_def
  EPOCH_YEARS_SINCE_LEAP_CENTURY_def

definition isleap :: "int \<Rightarrow> bool" where
  "isleap y \<longleftrightarrow> y smod 4 = 0 \<and> y smod 100 \<noteq> 0 \<or> y smod 400 = 0"

definition month_lengths :: "bool \<Rightarrow> int list" where
  "month_lengths leap =
     (if leap then [31, 29, 31, 30, 31, 30, 31, 31, 30, 31, 30, 31]
      else [31, 28, 31, 30, 31, 30, 31, 31, 30, 31, 30, 31])"

text \<open>An array access: outside of the array it has no value.\<close>

definition elem_at :: "int list \<Rightarrow> int \<Rightarrow> int option" where
  "elem_at xs i = (if 0 \<le> i \<and> i < int (length xs) then Some (xs ! nat i) else None)"

subsection \<open>gmtime_r\<close>

definition EPOCH_ADJUSTMENT_DAYS :: int where "EPOCH_ADJUSTMENT_DAYS = 719468"

definition ADJUSTED_EPOCH_YEAR :: int where "ADJUSTED_EPOCH_YEAR = 0"

definition ADJUSTED_EPOCH_WDAY :: int where "ADJUSTED_EPOCH_WDAY = 3"

definition DAYS_PER_ERA :: int where "DAYS_PER_ERA = 146097"

definition DAYS_PER_CENTURY :: int where "DAYS_PER_CENTURY = 36524"

definition DAYS_PER_4_YEARS :: int where "DAYS_PER_4_YEARS = 3 * 365 + 366"

definition DAYS_PER_YEAR :: int where "DAYS_PER_YEAR = 365"

definition DAYS_IN_JANUARY :: int where "DAYS_IN_JANUARY = 31"

definition DAYS_IN_FEBRUARY :: int where "DAYS_IN_FEBRUARY = 28"

definition YEARS_PER_ERA :: int where "YEARS_PER_ERA = 400"

lemmas era_consts = EPOCH_ADJUSTMENT_DAYS_def ADJUSTED_EPOCH_YEAR_def ADJUSTED_EPOCH_WDAY_def DAYS_PER_ERA_def
  DAYS_PER_CENTURY_def DAYS_PER_4_YEARS_def DAYS_PER_YEAR_def DAYS_IN_JANUARY_def DAYS_IN_FEBRUARY_def YEARS_PER_ERA_def

text \<open>
  \<open>erayear\<close>, \<open>yearday\<close>, \<open>month\<close> and \<open>day\<close> are unsigned in the source; for the day of an era none of the
  values they are computed from is negative or reaches \<open>2 ^ 32\<close> (lemmas \<open>era_year_day\<close> and \<open>month_day\<close>).
\<close>

definition era_year :: "int \<Rightarrow> int" where
  "era_year eraday =
     (eraday - eraday div (DAYS_PER_4_YEARS - 1) + eraday div DAYS_PER_CENTURY - eraday div (DAYS_PER_ERA - 1)) div 365"

definition year_day :: "int \<Rightarrow> int \<Rightarrow> int" where
  "year_day eraday erayear = eraday - (DAYS_PER_YEAR * erayear + erayear div 4 - erayear div 100)"

definition gmtime_r :: "int \<Rightarrow> tm option" where
  "gmtime_r lcltime = (
     let days = lcltime sdiv SECSPERDAY + EPOCH_ADJUSTMENT_DAYS;
         rem = lcltime smod SECSPERDAY;
         (days, rem) = (if rem < 0 then (days - 1, rem + SECSPERDAY) else (days, rem));
         hour = rem sdiv SECSPERHOUR;
         rem = rem smod SECSPERHOUR;
         mins = rem sdiv SECSPERMIN;
         secs = rem smod SECSPERMIN;
         weekday = (ADJUSTED_EPOCH_WDAY + days) smod DAYSPERWEEK;
         weekday = (if weekday < 0 then weekday + DAYSPERWEEK else weekday);
         era = (if days \<ge> 0 then days else days - (DAYS_PER_ERA - 1)) sdiv DAYS_PER_ERA;
         eraday = days - era * DAYS_PER_ERA;
         erayear = era_year eraday;
         yearday = year_day eraday erayear;
         month = (5 * yearday + 2) div 153;
         day = yearday - (153 * month + 2) div 5 + 1;
         month = (if month < 10 then month + 2 else month - 10)
     in do {
       eras \<leftarrow> int32 (era * YEARS_PER_ERA);
       let year = sint (word_of_int (ADJUSTED_EPOCH_YEAR + erayear + eras + (if month \<le> 1 then 1 else 0)) :: 32 word);
       y \<leftarrow> int32 (year - YEAR_BASE);
       Some \<lparr>tm_sec = secs, tm_min = mins, tm_hour = hour, tm_mday = day, tm_mon = month, tm_year = y, tm_wday = weekday,
         tm_yday = (if yearday \<ge> DAYS_PER_YEAR - DAYS_IN_JANUARY - DAYS_IN_FEBRUARY
                    then yearday - (DAYS_PER_YEAR - DAYS_IN_JANUARY - DAYS_IN_FEBRUARY)
                    else yearday + DAYS_IN_JANUARY + DAYS_IN_FEBRUARY + (if isleap erayear then 1 else 0)),
         tm_isdst = 0\<rparr> })"

subsection \<open>The change-over times of a year\<close>

fun sum_months :: "int list \<Rightarrow> int \<Rightarrow> int \<Rightarrow> nat \<Rightarrow> int option" where
  "sum_months ip days j 0 = Some days"
| "sum_months ip days j (Suc k) = do { l \<leftarrow> elem_at ip (j - 1); days \<leftarrow> int32 (days + l); sum_months ip days (j + 1) k }"

function last_week :: "int \<Rightarrow> int \<Rightarrow> int" where
  "last_week len m_day = (if m_day \<ge> len then last_week len (m_day - DAYSPERWEEK) else m_day)"
  by pat_completeness auto

termination by (relation "measure (\<lambda>(len, m_day). nat (m_day - len + 1))") (auto simp: DAYSPERWEEK_def)

declare last_week.simps [simp del]

text \<open>The loop over the months ends with \<open>j\<close> the larger of 1 and the month of the rule.\<close>

definition rule_days :: "int \<Rightarrow> int \<Rightarrow> tzrule \<Rightarrow> int option" where
  "rule_days year year_days r =
     (if tz_ch r = 74 then do {
        days \<leftarrow> int32 (year_days + tz_d r);
        days \<leftarrow> int32 (days + (if isleap year \<and> tz_d r \<ge> 60 then 1 else 0));
        int32 (days - 1) }
      else if tz_ch r = 68 then int32 (year_days + tz_d r)
      else do {
        let ip = month_lengths (isleap year);
        days \<leftarrow> sum_months ip year_days 1 (nat (tz_m r - 1));
        wd \<leftarrow> int32 (EPOCH_WDAY + days);
        let m_wday = wd smod DAYSPERWEEK;
        wday_diff \<leftarrow> int32 (tz_d r - m_wday);
        let wday_diff = (if wday_diff < 0 then wday_diff + DAYSPERWEEK else wday_diff);
        n1 \<leftarrow> int32 (tz_n r - 1);
        n7 \<leftarrow> int32 (n1 * DAYSPERWEEK);
        m_day \<leftarrow> int32 (n7 + wday_diff);
        len \<leftarrow> elem_at ip (max 1 (tz_m r) - 1);
        int32 (days + last_week len m_day) })"

definition rule_change :: "int \<Rightarrow> int \<Rightarrow> tzrule \<Rightarrow> tzrule option" where
  "rule_change year year_days r = do {
     days \<leftarrow> rule_days year year_days r;
     change \<leftarrow> int64 (days * SECSPERDAY + tz_s r);
     change \<leftarrow> int64 (change + tz_offset r);
     Some (r\<lparr>tz_change := change\<rparr>) }"

definition tzcalc_limits :: "tzinfo \<Rightarrow> int \<Rightarrow> (tzinfo \<times> bool) option" where
  "tzcalc_limits tz year =
     (if year < EPOCH_YEAR then Some (tz, False)
      else do {
        let years = year - EPOCH_YEAR;
        d \<leftarrow> int32 (years * 365);
        d \<leftarrow> int32 (d + (years - 1 + EPOCH_YEARS_SINCE_LEAP) sdiv 4);
        d \<leftarrow> int32 (d - (years - 1 + EPOCH_YEARS_SINCE_CENTURY) sdiv 100);
        year_days \<leftarrow> int32 (d + (years - 1 + EPOCH_YEARS_SINCE_LEAP_CENTURY) sdiv 400);
        r0 \<leftarrow> rule_change year year_days (tzrule0 tz);
        r1 \<leftarrow> rule_change year year_days (tzrule1 tz);
        Some (\<lparr>tznorth = tz_change r0 < tz_change r1, tzyear = year, tzrule0 = r0, tzrule1 = r1\<rparr>, True) })"

text \<open>The condition that guards the use of the change-over times: they are of the year, or can be computed for it.\<close>

definition tz_limits :: "tzinfo \<Rightarrow> int \<Rightarrow> (tzinfo \<times> bool) option" where
  "tz_limits tz year = (if year = tzyear tz then Some (tz, True) else tzcalc_limits tz year)"

subsection \<open>localtime_r\<close>

text \<open>\<open>daylight\<close> and \<open>tz\<close> are what \<open>_tzset_unlocked\<close> left of the environment.\<close>

definition local_day_forward :: "int list \<Rightarrow> tm \<Rightarrow> tm option" where
  "local_day_forward ip res = (
     let res = res\<lparr>tm_yday := tm_yday res + 1,
                    tm_wday := (if tm_wday res + 1 > 6 then 0 else tm_wday res + 1),
                    tm_mday := tm_mday res + 1,
                    tm_hour := tm_hour res - HOURSPERDAY\<rparr>
     in do {
       l \<leftarrow> elem_at ip (tm_mon res);
       Some (if tm_mday res > l
             then let res = res\<lparr>tm_mday := tm_mday res - l, tm_mon := tm_mon res + 1\<rparr> in
               if tm_mon res = 12 then res\<lparr>tm_mon := 0, tm_year := tm_year res + 1, tm_yday := 0\<rparr> else res
             else res) })"

definition local_day_back :: "int list \<Rightarrow> tm \<Rightarrow> tm option" where
  "local_day_back ip res = (
     let res = res\<lparr>tm_yday := tm_yday res - 1,
                    tm_wday := (if tm_wday res - 1 < 0 then 6 else tm_wday res - 1),
                    tm_mday := tm_mday res - 1,
                    tm_hour := tm_hour res + 24\<rparr>
     in if tm_mday res = 0
        then let res = res\<lparr>tm_mon := tm_mon res - 1\<rparr>;
                 res = (if tm_mon res < 0
                        then let res = res\<lparr>tm_mon := 11, tm_year := tm_year res - 1\<rparr> in
                          res\<lparr>tm_yday := 364 + (if isleap (tm_year res + YEAR_BASE) then 1 else 0)\<rparr>
                        else res)
             in do { l \<leftarrow> elem_at ip (tm_mon res); Some (res\<lparr>tm_mday := l\<rparr>) }
        else Some res)"

definition local_shift :: "int list \<Rightarrow> int \<Rightarrow> tm \<Rightarrow> tm option" where
  "local_shift ip offset res = do {
     let hours = sint (word_of_int (offset sdiv SECSPERHOUR) :: 32 word);
     let offset = offset smod SECSPERHOUR;
     let mins = offset sdiv SECSPERMIN;
     let secs = offset smod SECSPERMIN;
     hour \<leftarrow> int32 (tm_hour res - hours);
     let res = res\<lparr>tm_sec := tm_sec res - secs, tm_min := tm_min res - mins, tm_hour := hour\<rparr>;
     let res = (if tm_sec res \<ge> SECSPERMIN then res\<lparr>tm_min := tm_min res + 1, tm_sec := tm_sec res - SECSPERMIN\<rparr>
                else if tm_sec res < 0 then res\<lparr>tm_min := tm_min res - 1, tm_sec := tm_sec res + SECSPERMIN\<rparr>
                else res);
     let res = (if tm_min res \<ge> MINSPERHOUR then res\<lparr>tm_hour := tm_hour res + 1, tm_min := tm_min res - MINSPERHOUR\<rparr>
                else if tm_min res < 0 then res\<lparr>tm_hour := tm_hour res - 1, tm_min := tm_min res + MINSPERHOUR\<rparr>
                else res);
     if tm_hour res \<ge> HOURSPERDAY then local_day_forward ip res
     else if tm_hour res < 0 then local_day_back ip res
     else Some res }"

definition localtime_r :: "bool \<Rightarrow> tzinfo \<Rightarrow> int \<Rightarrow> (tm \<times> tzinfo) option" where
  "localtime_r daylight tz tim = do {
     res \<leftarrow> gmtime_r tim;
     year \<leftarrow> int32 (tm_year res + YEAR_BASE);
     let ip = month_lengths (isleap year);
     (isdst, tz) \<leftarrow>
       (if daylight then do {
          (tz, ok) \<leftarrow> tz_limits tz year;
          let r0 = tz_change (tzrule0 tz);
          let r1 = tz_change (tzrule1 tz);
          Some (if ok then if (if tznorth tz then tim \<ge> r0 \<and> tim < r1 else tim \<ge> r0 \<or> tim < r1) then 1 else 0 else - 1, tz) }
        else Some (0, tz));
     let res = res\<lparr>tm_isdst := isdst\<rparr>;
     res \<leftarrow> local_shift ip (if isdst = 1 then tz_offset (tzrule1 tz) else tz_offset (tzrule0 tz)) res;
     Some (res, tz) }"

subsection \<open>mktime\<close>

definition SEC_IN_MINUTE :: int where "SEC_IN_MINUTE = 60"

definition SEC_IN_HOUR :: int where "SEC_IN_HOUR = 3600"

definition SEC_IN_DAY :: int where "SEC_IN_DAY = 86400"

definition DAYS_IN_MONTH :: "int list" where
  "DAYS_IN_MONTH = [31, 28, 31, 30, 31, 30, 31, 31, 30, 31, 30, 31]"

definition days_in_month :: "int \<Rightarrow> int \<Rightarrow> int option" where
  "days_in_month days_in_feb x = (if x = 1 then Some days_in_feb else elem_at DAYS_IN_MONTH x)"

definition DAYS_BEFORE_MONTH :: "int list" where
  "DAYS_BEFORE_MONTH = [0, 31, 59, 90, 120, 151, 181, 212, 243, 273, 304, 334]"

definition ISLEAP :: "int \<Rightarrow> bool" where
  "ISLEAP y \<longleftrightarrow> y smod 4 = 0 \<and> (y smod 100 \<noteq> 0 \<or> (y + 1900) smod 400 = 0)"

definition DAYS_IN_YEAR :: "int \<Rightarrow> int" where
  "DAYS_IN_YEAR year = (if ISLEAP year then 366 else 365)"

definition days_in_feb :: "int \<Rightarrow> int" where
  "days_in_feb year = (if DAYS_IN_YEAR year = 366 then 29 else 28)"

text \<open>One of the four carries at the start of \<open>validate_structure\<close>: the field and the next larger one.\<close>

definition carry :: "int \<Rightarrow> int \<Rightarrow> int \<Rightarrow> (int \<times> int) option" where
  "carry n x up =
     (if x < 0 \<or> x > n - 1 then do {
        (quot, rem) \<leftarrow> div_int x n;
        up \<leftarrow> int32 (up + quot);
        if rem < 0 then do { up \<leftarrow> int32 (up - 1); Some (rem + n, up) } else Some (rem, up) }
      else Some (x, up))"

definition month_back :: "int \<Rightarrow> tm \<Rightarrow> (int \<times> tm) option" where
  "month_back feb tim = (
     let mon = tm_mon tim - 1 in
     if mon = - 1 then do { y \<leftarrow> int32 (tm_year tim - 1); Some (days_in_feb y, tim\<lparr>tm_year := y, tm_mon := 11\<rparr>) }
     else Some (feb, tim\<lparr>tm_mon := mon\<rparr>))"

definition month_forward :: "int \<Rightarrow> tm \<Rightarrow> (int \<times> tm) option" where
  "month_forward feb tim = (
     let mon = tm_mon tim + 1 in
     if mon = 12 then do { y \<leftarrow> int32 (tm_year tim + 1); Some (days_in_feb y, tim\<lparr>tm_year := y, tm_mon := 0\<rparr>) }
     else Some (feb, tim\<lparr>tm_mon := mon\<rparr>))"

partial_function (option) mday_up :: "int \<Rightarrow> tm \<Rightarrow> tm option" where
  "mday_up feb tim =
     (if tm_mday tim \<le> 0 then do {
        p \<leftarrow> month_back feb tim;
        l \<leftarrow> days_in_month (fst p) (tm_mon (snd p));
        mday_up (fst p) ((snd p)\<lparr>tm_mday := tm_mday (snd p) + l\<rparr>) }
      else Some tim)"

partial_function (option) mday_down :: "int \<Rightarrow> tm \<Rightarrow> tm option" where
  "mday_down feb tim = do {
     l \<leftarrow> days_in_month feb (tm_mon tim);
     if tm_mday tim > l then do {
       p \<leftarrow> month_forward feb (tim\<lparr>tm_mday := tm_mday tim - l\<rparr>);
       mday_down (fst p) (snd p) }
     else Some tim }"

declare mday_up.simps [code] mday_down.simps [code]

definition validate_structure :: "tm \<Rightarrow> tm option" where
  "validate_structure tim = do {
     (sec, mins) \<leftarrow> carry 60 (tm_sec tim) (tm_min tim);
     (mins, hour) \<leftarrow> carry 60 mins (tm_hour tim);
     (hour, mday) \<leftarrow> carry 24 hour (tm_mday tim);
     (mon, year) \<leftarrow> carry 12 (tm_mon tim) (tm_year tim);
     let tim = tim\<lparr>tm_sec := sec, tm_min := mins, tm_hour := hour, tm_mday := mday, tm_mon := mon, tm_year := year\<rparr>;
     if tm_mday tim \<le> 0 then mday_up (days_in_feb year) tim else mday_down (days_in_feb year) tim }"

fun add_years :: "int \<Rightarrow> nat \<Rightarrow> int \<Rightarrow> int" where
  "add_years year 0 days = days"
| "add_years year (Suc k) days = add_years (year + 1) k (days + DAYS_IN_YEAR year)"

fun sub_years :: "int \<Rightarrow> nat \<Rightarrow> int \<Rightarrow> int" where
  "sub_years year 0 days = days"
| "sub_years year (Suc k) days = sub_years (year - 1) k (days - DAYS_IN_YEAR year)"

definition year_days :: "int \<Rightarrow> int \<Rightarrow> int" where
  "year_days year days =
     (if year > 70 then add_years 70 (nat (year - 70)) days
      else if year < 70 then sub_years 69 (nat (69 - year)) days - DAYS_IN_YEAR year
      else days)"

text \<open>The correction when the caller got daylight saving time wrong: \<open>tim_p\<close>, \<open>tim\<close> and \<open>days\<close>.\<close>

definition roll_over :: "int \<Rightarrow> int \<Rightarrow> tm \<Rightarrow> int \<Rightarrow> tm \<times> int" where
  "roll_over year mday tim_p days =
     (if mday \<noteq> 0 then
        let mday = (if mday > 1 then - 1 else if mday < - 1 then 1 else mday);
            yday = tm_yday tim_p + mday
        in (tim_p\<lparr>tm_yday := (if yday < 0 then DAYS_IN_YEAR (year - 1) - 1
                              else if yday > DAYS_IN_YEAR year - 1 then yday - DAYS_IN_YEAR year
                              else yday)\<rparr>, days + mday)
      else (tim_p, days))"

definition dst_correction :: "tzinfo \<Rightarrow> bool \<Rightarrow> tm \<Rightarrow> int \<Rightarrow> int \<Rightarrow> (tm \<times> int \<times> int) option" where
  "dst_correction tz isdst tim_p tim days = do {
     let diff = sint (word_of_int (tz_offset (tzrule0 tz) - tz_offset (tzrule1 tz)) :: 32 word);
     diff \<leftarrow> (if isdst then Some diff else int32 (- diff));
     sec \<leftarrow> int32 (tm_sec tim_p + diff);
     tim \<leftarrow> int64 (tim + diff);
     new \<leftarrow> validate_structure (tim_p\<lparr>tm_sec := sec\<rparr>);
     let (new, days) = roll_over (tm_year tim_p) (tm_mday new - tm_mday tim_p) new days;
     Some (new, tim, days) }"

definition mktime_dst :: "tzinfo \<Rightarrow> tm \<Rightarrow> int \<Rightarrow> int \<Rightarrow> (int \<times> tm \<times> int \<times> int \<times> tzinfo) option" where
  "mktime_dst tz tim_p tim days = do {
     let user = (if tm_isdst tim_p > 0 then 1 else tm_isdst tim_p);
     (tz, ok) \<leftarrow> tz_limits tz (tm_year tim_p + YEAR_BASE);
     if ok then do {
       startdst_dst \<leftarrow> int64 (tz_change (tzrule0 tz) - tz_offset (tzrule1 tz));
       startstd_dst \<leftarrow> int64 (tz_change (tzrule1 tz) - tz_offset (tzrule1 tz));
       startstd_std \<leftarrow> int64 (tz_change (tzrule1 tz) - tz_offset (tzrule0 tz));
       if tim \<ge> startstd_std \<and> tim < startstd_dst then Some (user, tim_p, tim, days, tz)
       else do {
         let isdst = (if tznorth tz then tim \<ge> startdst_dst \<and> tim < startstd_std
                      else tim \<ge> startdst_dst \<or> tim < startstd_std);
         let dst = (if isdst then 1 else 0);
         if user \<ge> 0 \<and> dst \<noteq> user then do {
           (tim_p, tim, days) \<leftarrow> dst_correction tz isdst tim_p tim days;
           Some (dst, tim_p, tim, days, tz) }
         else Some (dst, tim_p, tim, days, tz) } }
     else Some (user, tim_p, tim, days, tz) }"

definition mktime :: "bool \<Rightarrow> tzinfo \<Rightarrow> tm \<Rightarrow> (int \<times> tm \<times> tzinfo) option" where
  "mktime daylight tz tim_p = do {
     tim_p \<leftarrow> validate_structure tim_p;
     let tim = tm_sec tim_p + tm_min tim_p * SEC_IN_MINUTE + tm_hour tim_p * SEC_IN_HOUR;
     before \<leftarrow> elem_at DAYS_BEFORE_MONTH (tm_mon tim_p);
     let days = tm_mday tim_p - 1 + before +
       (if tm_mon tim_p > 1 \<and> DAYS_IN_YEAR (tm_year tim_p) = 366 then 1 else 0);
     let tim_p = tim_p\<lparr>tm_yday := days\<rparr>;
     if tm_year tim_p > 10000 \<or> tm_year tim_p < - 10000 then Some (- 1, tim_p, tz)
     else do {
       let days = year_days (tm_year tim_p) days;
       let tim = tim + days * SEC_IN_DAY;
       (isdst, tim_p, tim, days, tz) \<leftarrow>
         (if daylight then mktime_dst tz tim_p tim days else Some (0, tim_p, tim, days, tz));
       tim \<leftarrow> int64 (tim + (if isdst = 1 then tz_offset (tzrule1 tz) else tz_offset (tzrule0 tz)));
       let wday = (days + 4) smod 7;
       Some (tim, tim_p\<lparr>tm_isdst := isdst, tm_wday := (if wday < 0 then wday + 7 else wday)\<rparr>, tz) } }"

section \<open>The Gregorian calendar\<close>

lemma smod_0_iff [simp]: "0 < k \<Longrightarrow> y smod k = 0 \<longleftrightarrow> k dvd y" for k y :: int
  by (auto simp: signed_modulo_int_def sgn_if dvd_eq_mod_eq_0[symmetric])

lemma isleap_dvd: "isleap y \<longleftrightarrow> 4 dvd y \<and> \<not> 100 dvd y \<or> 400 dvd y"
  by (simp add: isleap_def)

lemma ISLEAP_isleap: "ISLEAP y \<longleftrightarrow> isleap (y + 1900)"
proof -
  have "4 dvd (1900 :: int)" "100 dvd (1900 :: int)" by simp_all
  then have "4 dvd y + 1900 \<longleftrightarrow> 4 dvd y" "100 dvd y + 1900 \<longleftrightarrow> 100 dvd y" by (simp_all only: dvd_add_left_iff)
  moreover have "400 dvd y + 1900 \<Longrightarrow> 4 dvd y + 1900" using dvd_trans[of 4 400 "y + 1900"] by simp
  ultimately show ?thesis by (auto simp: ISLEAP_def isleap_dvd)
qed

lemma isleap_era: "isleap (y + 400 * k) \<longleftrightarrow> isleap y"
proof -
  have "4 dvd 400 * k" "100 dvd 400 * k" "400 dvd 400 * k" by (intro dvd_mult2; simp)+
  then have "4 dvd y + 400 * k \<longleftrightarrow> 4 dvd y" "100 dvd y + 400 * k \<longleftrightarrow> 100 dvd y" "400 dvd y + 400 * k \<longleftrightarrow> 400 dvd y"
    by (simp_all only: dvd_add_left_iff)
  then show ?thesis by (simp add: isleap_dvd)
qed

text \<open>The days from 1 January 1970 to 1 January of a year.\<close>

definition days_before_year :: "int \<Rightarrow> int" where
  "days_before_year y = 365 * (y - 1970) + (y - 1) div 4 - (y - 1) div 100 + (y - 1) div 400 - 477"

lemma days_before_epoch: "days_before_year 1970 = 0"
  by (simp add: days_before_year_def)

lemma div_pred:
  fixes y k :: int
  assumes k: "0 < k"
  shows "y div k = (y - 1) div k + (if k dvd y then 1 else 0)"
proof (cases "k dvd y")
  case True
  then have "y - 1 = k * (y div k - 1) + (k - 1)" by (auto simp: algebra_simps)
  then have "(y - 1) div k = y div k - 1" by (rule int_div_pos_eq) (use k in auto)
  then show ?thesis using True by simp
next
  case False
  then have pos: "0 < y mod k" using pos_mod_sign[OF k, of y] by (simp add: dvd_eq_mod_eq_0)
  have "y - 1 = k * (y div k) + (y mod k - 1)" by simp
  then have "(y - 1) div k = y div k" by (rule int_div_pos_eq) (use pos pos_mod_bound[OF k, of y] in auto)
  then show ?thesis using False by simp
qed

lemma days_before_year_Suc: "days_before_year (y + 1) = days_before_year y + (if isleap y then 366 else 365)"
proof -
  define p4 p100 p400 where "p4 \<longleftrightarrow> 4 dvd y" and "p100 \<longleftrightarrow> 100 dvd y" and "p400 \<longleftrightarrow> 400 dvd y"
  define q4 q100 q400 where "q4 = (y - 1) div 4" and "q100 = (y - 1) div 100" and "q400 = (y - 1) div 400"
  define r4 r100 r400 where "r4 = y div 4" and "r100 = y div 100" and "r400 = y div 400"
  have "p400 \<Longrightarrow> p100" "p100 \<Longrightarrow> p4"
    unfolding p4_def p100_def p400_def using dvd_trans[of 100 400 y] dvd_trans[of 4 100 y] by simp_all
  moreover have "r4 = q4 + (if p4 then 1 else 0)" unfolding p4_def q4_def r4_def by (rule div_pred) simp
  moreover have "r100 = q100 + (if p100 then 1 else 0)" unfolding p100_def q100_def r100_def by (rule div_pred) simp
  moreover have "r400 = q400 + (if p400 then 1 else 0)" unfolding p400_def q400_def r400_def by (rule div_pred) simp
  moreover have "isleap y \<longleftrightarrow> p4 \<and> \<not> p100 \<or> p400" by (simp add: isleap_dvd p4_def p100_def p400_def)
  moreover have "days_before_year y = 365 * (y - 1970) + q4 - q100 + q400 - 477"
    unfolding days_before_year_def q4_def q100_def q400_def ..
  moreover have "days_before_year (y + 1) = 365 * (y + 1 - 1970) + r4 - r100 + r400 - 477"
    unfolding days_before_year_def r4_def r100_def r400_def add_diff_cancel_right' ..
  ultimately show ?thesis by (cases p4; cases p100; cases p400) simp_all
qed

definition month_start :: "bool \<Rightarrow> int \<Rightarrow> int" where
  "month_start leap mon = sum_list (take (nat mon) (month_lengths leap))"

definition month_length :: "bool \<Rightarrow> int \<Rightarrow> int" where
  "month_length leap mon = month_lengths leap ! nat mon"

lemma length_month_lengths [simp]: "length (month_lengths leap) = 12"
  by (simp add: month_lengths_def)

lemma month_start_0 [simp]: "month_start leap 0 = 0"
  by (simp add: month_start_def)

lemma month_start_Suc: "0 \<le> mon \<Longrightarrow> mon < 12 \<Longrightarrow> month_start leap (mon + 1) = month_start leap mon + month_length leap mon"
  by (simp add: month_start_def month_length_def nat_add_distrib take_Suc_conv_app_nth)

lemma month_start_12: "month_start leap 12 = (if leap then 366 else 365)"
  by (simp add: month_start_def month_lengths_def)

lemma month_length_range: "0 \<le> mon \<Longrightarrow> mon < 12 \<Longrightarrow> 28 \<le> month_length leap mon \<and> month_length leap mon \<le> 31"
proof -
  assume m: "0 \<le> mon" "mon < 12"
  have "\<forall>l \<in> set (month_lengths leap). 28 \<le> l \<and> l \<le> 31" by (simp add: month_lengths_def)
  then show ?thesis using m by (simp add: month_length_def)
qed

lemma elem_month_lengths: "0 \<le> mon \<Longrightarrow> mon < 12 \<Longrightarrow> elem_at (month_lengths leap) mon = Some (month_length leap mon)"
  by (simp add: elem_at_def month_length_def)

text \<open>
  The day number and the second number of a broken-down time, whose months may be out of range; when all fields are in
  range it is a date.
\<close>

definition tm_day :: "tm \<Rightarrow> int" where
  "tm_day t = (let y = tm_year t + 1900 + tm_mon t div 12 in
     days_before_year y + month_start (isleap y) (tm_mon t mod 12) + tm_mday t - 1)"

definition tm_epoch :: "tm \<Rightarrow> int" where
  "tm_epoch t = ((tm_day t * 24 + tm_hour t) * 60 + tm_min t) * 60 + tm_sec t"

definition date_valid :: "tm \<Rightarrow> bool" where
  "date_valid t \<longleftrightarrow> 0 \<le> tm_mon t \<and> tm_mon t < 12 \<and> 1 \<le> tm_mday t \<and> tm_mday t \<le> month_length (isleap (tm_year t + 1900)) (tm_mon t)"

definition tm_valid :: "tm \<Rightarrow> bool" where
  "tm_valid t \<longleftrightarrow> 0 \<le> tm_sec t \<and> tm_sec t < 60 \<and> 0 \<le> tm_min t \<and> tm_min t < 60 \<and> 0 \<le> tm_hour t \<and> tm_hour t < 24 \<and> date_valid t"

text \<open>The day of the year and of the week agree with the date.\<close>

definition tm_dated :: "tm \<Rightarrow> bool" where
  "tm_dated t \<longleftrightarrow> tm_yday t = month_start (isleap (tm_year t + 1900)) (tm_mon t) + tm_mday t - 1 \<and> tm_wday t = (tm_day t + 4) mod 7"

lemma tm_day_valid: "0 \<le> tm_mon t \<Longrightarrow> tm_mon t < 12 \<Longrightarrow>
  tm_day t = days_before_year (tm_year t + 1900) + month_start (isleap (tm_year t + 1900)) (tm_mon t) + tm_mday t - 1"
  by (simp add: tm_day_def Let_def)

section \<open>gmtime_r\<close>

text \<open>A truncating division corrected downwards is the flooring division.\<close>

lemma sdiv_pos: "0 \<le> t \<Longrightarrow> 0 < k \<Longrightarrow> t sdiv k = t div k \<and> t smod k = t mod k" for t k :: int
  by (simp add: signed_divide_int_def signed_modulo_int_def sgn_if)

lemma floor_of_trunc:
  fixes t k :: int
  assumes k: "0 < k"
  shows "t div k = (if t smod k < 0 then t sdiv k - 1 else t sdiv k)" "t mod k = (if t smod k < 0 then t smod k + k else t smod k)"
proof -
  let ?q = "if t smod k < 0 then t sdiv k - 1 else t sdiv k" and ?r = "if t smod k < 0 then t smod k + k else t smod k"
  have "t = ?q * k + ?r" using sdiv_smod[of t k] by (simp add: algebra_simps)
  moreover have "0 \<le> ?r" "?r < k" using smod_bound[of k t] smod_sign[of t k] k by auto
  ultimately show "t div k = ?q" "t mod k = ?r"
    using int_div_pos_eq[of t k ?q ?r] int_mod_pos_eq[of t k ?q ?r] by (simp_all only: mult.commute)
qed

definition era_start :: "int \<Rightarrow> int" where
  "era_start e = 365 * e + e div 4 - e div 100"

definition era_end :: "int \<Rightarrow> int" where
  "era_end e = (if e = 399 then 146096 else era_start (e + 1) - 1)"

definition era_approx :: "int \<Rightarrow> int" where
  "era_approx d = d - d div 1460 + d div 36524 - d div 146096"

lemma era_year_approx: "era_year d = era_approx d div 365"
  by (simp add: era_year_def era_approx_def era_consts)

lemma div_add_le: "0 \<le> c \<Longrightarrow> 0 < k \<Longrightarrow> (a + c) div k \<le> a div k + c" for a c k :: int
proof -
  assume c: "0 \<le> c" "0 < k"
  then have "c \<le> c * k" by (simp add: mult_le_cancel_left1)
  then have "(a + c) div k \<le> (a + c * k) div k" using c by (intro zdiv_mono1) auto
  then show ?thesis using c by simp
qed

lemma era_approx_mono_below: "0 \<le> a \<Longrightarrow> a \<le> b \<Longrightarrow> b < 146096 \<Longrightarrow> era_approx a \<le> era_approx b"
proof -
  assume a: "0 \<le> a" "a \<le> b" "b < 146096"
  have "b div 1460 \<le> a div 1460 + (b - a)" using div_add_le[of "b - a" 1460 a] a by simp
  moreover have "a div 36524 \<le> b div 36524" using a by (intro zdiv_mono1) auto
  moreover have "a div 146096 = 0" "b div 146096 = 0" using a by auto
  ultimately show ?thesis unfolding era_approx_def by linarith
qed

lemma era_approx_mono: "0 \<le> a \<Longrightarrow> a \<le> b \<Longrightarrow> b \<le> 146096 \<Longrightarrow> era_approx a \<le> era_approx b"
proof -
  assume a: "0 \<le> a" "a \<le> b" "b \<le> 146096"
  have top: "era_approx 146095 = 145998" "era_approx 146096 = 145999" by code_simp+
  show ?thesis
  proof (cases "b = 146096")
    case True
    then have "a = 146096 \<or> a \<le> 146095" using a by auto
    then show ?thesis using era_approx_mono_below[of a 146095] a True top by auto
  qed (use a era_approx_mono_below[of a b] in auto)
qed

text \<open>The approximation is exact at both ends of each of the four hundred years of an era.\<close>

lemma era_years_exact:
  "list_all (\<lambda>e. 0 \<le> era_start e \<and> era_start e \<le> era_end e \<and> era_end e \<le> 146096 \<and> era_end e - era_start e \<le> 365 \<and>
     (era_end e - era_start e = 365 \<longrightarrow> isleap (e + 1)) \<and>
     era_approx (era_start e) div 365 = e \<and> era_approx (era_end e) div 365 = e) [0..399]"
  by code_simp

lemma era_year_exact:
  assumes "0 \<le> e" "e \<le> 399"
  shows "0 \<le> era_start e" "era_start e \<le> era_end e" "era_end e \<le> 146096" "era_end e - era_start e \<le> 365"
    "era_end e - era_start e = 365 \<Longrightarrow> isleap (e + 1)"
    "era_approx (era_start e) div 365 = e" "era_approx (era_end e) div 365 = e"
  using era_years_exact assms unfolding list_all_iff by auto

lemma era_year_day:
  assumes d: "0 \<le> d" "d < 146097"
  defines "e \<equiv> era_year d"
  shows "0 \<le> e \<and> e \<le> 399 \<and> d = era_start e + year_day d e \<and> 0 \<le> year_day d e \<and> year_day d e \<le> 365 \<and>
    (year_day d e = 365 \<longrightarrow> isleap (e + 1))"
proof -
  have e: "e = era_approx d div 365" by (simp add: e_def era_year_approx)
  have ends: "era_approx 0 = 0" "era_approx 146096 = 145999" by code_simp+
  have b: "0 \<le> era_approx d" "era_approx d \<le> 145999"
    using era_approx_mono[of 0 d] era_approx_mono[of d 146096] d ends by simp_all
  have er: "0 \<le> e" "e \<le> 399"
    using b zdiv_mono1[of "era_approx d" 145999 365] by (auto simp: e pos_imp_zdiv_nonneg_iff)
  have lo: "era_start e \<le> d"
  proof (rule ccontr)
    assume "\<not> era_start e \<le> d"
    moreover have "era_start 0 = 0" by (simp add: era_start_def)
    ultimately have e1: "0 \<le> e - 1" "d \<le> era_end (e - 1)" using er d by (cases "e = 0"; auto simp: era_end_def)+
    then have "era_approx d \<le> era_approx (era_end (e - 1))" using d era_year_exact(3)[of "e - 1"] er by (intro era_approx_mono) auto
    then have "e \<le> era_approx (era_end (e - 1)) div 365" unfolding e by (rule zdiv_mono1) simp
    then show False using era_year_exact(7)[of "e - 1"] e1 er by simp
  qed
  have hi: "d \<le> era_end e"
  proof (rule ccontr)
    assume n: "\<not> d \<le> era_end e"
    then have e1: "e + 1 \<le> 399" "era_start (e + 1) \<le> d" using er d by (cases "e = 399"; auto simp: era_end_def)+
    then have "era_approx (era_start (e + 1)) \<le> era_approx d" using d era_year_exact(1)[of "e + 1"] er by (intro era_approx_mono) auto
    then have "era_approx (era_start (e + 1)) div 365 \<le> e" unfolding e by (rule zdiv_mono1) simp
    then show False using era_year_exact(6)[of "e + 1"] e1 er by simp
  qed
  have yd: "year_day d e = d - era_start e" by (simp add: year_day_def era_start_def era_consts)
  show ?thesis unfolding yd using er lo hi era_year_exact(4,5)[OF er] by auto
qed

definition month_mon :: "int \<Rightarrow> int" where
  "month_mon yd = (let m = (5 * yd + 2) div 153 in if m < 10 then m + 2 else m - 10)"

definition month_mday :: "int \<Rightarrow> int" where
  "month_mday yd = (let m = (5 * yd + 2) div 153 in yd - (153 * m + 2) div 5 + 1)"

definition month_day_ok :: "int \<Rightarrow> bool \<Rightarrow> bool" where
  "month_day_ok yd leap \<longleftrightarrow> 0 \<le> month_mon yd \<and> month_mon yd < 12 \<and> 1 \<le> month_mday yd \<and>
     (month_mon yd \<le> 1 \<longleftrightarrow> 306 \<le> yd) \<and>
     (yd < 306 \<longrightarrow> 59 + (if leap then 1 else 0) + yd = month_start leap (month_mon yd) + month_mday yd - 1) \<and>
     (306 \<le> yd \<longrightarrow> yd - 306 = month_start leap (month_mon yd) + month_mday yd - 1) \<and>
     ((yd = 365 \<longrightarrow> leap) \<longrightarrow> month_mday yd \<le> month_length leap (month_mon yd))"

lemma month_day: "0 \<le> yd \<Longrightarrow> yd \<le> 365 \<Longrightarrow> month_day_ok yd leap"
proof -
  assume y: "0 \<le> yd" "yd \<le> 365"
  define m where "m = (5 * yd + 2) div 153"
  have mon: "month_mon yd = (if m < 10 then m + 2 else m - 10)" "month_mday yd = yd - (153 * m + 2) div 5 + 1"
    by (simp_all add: month_mon_def month_mday_def Let_def m_def)
  have b: "153 * m \<le> 5 * yd + 2" "5 * yd + 2 < 153 * (m + 1)" by (simp_all add: m_def)
  have "0 \<le> m" "m \<le> 11" using b y by simp_all
  then have "m \<in> set [0..11]" by simp
  then have "m \<in> {0, 1, 2, 3, 4, 5, 6, 7, 8, 9, 10, 11}" by (simp add: upto.simps)
  then show ?thesis
    using b y unfolding month_day_ok_def mon
    by (elim insertE emptyE; cases leap; simp add: month_start_def month_length_def month_lengths_def)
qed

lemma era_floor: "(if d \<ge> 0 then d else d - (k - 1)) sdiv k = d div k" if "0 < k" for d k :: int
proof (cases "d \<ge> 0")
  case False
  have "(d - (k - 1)) sdiv k = - ((k - 1 - d) div k)" using False that
    by (simp add: signed_divide_int_def sgn_if)
  also have "\<dots> = d div k"
  proof -
    have "k - 1 - d = k * (- (d div k)) + (k - 1 - d mod k)" by (simp add: algebra_simps)
    then have "(k - 1 - d) div k = - (d div k)" by (rule int_div_pos_eq) (use that pos_mod_bound[OF that, of d] pos_mod_sign[OF that, of d] in auto)
    then show ?thesis by simp
  qed
  finally show ?thesis using False by simp
qed (use sdiv_pos that in auto)

definition civil_year :: "int \<Rightarrow> int \<Rightarrow> int" where
  "civil_year era d = (let e = era_year d in e + 400 * era + (if month_mon (year_day d e) \<le> 1 then 1 else 0))"

definition civil_yday :: "int \<Rightarrow> int" where
  "civil_yday d = (let e = era_year d; yd = year_day d e in
     if yd \<ge> 306 then yd - 306 else yd + 59 + (if isleap e then 1 else 0))"

lemma time_nums:
  "SECSPERMIN = 60" "MINSPERHOUR = 60" "HOURSPERDAY = 24" "SECSPERHOUR = 3600" "SECSPERDAY = 86400" "DAYSPERWEEK = 7" "YEAR_BASE = 1900"
  "DAYS_PER_ERA = 146097" "DAYS_PER_ERA - 1 = 146096" "EPOCH_ADJUSTMENT_DAYS = 719468" "ADJUSTED_EPOCH_WDAY = 3"
  "ADJUSTED_EPOCH_YEAR = 0" "YEARS_PER_ERA = 400" "DAYS_PER_YEAR - DAYS_IN_JANUARY - DAYS_IN_FEBRUARY = 306"
  by (simp_all add: time_consts era_consts)

lemma gmtime_r_floor:
  fixes t :: int
  defines "D \<equiv> t div 86400 + 719468"
  defines "d \<equiv> D mod 146097" and "era \<equiv> D div 146097"
  defines "yd \<equiv> year_day d (era_year d)" and "r \<equiv> t mod 86400"
  shows "gmtime_r t = do {
     eras \<leftarrow> int32 (era * 400);
     let year = sint (word_of_int (civil_year era d) :: 32 word);
     y \<leftarrow> int32 (year - 1900);
     Some \<lparr>tm_sec = r mod 3600 mod 60, tm_min = r mod 3600 div 60, tm_hour = r div 3600, tm_mday = month_mday yd, tm_mon = month_mon yd,
       tm_year = y, tm_wday = (D + 3) mod 7, tm_yday = civil_yday d, tm_isdst = 0\<rparr> }"
proof -
  have ds: "(if t smod 86400 < 0 then (t sdiv 86400 + 719468 - 1, t smod 86400 + 86400) else (t sdiv 86400 + 719468, t smod 86400)) = (D, r)"
    using floor_of_trunc[of 86400 t] by (simp add: D_def r_def)
  have r: "r sdiv 3600 = r div 3600" "r smod 3600 = r mod 3600" "r mod 3600 sdiv 60 = r mod 3600 div 60"
    "r mod 3600 smod 60 = r mod 3600 mod 60" using sdiv_pos[of r 3600] sdiv_pos[of "r mod 3600" 60] by (simp_all add: r_def)
  have w: "(if (3 + D) smod 7 < 0 then (3 + D) smod 7 + 7 else (3 + D) smod 7) = (D + 3) mod 7"
    using floor_of_trunc(2)[of 7 "3 + D"] by (simp add: add.commute)
  have era: "(if D \<ge> 0 then D else D - (146097 - 1)) sdiv 146097 = era" unfolding era_def by (rule era_floor) simp
  have d: "D - era * 146097 = d" by (simp add: d_def era_def minus_div_mult_eq_mod)
  have mon: "(if (5 * x + 2) div 153 < 10 then (5 * x + 2) div 153 + 2 else (5 * x + 2) div 153 - 10) = month_mon x"
    "x - (153 * ((5 * x + 2) div 153) + 2) div 5 + 1 = month_mday x" for x by (simp_all add: month_mon_def month_mday_def Let_def)
  have y: "0 + era_year d + era * 400 + (if month_mon yd \<le> 1 then 1 else 0) = civil_year era d"
    by (simp add: civil_year_def yd_def Let_def)
  have yday: "(if yd \<ge> 306 then yd - 306 else yd + DAYS_IN_JANUARY + DAYS_IN_FEBRUARY + (if isleap (era_year d) then 1 else 0)) = civil_yday d"
    by (simp add: civil_yday_def yd_def Let_def era_consts)
  have i: "int32 x \<bind> (\<lambda>e. F e) = int32 x \<bind> (\<lambda>e. F x)" for x and F :: "int \<Rightarrow> 'a option"
    by (simp add: signed_result_def)
  show ?thesis
    unfolding gmtime_r_def Let_def time_nums ds prod.case w era d yd_def[symmetric] r mon yday
    by (subst i) (simp only: y)
qed

lemma era_days_before_year:
  assumes "0 \<le> e" "e \<le> 399"
  shows "days_before_year (e + 400 * era + 1) = 146097 * era + era_start e - 719468 + 306"
proof -
  have "(e + 400 * era) div 4 = e div 4 + 100 * era" using div_mult_self2[of 4 e "100 * era"] by simp
  moreover have "(e + 400 * era) div 100 = e div 100 + 4 * era" using div_mult_self2[of 100 e "4 * era"] by simp
  moreover have "(e + 400 * era) div 400 = era" using div_mult_self2[of 400 e era] assms by simp
  ultimately have "days_before_year (e + 400 * era + 1) = 365 * (e + 400 * era + 1 - 1970) + (e div 4 + 100 * era) - (e div 100 + 4 * era) + era - 477"
    unfolding days_before_year_def add_diff_cancel_right' by (simp only:)
  moreover define x y where "x = e div 4" and "y = e div 100"
  ultimately show ?thesis unfolding era_start_def x_def[symmetric] y_def[symmetric] by simp
qed

text \<open>The date of a day of an era is valid and its day number is that day.\<close>

lemma civil_date:
  assumes d: "0 \<le> d" "d < 146097"
    and t: "tm_mon t = month_mon (year_day d (era_year d))" "tm_mday t = month_mday (year_day d (era_year d))"
      "tm_year t = civil_year era d - 1900" "tm_yday t = civil_yday d"
  shows "date_valid t \<and> tm_day t = 146097 * era + d - 719468 \<and>
    tm_yday t = month_start (isleap (tm_year t + 1900)) (tm_mon t) + tm_mday t - 1"
proof -
  define e yd where "e = era_year d" and "yd = year_day d e"
  have e: "0 \<le> e" "e \<le> 399" "d = era_start e + yd" "0 \<le> yd" "yd \<le> 365" "yd = 365 \<longrightarrow> isleap (e + 1)"
    using era_year_day[OF d] by (simp_all add: e_def yd_def)
  let ?y = "tm_year t + 1900"
  have md: "month_day_ok yd (isleap ?y)" using month_day e by simp
  have mon: "0 \<le> tm_mon t" "tm_mon t < 12" "1 \<le> tm_mday t"
    using md t by (simp_all add: month_day_ok_def e_def yd_def)
  have J: "days_before_year (e + 400 * era + 1) = 146097 * era + era_start e - 719468 + 306"
    using era_days_before_year e by simp
  show ?thesis
  proof (cases "306 \<le> yd")
    case True
    then have y: "?y = e + 400 * era + 1" using md t by (simp add: civil_year_def Let_def month_day_ok_def e_def yd_def)
    have l: "isleap ?y \<longleftrightarrow> isleap (e + 1)" unfolding y using isleap_era[of "e + 1" era] by (simp only: ac_simps)
    have ms: "yd - 306 = month_start (isleap ?y) (tm_mon t) + tm_mday t - 1" "tm_mday t \<le> month_length (isleap ?y) (tm_mon t)"
      using md True t e(6) l by (simp_all add: month_day_ok_def e_def yd_def)
    have "tm_day t = days_before_year ?y + (yd - 306)" using tm_day_valid[OF mon(1,2)] ms(1) by simp
    then have "tm_day t = 146097 * era + d - 719468" unfolding y J using e(3) by simp
    moreover have "tm_yday t = yd - 306" using t True by (simp add: civil_yday_def Let_def e_def yd_def)
    ultimately show ?thesis using mon ms by (simp add: date_valid_def)
  next
    case False
    then have y: "?y = e + 400 * era" using md t by (simp add: civil_year_def Let_def month_day_ok_def e_def yd_def)
    have l: "isleap ?y \<longleftrightarrow> isleap e" unfolding y by (rule isleap_era)
    have ms: "59 + (if isleap ?y then 1 else 0) + yd = month_start (isleap ?y) (tm_mon t) + tm_mday t - 1" "tm_mday t \<le> month_length (isleap ?y) (tm_mon t)"
      using md False t by (simp_all add: month_day_ok_def e_def yd_def)
    have "days_before_year ?y + (if isleap ?y then 366 else 365) = 146097 * era + era_start e - 719468 + 306"
      using J days_before_year_Suc[of ?y] unfolding y by simp
    moreover have "tm_day t = days_before_year ?y + (59 + (if isleap ?y then 1 else 0) + yd)" using tm_day_valid[OF mon(1,2)] ms(1) by simp
    ultimately have "tm_day t = 146097 * era + d - 719468" using e(3) by (cases "isleap ?y") simp_all
    moreover have "tm_yday t = 59 + (if isleap ?y then 1 else 0) + yd"
      using t False l by (simp add: civil_yday_def Let_def e_def yd_def)
    ultimately show ?thesis using mon ms by (simp add: date_valid_def)
  qed
qed

lemma sint_word_of_int_in: "- (2 ^ 31) \<le> x \<Longrightarrow> x < 2 ^ 31 \<Longrightarrow> sint (word_of_int x :: 32 word) = x"
  by (simp add: signed_of_int signed_take_bit_int_eq_self)

lemma word_of_int_wrap32: "2 ^ 31 \<le> x \<Longrightarrow> x < 2 ^ 31 + 2 ^ 32 \<Longrightarrow> sint (word_of_int x :: 32 word) = x - 2 ^ 32"
proof -
  assume x: "2 ^ 31 \<le> x" "x < 2 ^ 31 + 2 ^ 32"
  have "(word_of_int x :: 32 word) = word_of_int (x - 2 ^ 32)" by simp
  then show ?thesis using x by (simp only:) (rule sint_word_of_int_in; simp)
qed

lemma gmtime_r_calendar:
  assumes g: "gmtime_r t = Some tm"
  shows "tm_valid tm \<and> tm_dated tm \<and> tm_epoch tm = t \<and> tm_isdst tm = 0"
proof -
  define D r where "D = t div 86400 + 719468" and "r = t mod 86400"
  define d era where "d = D mod 146097" and "era = D div 146097"
  have d: "0 \<le> d" "d < 146097" "D = 146097 * era + d" by (simp_all add: d_def era_def)
  have eb: "0 \<le> era_year d" "era_year d \<le> 399" using era_year_day[OF d(1,2)] by auto
  from g[unfolded gmtime_r_floor, folded D_def r_def, folded d_def era_def]
  obtain y where lim: "int32 (era * 400) = Some (era * 400)" "int32 (sint (word_of_int (civil_year era d) :: 32 word) - 1900) = Some y"
    and tm: "tm = \<lparr>tm_sec = r mod 3600 mod 60, tm_min = r mod 3600 div 60, tm_hour = r div 3600,
       tm_mday = month_mday (year_day d (era_year d)), tm_mon = month_mon (year_day d (era_year d)),
       tm_year = y, tm_wday = (D + 3) mod 7, tm_yday = civil_yday d, tm_isdst = 0\<rparr>"
    by (auto simp: bind_eq_Some_conv Let_def signed_result_def split: if_splits)
  have y: "y = civil_year era d - 1900"
  proof -
    define c where "c = civil_year era d"
    have c: "400 * era \<le> c" "c \<le> 400 * era + 400" using eb by (auto simp: c_def civil_year_def Let_def)
    have e: "- (2 ^ 31) \<le> 400 * era" "400 * era < 2 ^ 31" using lim(1) by (auto simp: signed_result_def split: if_splits)
    have s: "y = sint (word_of_int c :: 32 word) - 1900" "- (2 ^ 31) \<le> y" using lim(2) by (auto simp: signed_result_def c_def split: if_splits)
    have "c < 2 ^ 31"
    proof (rule ccontr)
      assume n: "\<not> c < 2 ^ 31"
      have "sint (word_of_int c :: 32 word) = c - 2 ^ 32"
        using n c e by (subst word_of_int_wrap32) auto
      then show False using s c e by auto
    qed
    then show ?thesis using s(1) c e by (simp add: c_def[symmetric] sint_word_of_int_in)
  qed
  have cd: "date_valid tm \<and> tm_day tm = 146097 * era + d - 719468 \<and> tm_yday tm = month_start (isleap (tm_year tm + 1900)) (tm_mon tm) + tm_mday tm - 1"
    by (rule civil_date[OF d(1,2)]) (simp_all add: tm y)
  have day: "tm_day tm = t div 86400" using cd d(3) by (simp add: D_def)
  have r: "0 \<le> r" "r < 86400" by (simp_all add: r_def)
  have h: "0 \<le> r div 3600" "r div 3600 < 24" using r zdiv_mono1[of r 86399 3600] by (auto simp: pos_imp_zdiv_nonneg_iff)
  have m: "0 \<le> r mod 3600 div 60" "r mod 3600 div 60 < 60"
    using zdiv_mono1[of "r mod 3600" 3599 60] pos_mod_bound[of 3600 r] by (auto simp: pos_imp_zdiv_nonneg_iff)
  have "(r div 3600 * 60 + r mod 3600 div 60) * 60 + r mod 3600 mod 60 = r"
    using div_mult_mod_eq[of r 3600] div_mult_mod_eq[of "r mod 3600" 60] by (simp add: algebra_simps)
  moreover have "t = tm_day tm * 86400 + r" unfolding day r_def by simp
  ultimately have "tm_epoch tm = t" by (simp add: tm_epoch_def tm algebra_simps)
  moreover have "tm_wday tm = (tm_day tm + 4) mod 7"
  proof -
    have "D + 3 = tm_day tm + 4 + 102781 * 7" by (simp add: day D_def)
    then have "(D + 3) mod 7 = (tm_day tm + 4) mod 7" by (simp only: mod_mult_self1)
    moreover have "tm_wday tm = (D + 3) mod 7" by (simp add: tm)
    ultimately show ?thesis by simp
  qed
  moreover have f: "tm_sec tm = r mod 3600 mod 60" "tm_min tm = r mod 3600 div 60" "tm_hour tm = r div 3600" "tm_isdst tm = 0"
    by (simp_all add: tm)
  moreover have "0 \<le> r mod 3600 mod 60" "r mod 3600 mod 60 < 60" by simp_all
  ultimately show ?thesis using cd h m unfolding tm_valid_def tm_dated_def f by blast
qed

lemma gmtime_r_defined:
  assumes "\<bar>t\<bar> \<le> 2 ^ 55"
  shows "\<exists>tm. gmtime_r t = Some tm"
proof -
  define D where "D = t div 86400 + 719468"
  define d era where "d = D mod 146097" and "era = D div 146097"
  have "- 418000000000 \<le> D" "D \<le> 418000000000"
    using assms zdiv_mono1[of t "2 ^ 55" 86400] zdiv_mono1[of "- (2 ^ 55)" t 86400] by (auto simp: D_def)
  then have e: "- 2870000 \<le> era" "era \<le> 2870000"
    using zdiv_mono1[of D 418000000000 146097] zdiv_mono1[of "- 418000000000" D 146097] by (auto simp: era_def)
  define c where "c = civil_year era d"
  have eb: "0 \<le> era_year d" "era_year d \<le> 399" using era_year_day[of d] by (auto simp: d_def)
  have c: "400 * era \<le> c" "c \<le> 400 * era + 400" using eb by (auto simp: c_def civil_year_def Let_def)
  have "sint (word_of_int c :: 32 word) = c" using c e by (intro sint_word_of_int_in) auto
  then show ?thesis
    unfolding gmtime_r_floor D_def[symmetric] unfolding d_def[symmetric] era_def[symmetric] c_def[symmetric]
    using c e by (simp add: signed_result_def)
qed

section \<open>mktime\<close>

lemma DAYS_IN_YEAR_isleap: "DAYS_IN_YEAR y = (if isleap (y + 1900) then 366 else 365)"
  by (simp add: DAYS_IN_YEAR_def ISLEAP_isleap)

lemma month_cases: "0 \<le> mon \<Longrightarrow> mon < 12 \<Longrightarrow> mon \<in> {0, 1, 2, 3, 4, 5, 6, 7, 8, 9, 10, 11}" for mon :: int
proof -
  assume "0 \<le> mon" "mon < 12"
  then have "mon \<in> set [0..11]" by simp
  then show ?thesis by (simp add: upto.simps)
qed

lemma days_in_month_length:
  "0 \<le> mon \<Longrightarrow> mon < 12 \<Longrightarrow> days_in_month (days_in_feb y) mon = Some (month_length (isleap (y + 1900)) mon)"
  by (drule (1) month_cases)
    (elim insertE emptyE; simp add: days_in_month_def days_in_feb_def DAYS_IN_YEAR_isleap elem_at_def DAYS_IN_MONTH_def month_length_def month_lengths_def)

lemma days_before_month:
  "0 \<le> mon \<Longrightarrow> mon < 12 \<Longrightarrow> \<exists>b. elem_at DAYS_BEFORE_MONTH mon = Some b \<and>
     b + (if mon > 1 \<and> DAYS_IN_YEAR y = 366 then 1 else 0) = month_start (isleap (y + 1900)) mon"
  by (drule (1) month_cases)
    (elim insertE emptyE; simp add: elem_at_def DAYS_BEFORE_MONTH_def DAYS_IN_YEAR_isleap month_start_def month_lengths_def)

lemma days_before_next_year: "days_before_year (y + 1901) = days_before_year (y + 1900) + DAYS_IN_YEAR y"
proof -
  have "y + 1901 = y + 1900 + 1" by simp
  then show ?thesis by (simp only: days_before_year_Suc DAYS_IN_YEAR_isleap)
qed

lemma add_years_days: "add_years y k d = d + days_before_year (y + int k + 1900) - days_before_year (y + 1900)"
proof (induction k arbitrary: y d)
  case (Suc k)
  have "y + 1 + int k + 1900 = y + int (Suc k) + 1900" "y + 1 + 1900 = y + 1901" by simp_all
  then show ?case using days_before_next_year[of y] by (simp only: add_years.simps Suc)
qed simp

lemma sub_years_days: "sub_years y k d = d + days_before_year (y - int k + 1901) - days_before_year (y + 1901)"
proof (induction k arbitrary: y d)
  case (Suc k)
  have "y - 1 - int k + 1901 = y - int (Suc k) + 1901" "y - 1 + 1901 = y + 1900" by simp_all
  then show ?case using days_before_next_year[of y] by (simp only: sub_years.simps Suc)
qed simp

lemma year_days_before: "year_days y d = d + days_before_year (y + 1900)"
proof -
  consider "y > 70" | "y < 70" | "y = 70" by linarith
  then show ?thesis
  proof cases
    case 1
    then show ?thesis by (simp add: year_days_def add_years_days days_before_epoch)
  next
    case 2
    then show ?thesis using days_before_next_year[of y] by (simp add: year_days_def sub_years_days days_before_epoch)
  next
    case 3
    then show ?thesis by (simp add: year_days_def days_before_epoch)
  qed
qed

subsection \<open>Normalisation\<close>

lemma div_int_trunc:
  assumes "- (2 ^ 31) \<le> x" "x < 2 ^ 31" "2 \<le> n"
  shows "div_int x n = Some (x sdiv n, x smod n)"
proof -
  have "0 \<le> \<bar>x\<bar> div n" "\<bar>x\<bar> div n \<le> \<bar>x\<bar> div 2"
    using assms(3) by (auto simp: pos_imp_zdiv_nonneg_iff intro: zdiv_mono2)
  moreover have "\<bar>x\<bar> div 2 \<le> 2 ^ 31 div 2" using assms by (intro zdiv_mono1) auto
  moreover have "x sdiv n = \<bar>x\<bar> div n \<or> x sdiv n = - (\<bar>x\<bar> div n)" using assms(3) by (auto simp: signed_divide_int_def sgn_if)
  ultimately have "signed_result 32 (x sdiv n) = Some (x sdiv n)" by (auto simp: signed_result_def)
  then show ?thesis using smod_sign[of x n] assms(3) by (auto simp: div_int_def div_quot_rem_def)
qed

lemma carry_floor:
  assumes "- (2 ^ 31) \<le> x" "x < 2 ^ 31" "2 \<le> n" "- (2 ^ 31) \<le> up + x div n" "up + x div n < 2 ^ 31 - 1"
  shows "carry n x up = Some (x mod n, up + x div n)"
proof (cases "0 \<le> x \<and> x < n")
  case True
  then show ?thesis by (simp add: carry_def)
next
  case False
  have "x div n = (if x smod n < 0 then x sdiv n - 1 else x sdiv n)" "x mod n = (if x smod n < 0 then x smod n + n else x smod n)"
    using floor_of_trunc[of n x] assms(3) by auto
  moreover have "x < 0 \<or> x > n - 1" using False by auto
  ultimately show ?thesis using div_int_trunc[OF assms(1-3)] assms(4,5)
    by (cases "x smod n < 0") (auto simp: carry_def signed_result_def)
qed

text \<open>Moving to the neighbouring month keeps the day number.\<close>

lemma month_back_day:
  assumes "0 \<le> tm_mon t" "tm_mon t < 12" "- (2 ^ 31) < tm_year t"  "tm_year t < 2 ^ 31"
  shows "\<exists>t'. month_back (days_in_feb (tm_year t)) t = Some (days_in_feb (tm_year t'), t') \<and> 0 \<le> tm_mon t' \<and> tm_mon t' < 12 \<and>
    tm_year t - 1 \<le> tm_year t' \<and> tm_year t' \<le> tm_year t \<and> t = t'\<lparr>tm_mon := tm_mon t, tm_year := tm_year t\<rparr> \<and>
    tm_day (t'\<lparr>tm_mday := tm_mday t + month_length (isleap (tm_year t' + 1900)) (tm_mon t')\<rparr>) = tm_day t"
proof (cases "tm_mon t = 0")
  case True
  define y where "y = tm_year t - 1"
  let ?t = "t\<lparr>tm_year := y, tm_mon := 11\<rparr>"
  have ty: "tm_year t + 1900 = y + 1901" by (simp add: y_def)
  have "days_before_year (tm_year t + 1900) = days_before_year (y + 1900) + month_start (isleap (y + 1900)) 12"
    unfolding ty days_before_next_year month_start_12 DAYS_IN_YEAR_isleap ..
  then have "tm_day (?t\<lparr>tm_mday := tm_mday t + month_length (isleap (y + 1900)) 11\<rparr>) = tm_day t"
    using month_start_Suc[of 11 "isleap (y + 1900)"] True by (simp add: tm_day_def Let_def)
  moreover have "month_back (days_in_feb (tm_year t)) t = Some (days_in_feb (tm_year ?t), ?t)"
    using True assms(3,4) by (simp add: month_back_def signed_result_def y_def)
  ultimately show ?thesis using y_def by (intro exI[of _ ?t]) auto
next
  case False
  define n where "n = tm_mon t - 1"
  let ?t = "t\<lparr>tm_mon := n\<rparr>"
  have n: "0 \<le> n" "n < 12" "n + 1 < 12" "tm_mon t = n + 1" using False assms(1,2) by (auto simp: n_def)
  have "tm_day (?t\<lparr>tm_mday := tm_mday t + month_length (isleap (tm_year t + 1900)) n\<rparr>) = tm_day t"
    using month_start_Suc[OF n(1,2), of "isleap (tm_year t + 1900)"] n by (simp add: tm_day_def Let_def)
  moreover have "month_back (days_in_feb (tm_year t)) t = Some (days_in_feb (tm_year ?t), ?t)"
    using n by (simp add: month_back_def)
  ultimately show ?thesis using n by (intro exI[of _ ?t]) auto
qed

lemma month_forward_day:
  assumes "0 \<le> tm_mon t" "tm_mon t < 12" "- (2 ^ 31) \<le> tm_year t" "tm_year t < 2 ^ 31 - 1"
  shows "\<exists>t'. month_forward (days_in_feb (tm_year t)) (t\<lparr>tm_mday := tm_mday t - month_length (isleap (tm_year t + 1900)) (tm_mon t)\<rparr>) =
      Some (days_in_feb (tm_year t'), t') \<and> 0 \<le> tm_mon t' \<and> tm_mon t' < 12 \<and>
    tm_year t \<le> tm_year t' \<and> tm_year t' \<le> tm_year t + 1 \<and>
    tm_mday t' = tm_mday t - month_length (isleap (tm_year t + 1900)) (tm_mon t) \<and>
    t = t'\<lparr>tm_mday := tm_mday t, tm_mon := tm_mon t, tm_year := tm_year t\<rparr> \<and> tm_day t' = tm_day t"
proof (cases "tm_mon t = 11")
  case True
  define y where "y = tm_year t"
  let ?t = "t\<lparr>tm_mday := tm_mday t - month_length (isleap (y + 1900)) 11, tm_year := y + 1, tm_mon := 0\<rparr>"
  have "y + 1 + 1900 = y + 1901" by simp
  then have "days_before_year (y + 1 + 1900) = days_before_year (y + 1900) + month_start (isleap (y + 1900)) 12"
    by (simp only: days_before_next_year month_start_12 DAYS_IN_YEAR_isleap)
  then have "tm_day ?t = tm_day t"
    using month_start_Suc[of 11 "isleap (y + 1900)"] True by (simp add: tm_day_def Let_def y_def)
  moreover have "month_forward (days_in_feb (tm_year t)) (t\<lparr>tm_mday := tm_mday t - month_length (isleap (tm_year t + 1900)) (tm_mon t)\<rparr>) =
      Some (days_in_feb (tm_year ?t), ?t)"
    using True assms(3,4) by (simp add: month_forward_def signed_result_def y_def)
  ultimately show ?thesis using y_def True by (intro exI[of _ ?t]) auto
next
  case False
  define n where "n = tm_mon t"
  let ?t = "t\<lparr>tm_mday := tm_mday t - month_length (isleap (tm_year t + 1900)) n, tm_mon := n + 1\<rparr>"
  have n: "0 \<le> n" "n < 12" "n + 1 < 12" using False assms(1,2) by (auto simp: n_def)
  have "tm_day ?t = tm_day t"
    using month_start_Suc[OF n(1,2), of "isleap (tm_year t + 1900)"] n by (simp add: tm_day_def Let_def n_def)
  moreover have "month_forward (days_in_feb (tm_year t)) (t\<lparr>tm_mday := tm_mday t - month_length (isleap (tm_year t + 1900)) (tm_mon t)\<rparr>) =
      Some (days_in_feb (tm_year ?t), ?t)"
    using n by (simp add: month_forward_def n_def)
  ultimately show ?thesis using n n_def by (intro exI[of _ ?t]) auto
qed

text \<open>The fields below the date are kept.\<close>

definition same_time :: "tm \<Rightarrow> tm \<Rightarrow> bool" where
  "same_time t t' \<longleftrightarrow> tm_sec t' = tm_sec t \<and> tm_min t' = tm_min t \<and> tm_hour t' = tm_hour t"

lemma mday_down_day:
  "0 \<le> tm_mon t \<Longrightarrow> tm_mon t < 12 \<Longrightarrow> 1 \<le> tm_mday t \<Longrightarrow> - (2 ^ 31) \<le> tm_year t \<Longrightarrow> tm_year t + tm_mday t < 2 ^ 31 \<Longrightarrow>
   \<exists>t'. mday_down (days_in_feb (tm_year t)) t = Some t' \<and> date_valid t' \<and> tm_day t' = tm_day t \<and> same_time t t' \<and>
     tm_year t \<le> tm_year t' \<and> tm_year t' \<le> tm_year t + tm_mday t"
proof (induction "nat (tm_mday t)" arbitrary: t rule: less_induct)
  case less
  let ?l = "month_length (isleap (tm_year t + 1900)) (tm_mon t)"
  have l: "days_in_month (days_in_feb (tm_year t)) (tm_mon t) = Some ?l" "28 \<le> ?l"
    using days_in_month_length month_length_range less.prems(1,2) by blast+
  show ?case
  proof (cases "tm_mday t > ?l")
    case False
    then have "mday_down (days_in_feb (tm_year t)) t = Some t" using l by (subst mday_down.simps) simp
    then show ?thesis using False less.prems by (simp add: date_valid_def same_time_def)
  next
    case True
    obtain u where u: "month_forward (days_in_feb (tm_year t)) (t\<lparr>tm_mday := tm_mday t - ?l\<rparr>) = Some (days_in_feb (tm_year u), u)"
      "0 \<le> tm_mon u" "tm_mon u < 12" "tm_year t \<le> tm_year u" "tm_year u \<le> tm_year t + 1" "tm_mday u = tm_mday t - ?l"
      "t = u\<lparr>tm_mday := tm_mday t, tm_mon := tm_mon t, tm_year := tm_year t\<rparr>" "tm_day u = tm_day t"
      using month_forward_day[OF less.prems(1,2,4)] less.prems(3,5) by auto
    have step: "mday_down (days_in_feb (tm_year t)) t = mday_down (days_in_feb (tm_year u)) u"
      using l True u(1) by (subst mday_down.simps) simp
    have st: "same_time t u" by (subst u(7)) (simp add: same_time_def)
    obtain t' where "mday_down (days_in_feb (tm_year u)) u = Some t'" "date_valid t'" "tm_day t' = tm_day u" "same_time u t'"
      "tm_year u \<le> tm_year t'" "tm_year t' \<le> tm_year u + tm_mday u"
      using less.hyps[of u] u True l(2) less.prems by auto
    then show ?thesis unfolding step using u(4-6,8) st l(2) by (auto simp: same_time_def)
  qed
qed

lemma mday_up_day:
  "0 \<le> tm_mon t \<Longrightarrow> tm_mon t < 12 \<Longrightarrow> tm_mday t \<le> 31 \<Longrightarrow> tm_year t < 2 ^ 31 \<Longrightarrow> - (2 ^ 31) < tm_year t + tm_mday t - 32 \<Longrightarrow>
   (0 < tm_mday t \<Longrightarrow> tm_mday t \<le> month_length (isleap (tm_year t + 1900)) (tm_mon t)) \<Longrightarrow>
   \<exists>t'. mday_up (days_in_feb (tm_year t)) t = Some t' \<and> date_valid t' \<and> tm_day t' = tm_day t \<and> same_time t t' \<and>
     tm_year t + tm_mday t - 32 \<le> tm_year t' \<and> tm_year t' \<le> tm_year t"
proof (induction "nat (1 - tm_mday t)" arbitrary: t rule: less_induct)
  case less
  show ?case
  proof (cases "tm_mday t \<le> 0")
    case False
    then have "mday_up (days_in_feb (tm_year t)) t = Some t" by (subst mday_up.simps) simp
    then show ?thesis using False less.prems by (simp add: date_valid_def same_time_def)
  next
    case True
    obtain u where u: "month_back (days_in_feb (tm_year t)) t = Some (days_in_feb (tm_year u), u)"
      "0 \<le> tm_mon u" "tm_mon u < 12" "tm_year t - 1 \<le> tm_year u" "tm_year u \<le> tm_year t"
      "t = u\<lparr>tm_mon := tm_mon t, tm_year := tm_year t\<rparr>"
      "tm_day (u\<lparr>tm_mday := tm_mday t + month_length (isleap (tm_year u + 1900)) (tm_mon u)\<rparr>) = tm_day t"
      using month_back_day[OF less.prems(1,2)] less.prems(3-5) True by auto
    let ?l = "month_length (isleap (tm_year u + 1900)) (tm_mon u)"
    have l: "days_in_month (days_in_feb (tm_year u)) (tm_mon u) = Some ?l" "28 \<le> ?l" "?l \<le> 31"
      using days_in_month_length month_length_range u(2,3) by blast+
    let ?v = "u\<lparr>tm_mday := tm_mday t + ?l\<rparr>"
    have mu: "tm_mday u = tm_mday t" by (subst u(6)) simp
    have step: "mday_up (days_in_feb (tm_year t)) t = mday_up (days_in_feb (tm_year ?v)) ?v"
      using l True u(1) mu by (subst mday_up.simps) simp
    have st: "same_time t ?v" by (subst u(6)) (simp add: same_time_def)
    obtain t' where "mday_up (days_in_feb (tm_year ?v)) ?v = Some t'" "date_valid t'" "tm_day t' = tm_day ?v" "same_time ?v t'"
      "tm_year ?v + tm_mday ?v - 32 \<le> tm_year t'" "tm_year t' \<le> tm_year ?v"
      using less.hyps[of ?v] u True l(2,3) less.prems by auto
    then show ?thesis unfolding step using u(4,5,7) st l(2) by (auto simp: same_time_def)
  qed
qed

lemma div_bound: "\<bar>x\<bar> \<le> b \<Longrightarrow> 2 \<le> n \<Longrightarrow> \<bar>x div n\<bar> \<le> b" for x n b :: int
proof -
  assume b: "\<bar>x\<bar> \<le> b" "2 \<le> n"
  have "x div n \<le> b div n" "(- b) div n \<le> x div n" using b by (auto intro!: zdiv_mono1)
  moreover have "b div n \<le> b" using zdiv_mono2[of b 1 n] b by auto
  moreover have "- b \<le> (- b) div n"
  proof -
    have "b \<le> b * n" using b by (simp add: mult_le_cancel_left1)
    then have "(- (b * n)) div n \<le> (- b) div n" using b by (intro zdiv_mono1) auto
    moreover have "(- (b * n)) div n = - b" using b nonzero_mult_div_cancel_right[of n "- b"] by simp
    ultimately show ?thesis by simp
  qed
  ultimately show ?thesis by linarith
qed

lemma abs_sum_le: "\<bar>a\<bar> \<le> x \<Longrightarrow> \<bar>b\<bar> \<le> y \<Longrightarrow> x + y \<le> z \<Longrightarrow> \<bar>a + b\<bar> \<le> z" for a b x y z :: int
  by linarith

lemma carry_abs:
  assumes "\<bar>x\<bar> \<le> 2 ^ 30" "2 \<le> n" "\<bar>v\<bar> \<le> 2 ^ 30" "v = up + x div n"
  shows "carry n x up = Some (x mod n, v)"
  unfolding assms(4)
  by (rule carry_floor) (use assms(1-3) in \<open>simp_all add: abs_le_iff flip: assms(4)\<close>)

definition tm_bounded :: "tm \<Rightarrow> bool" where
  "tm_bounded t \<longleftrightarrow> \<bar>tm_sec t\<bar> \<le> 2 ^ 28 \<and> \<bar>tm_min t\<bar> \<le> 2 ^ 28 \<and> \<bar>tm_hour t\<bar> \<le> 2 ^ 28 \<and> \<bar>tm_mday t\<bar> \<le> 2 ^ 28 \<and>
     \<bar>tm_mon t\<bar> \<le> 2 ^ 28 \<and> \<bar>tm_year t\<bar> \<le> 2 ^ 28"

lemma validate_structure_normalises:
  assumes b: "tm_bounded t"
  shows "\<exists>t'. validate_structure t = Some t' \<and> tm_valid t' \<and> tm_epoch t' = tm_epoch t"
proof -
  define mi where "mi = tm_min t + tm_sec t div 60"
  define h where "h = tm_hour t + mi div 60"
  define d where "d = tm_mday t + h div 24"
  define y where "y = tm_year t + tm_mon t div 12"
  have mi: "\<bar>mi\<bar> \<le> 2 ^ 29"
    unfolding mi_def by (rule abs_sum_le[OF _ div_bound[of _ "2 ^ 28"], of _ "2 ^ 28"]) (use b in \<open>auto simp: tm_bounded_def\<close>)
  have h: "\<bar>h\<bar> \<le> 3 * 2 ^ 28"
    unfolding h_def by (rule abs_sum_le[OF _ div_bound[OF mi], of _ "2 ^ 28"]) (use b in \<open>auto simp: tm_bounded_def\<close>)
  have d: "\<bar>d\<bar> \<le> 2 ^ 30"
    unfolding d_def by (rule abs_sum_le[OF _ div_bound[OF h], of _ "2 ^ 28"]) (use b in \<open>auto simp: tm_bounded_def\<close>)
  have y: "\<bar>y\<bar> \<le> 2 ^ 29"
    unfolding y_def by (rule abs_sum_le[OF _ div_bound[of _ "2 ^ 28"], of _ "2 ^ 28"]) (use b in \<open>auto simp: tm_bounded_def\<close>)
  have bt: "\<bar>tm_sec t\<bar> \<le> 2 ^ 30" "\<bar>tm_mon t\<bar> \<le> 2 ^ 30" using b by (auto simp: tm_bounded_def)
  have b30: "\<bar>mi\<bar> \<le> 2 ^ 30" "\<bar>h\<bar> \<le> 2 ^ 30" "\<bar>y\<bar> \<le> 2 ^ 30" using mi h y by simp_all
  have c1: "carry 60 (tm_sec t) (tm_min t) = Some (tm_sec t mod 60, mi)" by (rule carry_abs[OF bt(1) _ b30(1) mi_def]) simp
  have c2: "carry 60 mi (tm_hour t) = Some (mi mod 60, h)" by (rule carry_abs[OF b30(1) _ b30(2) h_def]) simp
  have c3: "carry 24 h (tm_mday t) = Some (h mod 24, d)" by (rule carry_abs[OF b30(2) _ d d_def]) simp
  have c4: "carry 12 (tm_mon t) (tm_year t) = Some (tm_mon t mod 12, y)" by (rule carry_abs[OF bt(2) _ b30(3) y_def]) simp
  define u where "u = t\<lparr>tm_sec := tm_sec t mod 60, tm_min := mi mod 60, tm_hour := h mod 24, tm_mday := d, tm_mon := tm_mon t mod 12, tm_year := y\<rparr>"
  have vs: "validate_structure t = (if d \<le> 0 then mday_up (days_in_feb (tm_year u)) u else mday_down (days_in_feb (tm_year u)) u)"
    unfolding validate_structure_def using c1 c2 c3 c4 by (simp add: u_def)
  have "\<exists>t'. validate_structure t = Some t' \<and> date_valid t' \<and> tm_day t' = tm_day u \<and> same_time u t'"
  proof -
    have u: "0 \<le> tm_mon u" "tm_mon u < 12" "tm_mday u = d" "tm_year u = y" by (simp_all add: u_def)
    show ?thesis
    proof (cases "d \<le> 0")
      case True
      have "tm_mday u \<le> 31" "tm_year u < 2 ^ 31" "- (2 ^ 31) < tm_year u + tm_mday u - 32" "\<not> 0 < tm_mday u"
        using u d y True by (auto simp: abs_le_iff)
      with mday_up_day[OF u(1,2)] show ?thesis using vs True by auto
    next
      case False
      have "1 \<le> tm_mday u" "- (2 ^ 31) \<le> tm_year u" "tm_year u + tm_mday u < 2 ^ 31" using u d y False by (auto simp: abs_le_iff)
      with mday_down_day[OF u(1,2)] show ?thesis using vs False by auto
    qed
  qed
  then obtain t' where t': "validate_structure t = Some t'" "date_valid t'" "tm_day t' = tm_day u" "same_time u t'" by blast
  have yy: "tm_year t + 1900 + tm_mon t div 12 = y + 1900" by (simp add: y_def)
  have "tm_day t = days_before_year (y + 1900) + month_start (isleap (y + 1900)) (tm_mon t mod 12) + tm_mday t - 1"
    unfolding tm_day_def yy Let_def ..
  then have day: "tm_day u = tm_day t + h div 24" by (simp add: tm_day_valid u_def d_def)
  have v: "tm_valid t'" using t' by (simp add: tm_valid_def same_time_def u_def)
  define a b c a' b' c' where "a = tm_sec t div 60" and "b = mi div 60" and "c = h div 24"
    and "a' = tm_sec t mod 60" and "b' = mi mod 60" and "c' = h mod 24"
  have "tm_sec t = 60 * a + a'" "mi = 60 * b + b'" "h = 24 * c + c'" "mi = tm_min t + a" "h = tm_hour t + b"
    by (simp_all add: a_def b_def c_def a'_def b'_def c'_def mi_def h_def)
  moreover have "tm_epoch t' = (((tm_day t + c) * 24 + c') * 60 + b') * 60 + a'"
    using t'(3,4) day by (simp add: tm_epoch_def same_time_def u_def a'_def b'_def c_def c'_def)
  ultimately have "tm_epoch t' = tm_epoch t" unfolding tm_epoch_def by (simp add: distrib_right)
  then show ?thesis using t'(1) v by blast
qed

lemma validate_structure_valid:
  assumes "tm_valid t"
  shows "validate_structure t = Some t"
proof -
  have d: "0 \<le> tm_mon t" "tm_mon t < 12" "1 \<le> tm_mday t" "tm_mday t \<le> month_length (isleap (tm_year t + 1900)) (tm_mon t)"
    using assms by (auto simp: tm_valid_def date_valid_def)
  have "mday_down (days_in_feb (tm_year t)) t = Some t"
    using days_in_month_length[OF d(1,2)] d by (subst mday_down.simps) simp
  then show ?thesis using assms d by (simp add: validate_structure_def carry_def tm_valid_def)
qed

lemma days_before_year_bounds:
  assumes "- 8200 \<le> y" "y \<le> 12000"
  shows "\<bar>days_before_year y\<bar> \<le> 2 ^ 30"
proof -
  define a b c where "a = (y - 1) div 4" and "b = (y - 1) div 100" and "c = (y - 1) div 400"
  have "\<bar>a\<bar> \<le> 20000" "\<bar>b\<bar> \<le> 20000" "\<bar>c\<bar> \<le> 20000"
    using div_bound[of "y - 1" 20000 4] div_bound[of "y - 1" 20000 100] div_bound[of "y - 1" 20000 400] assms
    by (auto simp: a_def b_def c_def)
  then show ?thesis using assms unfolding days_before_year_def a_def[symmetric] b_def[symmetric] c_def[symmetric] by (simp add: abs_le_iff)
qed

lemma month_start_bounds: "0 \<le> mon \<Longrightarrow> mon < 12 \<Longrightarrow> 0 \<le> month_start leap mon \<and> month_start leap mon \<le> 335"
  by (drule (1) month_cases) (elim insertE emptyE; simp add: month_start_def month_lengths_def)

lemma tm_epoch_bounds:
  assumes "tm_valid t" "- 10000 \<le> tm_year t" "tm_year t \<le> 10000"
  shows "\<bar>tm_epoch t\<bar> \<le> 2 ^ 60"
proof -
  have m: "0 \<le> tm_mon t" "tm_mon t < 12" "1 \<le> tm_mday t" "tm_mday t \<le> 31"
    using assms(1) month_length_range[of "tm_mon t" "isleap (tm_year t + 1900)"] by (auto simp: tm_valid_def date_valid_def)
  have "\<bar>days_before_year (tm_year t + 1900)\<bar> \<le> 2 ^ 30" using assms(2,3) by (intro days_before_year_bounds) auto
  then have "\<bar>tm_day t\<bar> \<le> 2 ^ 31"
    using m(3,4) month_start_bounds[OF m(1,2), of "isleap (tm_year t + 1900)"]
    unfolding tm_day_valid[OF m(1,2)] by (simp add: abs_le_iff)
  then show ?thesis using assms(1) unfolding tm_epoch_def tm_valid_def abs_le_iff by (auto simp: algebra_simps)
qed

lemma mktime_plain:
  assumes v: "validate_structure t = Some u" "tm_valid u" and off: "\<bar>tz_offset (tzrule0 tz)\<bar> \<le> 2 ^ 31"
    and y: "- 10000 \<le> tm_year u" "tm_year u \<le> 10000"
  defines "u' \<equiv> u\<lparr>tm_yday := month_start (isleap (tm_year u + 1900)) (tm_mon u) + tm_mday u - 1, tm_isdst := 0, tm_wday := (tm_day u + 4) mod 7\<rparr>"
  shows "mktime False tz t = Some (tm_epoch u + tz_offset (tzrule0 tz), u', tz)"
proof -
  have m: "0 \<le> tm_mon u" "tm_mon u < 12" using v(2) by (auto simp: tm_valid_def date_valid_def)
  obtain b where b: "elem_at DAYS_BEFORE_MONTH (tm_mon u) = Some b"
    "b + (if tm_mon u > 1 \<and> DAYS_IN_YEAR (tm_year u) = 366 then 1 else 0) = month_start (isleap (tm_year u + 1900)) (tm_mon u)"
    using days_before_month[OF m] by blast
  define x where "x = tm_mday u - 1 + b + (if tm_mon u > 1 \<and> DAYS_IN_YEAR (tm_year u) = 366 then 1 else 0)"
  have yd: "x = month_start (isleap (tm_year u + 1900)) (tm_mon u) + tm_mday u - 1" using b(2) by (simp add: x_def)
  have day: "year_days (tm_year u) x = tm_day u" by (simp add: year_days_before yd tm_day_valid[OF m])
  have e: "tm_sec u + tm_min u * SEC_IN_MINUTE + tm_hour u * SEC_IN_HOUR + tm_day u * SEC_IN_DAY = tm_epoch u"
    by (simp add: tm_epoch_def SEC_IN_MINUTE_def SEC_IN_HOUR_def SEC_IN_DAY_def)
  have w: "(if (tm_day u + 4) smod 7 < 0 then (tm_day u + 4) smod 7 + 7 else (tm_day u + 4) smod 7) = (tm_day u + 4) mod 7"
    using floor_of_trunc(2)[of 7 "tm_day u + 4"] by simp
  have r: "int64 (tm_epoch u + tz_offset (tzrule0 tz)) = Some (tm_epoch u + tz_offset (tzrule0 tz))"
    using tm_epoch_bounds[OF v(2) y] off by (simp add: signed_result_def abs_le_iff)
  show ?thesis
    unfolding mktime_def v(1) using b(1) y
    by (simp add: x_def[symmetric] day e w r u'_def yd[symmetric])
qed

section \<open>localtime_r\<close>

lemma next_wday: "w = (d + 4) mod 7 \<Longrightarrow> (if w + 1 > 6 then 0 else w + 1) = (d + 1 + 4) mod 7" for w d :: int
proof -
  assume w: "w = (d + 4) mod 7"
  have "(d + 1 + 4) mod 7 = (w + 1) mod 7" unfolding w mod_add_left_eq by (simp add: add.commute add.left_commute)
  moreover have "0 \<le> w" "w < 7" by (simp_all add: w)
  ultimately show ?thesis by (cases "w = 6") auto
qed

lemma previous_wday: "w = (d + 4) mod 7 \<Longrightarrow> (if w - 1 < 0 then 6 else w - 1) = (d - 1 + 4) mod 7" for w d :: int
proof -
  assume w: "w = (d + 4) mod 7"
  have "(d - 1 + 4) mod 7 = (w - 1) mod 7" unfolding w mod_diff_left_eq by (simp add: algebra_simps)
  moreover have "0 \<le> w" "w < 7" by (simp_all add: w)
  ultimately show ?thesis by (cases "w = 0") auto
qed

text \<open>A day forward and a day back on a valid date with the right day of the year and of the week.\<close>

lemma local_day_forward_ok:
  assumes v: "date_valid t" "tm_dated t"
  shows "\<exists>t'. local_day_forward (month_lengths (isleap (tm_year t + 1900))) t = Some t' \<and> date_valid t' \<and> tm_dated t' \<and>
    tm_day t' = tm_day t + 1 \<and> tm_hour t' = tm_hour t - 24 \<and> tm_min t' = tm_min t \<and> tm_sec t' = tm_sec t \<and> tm_isdst t' = tm_isdst t"
proof -
  define y mon L l where "y = tm_year t + 1900" and "mon = tm_mon t" and "L = isleap y" and "l = month_length L mon"
  have d: "0 \<le> mon" "mon < 12" "1 \<le> tm_mday t" "tm_mday t \<le> l" using v by (auto simp: date_valid_def y_def mon_def L_def l_def)
  have el: "elem_at (month_lengths L) mon = Some l" using elem_month_lengths d by (simp add: l_def)
  have l: "28 \<le> l" using month_length_range[of mon L] d by (simp add: l_def)
  define w where "w = (if tm_wday t + 1 > 6 then 0 else tm_wday t + 1)"
  have w: "w = (tm_day t + 1 + 4) mod 7" using next_wday v(2) by (simp add: w_def tm_dated_def)
  have day: "tm_day t = days_before_year y + month_start L mon + tm_mday t - 1" using tm_day_valid[of t] d by (simp add: y_def mon_def L_def)
  have yd: "tm_yday t = month_start L mon + tm_mday t - 1" using v(2) by (simp add: tm_dated_def y_def mon_def L_def)
  define u where "u = t\<lparr>tm_yday := tm_yday t + 1, tm_wday := w, tm_mday := tm_mday t + 1, tm_hour := tm_hour t - 24\<rparr>"
  consider "tm_mday t < l" | "tm_mday t = l" "mon < 11" | "tm_mday t = l" "mon = 11" using d by linarith
  then show ?thesis
  proof cases
    case 1
    let ?t = u
    have "local_day_forward (month_lengths L) t = Some ?t"
      using 1 el by (simp add: local_day_forward_def Let_def u_def w_def mon_def time_nums)
    moreover have "tm_day ?t = tm_day t + 1" using day d tm_day_valid[of ?t] by (simp add: u_def y_def mon_def L_def)
    ultimately show ?thesis using 1 d w yd
      by (intro exI[of _ ?t]) (auto simp: u_def date_valid_def tm_dated_def y_def mon_def L_def l_def)
  next
    case 2
    let ?t = "u\<lparr>tm_mday := 1, tm_mon := mon + 1\<rparr>"
    have "local_day_forward (month_lengths L) t = Some ?t"
      using 2 el by (simp add: local_day_forward_def Let_def u_def w_def mon_def time_nums)
    moreover have ms: "month_start L (mon + 1) = month_start L mon + l" using month_start_Suc d by (simp add: l_def)
    moreover have "tm_day ?t = tm_day t + 1" using 2 day d ms tm_day_valid[of ?t] by (simp add: u_def y_def mon_def L_def)
    moreover have "28 \<le> month_length L (mon + 1)" using month_length_range[of "mon + 1" L] 2 d by simp
    ultimately show ?thesis using 2 d w yd
      by (intro exI[of _ ?t]) (auto simp: u_def date_valid_def tm_dated_def y_def mon_def L_def l_def)
  next
    case 3
    let ?t = "u\<lparr>tm_mday := 1, tm_mon := 0, tm_year := tm_year t + 1, tm_yday := 0\<rparr>"
    have "local_day_forward (month_lengths L) t = Some ?t"
      using 3 el by (simp add: local_day_forward_def Let_def u_def w_def mon_def time_nums)
    moreover have ms: "month_start L 12 = month_start L mon + l" using month_start_Suc[of 11 L] 3 by (simp add: l_def)
    moreover have y1: "tm_year t + 1 + 1900 = y + 1" by (simp add: y_def)
    moreover have "tm_day ?t = tm_day t + 1"
      using 3 day ms days_before_year_Suc[of y] tm_day_valid[of ?t] y1 by (simp add: u_def L_def month_start_12)
    moreover have "28 \<le> month_length (isleap (y + 1)) 0" using month_length_range[of 0 "isleap (y + 1)"] by simp
    ultimately show ?thesis using w y1
      by (intro exI[of _ ?t]) (auto simp: u_def date_valid_def tm_dated_def y_def mon_def L_def)
  qed
qed

lemma local_day_back_ok:
  assumes v: "date_valid t" "tm_dated t"
  shows "\<exists>t'. local_day_back (month_lengths (isleap (tm_year t + 1900))) t = Some t' \<and> date_valid t' \<and> tm_dated t' \<and>
    tm_day t' = tm_day t - 1 \<and> tm_hour t' = tm_hour t + 24 \<and> tm_min t' = tm_min t \<and> tm_sec t' = tm_sec t \<and> tm_isdst t' = tm_isdst t"
proof -
  define y mon L where "y = tm_year t + 1900" and "mon = tm_mon t" and "L = isleap y"
  have d: "0 \<le> mon" "mon < 12" "1 \<le> tm_mday t" "tm_mday t \<le> month_length L mon" using v by (auto simp: date_valid_def y_def mon_def L_def)
  define w where "w = (if tm_wday t - 1 < 0 then 6 else tm_wday t - 1)"
  have w: "w = (tm_day t - 1 + 4) mod 7" using previous_wday v(2) by (simp add: w_def tm_dated_def)
  have day: "tm_day t = days_before_year y + month_start L mon + tm_mday t - 1" using tm_day_valid[of t] d by (simp add: y_def mon_def L_def)
  have yd: "tm_yday t = month_start L mon + tm_mday t - 1" using v(2) by (simp add: tm_dated_def y_def mon_def L_def)
  define u where "u = t\<lparr>tm_yday := tm_yday t - 1, tm_wday := w, tm_mday := tm_mday t - 1, tm_hour := tm_hour t + 24\<rparr>"
  consider "1 < tm_mday t" | "tm_mday t = 1" "0 < mon" | "tm_mday t = 1" "mon = 0" using d by linarith
  then show ?thesis
  proof cases
    case 1
    let ?t = u
    have "local_day_back (month_lengths L) t = Some ?t" using 1 by (simp add: local_day_back_def Let_def u_def w_def)
    moreover have "tm_day ?t = tm_day t - 1" using day d tm_day_valid[of ?t] by (simp add: u_def y_def mon_def L_def)
    ultimately show ?thesis using 1 d w yd
      by (intro exI[of _ ?t]) (auto simp: u_def date_valid_def tm_dated_def y_def mon_def L_def)
  next
    case 2
    define l where "l = month_length L (mon - 1)"
    let ?t = "u\<lparr>tm_mday := l, tm_mon := mon - 1\<rparr>"
    have el: "elem_at (month_lengths L) (mon - 1) = Some l" using elem_month_lengths[of "mon - 1" L] d 2 by (simp add: l_def)
    then have "local_day_back (month_lengths L) t = Some ?t"
      using 2 by (simp add: local_day_back_def Let_def u_def w_def mon_def)
    moreover have ms: "month_start L mon = month_start L (mon - 1) + l" using month_start_Suc[of "mon - 1" L] d 2 by (simp add: l_def)
    moreover have "tm_day ?t = tm_day t - 1" using 2 day d ms tm_day_valid[of ?t] by (simp add: u_def y_def mon_def L_def)
    moreover have "28 \<le> l" using month_length_range[of "mon - 1" L] 2 d by (simp add: l_def)
    ultimately show ?thesis using 2 d w yd
      by (intro exI[of _ ?t]) (auto simp: u_def date_valid_def tm_dated_def y_def mon_def L_def l_def)
  next
    case 3
    define P where "P = isleap (tm_year t - 1 + 1900)"
    let ?t = "u\<lparr>tm_mday := 31, tm_mon := 11, tm_year := tm_year t - 1, tm_yday := 364 + (if P then 1 else 0)\<rparr>"
    have y1: "tm_year t - 1 + 1900 = y - 1" by (simp add: y_def)
    have "elem_at (month_lengths L) 11 = Some 31" by (simp add: elem_at_def month_lengths_def)
    then have "local_day_back (month_lengths L) t = Some ?t"
      using 3 by (simp add: local_day_back_def Let_def u_def w_def mon_def time_nums P_def)
    moreover have P: "P \<longleftrightarrow> isleap (y - 1)" unfolding P_def y1 ..
    moreover have ms: "month_start P 11 = 334 + (if P then 1 else 0)" "month_length P 11 = 31"
      by (simp_all add: month_start_def month_length_def month_lengths_def)
    moreover have "tm_day ?t = tm_day t - 1"
      using 3 day ms days_before_year_Suc[of "y - 1"] tm_day_valid[of ?t] y1 P by (simp add: u_def)
    ultimately show ?thesis using w y1
      by (intro exI[of _ ?t]) (auto simp: u_def date_valid_def tm_dated_def y_def mon_def L_def)
  qed
qed

lemma sdiv_less: "\<bar>x\<bar> < k * b \<Longrightarrow> 0 < k \<Longrightarrow> \<bar>x sdiv k\<bar> < b" for x k b :: int
proof -
  assume a: "\<bar>x\<bar> < k * b" "0 < k"
  have "(\<bar>x\<bar> div k) * k \<le> \<bar>x\<bar>" using a(2) by (simp add: minus_mod_eq_div_mult[symmetric])
  then have "(\<bar>x\<bar> div k) * k < b * k" using a(1) by (simp add: mult.commute)
  then have "\<bar>x\<bar> div k < b" using a(2) by simp
  moreover have "0 \<le> \<bar>x\<bar> div k" using a(2) by (simp add: pos_imp_zdiv_nonneg_iff)
  ultimately show ?thesis using a(2) by (auto simp: signed_divide_int_def sgn_if)
qed

lemma local_shift_ok:
  assumes v: "tm_valid t" "tm_dated t" and off: "\<bar>offset\<bar> < 86400"
  shows "\<exists>t'. local_shift (month_lengths (isleap (tm_year t + 1900))) offset t = Some t' \<and> tm_valid t' \<and> tm_dated t' \<and>
    tm_epoch t' = tm_epoch t - offset \<and> tm_isdst t' = tm_isdst t"
proof -
  define hh r where "hh = offset sdiv 3600" and "r = offset smod 3600"
  define mm ss where "mm = r sdiv 60" and "ss = r smod 60"
  have o: "offset = hh * 3600 + mm * 60 + ss"
    using sdiv_smod[of offset 3600] sdiv_smod[of r 60] by (simp add: hh_def r_def mm_def ss_def)
  have r: "\<bar>r\<bar> < 3600" using smod_bound[of 3600 offset] by (simp add: r_def)
  have ss: "\<bar>ss\<bar> < 60" using smod_bound[of 60 r] by (simp add: ss_def)
  have mm: "\<bar>mm\<bar> < 60" using sdiv_less[of r 60 60] r by (simp add: mm_def)
  have hh: "\<bar>hh\<bar> < 24" using sdiv_less[of offset 3600 24] off by (simp add: hh_def)
  have s: "sint (word_of_int hh :: 32 word) = hh" using hh by (intro sint_word_of_int_in) auto
  define c1 where "c1 = (if tm_sec t - ss \<ge> 60 then 1 else if tm_sec t - ss < 0 then - 1 else 0 :: int)"
  define c2 where "c2 = (if tm_min t - mm + c1 \<ge> 60 then 1 else if tm_min t - mm + c1 < 0 then - 1 else 0 :: int)"
  define u where "u = t\<lparr>tm_sec := tm_sec t - ss - 60 * c1, tm_min := tm_min t - mm + c1 - 60 * c2, tm_hour := tm_hour t - hh + c2\<rparr>"
  have i: "int32 (tm_hour t - hh) = Some (tm_hour t - hh)" using v(1) hh by (auto simp: tm_valid_def signed_result_def)
  let ?r1 = "t\<lparr>tm_sec := tm_sec t - ss, tm_min := tm_min t - mm, tm_hour := tm_hour t - hh\<rparr>"
  let ?r2 = "if tm_sec ?r1 \<ge> 60 then ?r1\<lparr>tm_min := tm_min ?r1 + 1, tm_sec := tm_sec ?r1 - 60\<rparr>
    else if tm_sec ?r1 < 0 then ?r1\<lparr>tm_min := tm_min ?r1 - 1, tm_sec := tm_sec ?r1 + 60\<rparr> else ?r1"
  have r2: "?r2 = t\<lparr>tm_sec := tm_sec t - ss - 60 * c1, tm_min := tm_min t - mm + c1, tm_hour := tm_hour t - hh\<rparr>"
    by (rule tm.equality) (simp_all add: c1_def)
  define r2 where "r2 = t\<lparr>tm_sec := tm_sec t - ss - 60 * c1, tm_min := tm_min t - mm + c1, tm_hour := tm_hour t - hh\<rparr>"
  have r3: "(if tm_min r2 \<ge> 60 then r2\<lparr>tm_hour := tm_hour r2 + 1, tm_min := tm_min r2 - 60\<rparr>
    else if tm_min r2 < 0 then r2\<lparr>tm_hour := tm_hour r2 - 1, tm_min := tm_min r2 + 60\<rparr> else r2) = u"
    by (rule tm.equality) (simp_all add: c2_def r2_def u_def)
  have sh: "local_shift ip offset t = (if tm_hour u \<ge> 24 then local_day_forward ip u else if tm_hour u < 0 then local_day_back ip u else Some u)" for ip
    unfolding local_shift_def time_nums Let_def hh_def[symmetric] r_def[symmetric] mm_def[symmetric] ss_def[symmetric] s i bind.simps
      r2 r2_def[symmetric] r3 ..
  have fields: "0 \<le> tm_sec u" "tm_sec u < 60" "0 \<le> tm_min u" "tm_min u < 60" "- 24 \<le> tm_hour u" "tm_hour u < 48"
    using v(1) ss mm hh by (auto simp: u_def c1_def c2_def tm_valid_def)
  have e: "tm_epoch u = tm_epoch t - offset"
  proof -
    have "tm_day u = tm_day t" by (simp add: tm_day_def u_def)
    moreover have "tm_hour u = tm_hour t - hh + c2" "tm_min u = tm_min t - mm + c1 - 60 * c2" "tm_sec u = tm_sec t - ss - 60 * c1"
      by (simp_all add: u_def)
    ultimately show ?thesis using o unfolding tm_epoch_def by simp
  qed
  have dt: "date_valid u" "tm_dated u" "tm_isdst u = tm_isdst t" "tm_year u = tm_year t"
    using v by (simp_all add: tm_valid_def u_def date_valid_def tm_dated_def tm_day_def)
  consider "tm_hour u \<ge> 24" | "tm_hour u < 0" | "0 \<le> tm_hour u" "tm_hour u < 24" by linarith
  then show ?thesis
  proof cases
    case 1
    then show ?thesis using local_day_forward_ok[OF dt(1,2)] fields e dt sh by (auto simp: tm_valid_def tm_epoch_def)
  next
    case 2
    then show ?thesis using local_day_back_ok[OF dt(1,2)] fields e dt sh by (auto simp: tm_valid_def tm_epoch_def)
  next
    case 3
    then show ?thesis using fields e dt sh by (simp add: tm_valid_def)
  qed
qed

lemma localtime_r_plain:
  assumes l: "localtime_r False tz t = Some (tm, tz')" and off: "\<bar>tz_offset (tzrule0 tz)\<bar> < 86400"
  shows "tm_valid tm \<and> tm_dated tm \<and> tm_epoch tm = t - tz_offset (tzrule0 tz) \<and> tm_isdst tm = 0 \<and> tz' = tz"
proof -
  obtain g where g1: "gmtime_r t = Some g" using l by (cases "gmtime_r t") (simp_all add: localtime_r_def)
  have "int32 (tm_year g + 1900) \<bind> (\<lambda>year. local_shift (month_lengths (isleap year)) (tz_offset (tzrule0 tz)) (g\<lparr>tm_isdst := 0\<rparr>) \<bind>
      (\<lambda>res. Some (res, tz))) = Some (tm, tz')"
    using l unfolding localtime_r_def g1 time_nums Let_def by simp
  then have "local_shift (month_lengths (isleap (tm_year g + 1900))) (tz_offset (tzrule0 tz)) (g\<lparr>tm_isdst := 0\<rparr>) \<bind>
      (\<lambda>res. Some (res, tz)) = Some (tm, tz')" by (simp only: signed_result_def bind.simps option.distinct split: if_splits)
  then have g: "gmtime_r t = Some g" "local_shift (month_lengths (isleap (tm_year g + 1900))) (tz_offset (tzrule0 tz)) (g\<lparr>tm_isdst := 0\<rparr>) = Some tm" "tz' = tz"
    using g1 by (cases "local_shift (month_lengths (isleap (tm_year g + 1900))) (tz_offset (tzrule0 tz)) (g\<lparr>tm_isdst := 0\<rparr>)"; simp)+
  have v: "tm_valid g" "tm_dated g" "tm_epoch g = t" "tm_isdst g = 0" using gmtime_r_calendar[OF g(1)] by auto
  then have eq: "g\<lparr>tm_isdst := 0\<rparr> = g" by (cases g) simp
  show ?thesis using local_shift_ok[OF v(1,2) off] g(2,3) v(3,4) unfolding eq by auto
qed

text \<open>
  C39: gmtime_r returns for every time of a thousand million years around the epoch, and the fields it fills are the
  date, the day of the week, the day of the year and the time of day of that second in the Gregorian calendar.
\<close>

theorem gmtime_calendar:
  assumes "\<bar>t\<bar> \<le> 2 ^ 55"
  shows "\<exists>tm. gmtime_r t = Some tm \<and> tm_valid tm \<and> tm_dated tm \<and> tm_epoch tm = t"
  using gmtime_r_defined[OF assms] gmtime_r_calendar by blast

theorem gmtime_calendar_witness:
  "\<exists>tm. gmtime_r (- 1) = Some tm \<and> tm_valid tm \<and> tm_dated tm \<and> tm_epoch tm = - 1"
  using gmtime_calendar[of "- 1"] by simp





section \<open>The change-over times\<close>

lemma sum_months_start:
  "0 \<le> j \<Longrightarrow> nat j + k \<le> 12 \<Longrightarrow> 0 \<le> days \<Longrightarrow> days \<le> 2 ^ 30 \<Longrightarrow>
   sum_months (month_lengths L) (days + month_start L j) (j + 1) k = Some (days + month_start L (j + int k))"
proof (induction k arbitrary: j)
  case (Suc k)
  have j: "0 \<le> j" "j < 12" using Suc.prems by auto
  have s: "month_start L (j + 1) = month_start L j + month_length L j" using month_start_Suc[OF j] .
  have "0 \<le> month_start L j" "month_start L j \<le> 335" "28 \<le> month_length L j" "month_length L j \<le> 31"
    using month_start_bounds[OF j, of L] month_length_range[OF j, of L] by auto
  then have "int32 (days + month_start L j + month_length L j) = Some (days + month_start L (j + 1))"
    using Suc.prems s by (simp add: signed_result_def)
  moreover have "sum_months (month_lengths L) (days + month_start L (j + 1)) (j + 1 + 1) k = Some (days + month_start L (j + 1 + int k))"
    using Suc.prems by (intro Suc.IH) auto
  ultimately show ?case using elem_month_lengths[OF j, of L] by (simp add: add.commute add.left_commute)
qed simp

lemma last_week_spec: "last_week len k mod 7 = k mod 7 \<and> last_week len k < len \<and>
  (k < len \<longrightarrow> last_week len k = k) \<and> (len \<le> k \<longrightarrow> len - 7 \<le> last_week len k)"
proof (induction len k rule: last_week.induct)
  case (1 len k)
  show ?case
  proof (cases "len \<le> k")
    case True
    then have r: "last_week len k = last_week len (k - 7)" by (subst last_week.simps) (simp add: DAYSPERWEEK_def)
    have m: "(k - 7) mod 7 = k mod 7" using mod_add_self2[of "k - 7" 7] by simp
    from 1[OF True] show ?thesis unfolding r using True m by (cases "len \<le> k - 7") (auto simp: DAYSPERWEEK_def)
  qed (subst (1 2 3 4) last_week.simps, simp)
qed

text \<open>
  A rule of the form month, week, day names a day of that month with that day of the week: the one of the given week, or the last
  one when the month has no fifth.
\<close>

lemma rule_days_month:
  fixes year :: int
  assumes r: "tz_ch r \<noteq> 74" "tz_ch r \<noteq> 68" "1 \<le> tz_m r" "tz_m r \<le> 12" "1 \<le> tz_n r" "tz_n r \<le> 5" "0 \<le> tz_d r" "tz_d r \<le> 6"
    and days: "0 \<le> days" "days \<le> 2 ^ 29"
  defines "start \<equiv> days + month_start (isleap year) (tz_m r - 1)" and "len \<equiv> month_length (isleap year) (tz_m r - 1)"
  shows "\<exists>k. rule_days year days r = Some (start + k) \<and> 0 \<le> k \<and> k < len \<and> (start + k + 4) mod 7 = tz_d r \<and>
    k < 7 * tz_n r \<and> (7 * (tz_n r - 1) \<le> k \<or> len - 7 \<le> k)"
proof -
  define L where "L = isleap year"
  have m: "0 \<le> tz_m r - 1" "tz_m r - 1 < 12" using r by auto
  have sm: "sum_months (month_lengths L) days 1 (nat (tz_m r - 1)) = Some start"
    using sum_months_start[of 0 "nat (tz_m r - 1)" days L] m days by (simp add: start_def L_def)
  have st: "0 \<le> start" "start \<le> 2 ^ 30" using month_start_bounds[OF m, of L] days by (auto simp: start_def L_def)
  have ln: "28 \<le> len" "len \<le> 31" using month_length_range[OF m, of L] by (auto simp: len_def L_def)
  define w where "w = (4 + start) mod 7"
  define x where "x = (if tz_d r - w < 0 then tz_d r - w + 7 else tz_d r - w)"
  have w: "(4 + start) smod 7 = w" "0 \<le> w" "w < 7" using sdiv_pos[of "4 + start" 7] st by (auto simp: w_def)
  have x: "0 \<le> x" "x < 7" using w r by (auto simp: x_def)
  define k where "k = last_week len ((tz_n r - 1) * 7 + x)"
  note lw = last_week_spec[of len "(tz_n r - 1) * 7 + x", folded k_def]
  have k: "0 \<le> k" "k < len" "k < 7 * tz_n r" "7 * (tz_n r - 1) \<le> k \<or> len - 7 \<le> k"
    using lw ln x r by (cases "(tz_n r - 1) * 7 + x < len"; auto)+
  have "(start + k + 4) mod 7 = (w + x) mod 7"
  proof -
    have "(start + k + 4) mod 7 = ((4 + start) mod 7 + k mod 7) mod 7" by (simp add: mod_add_eq ac_simps)
    also have "k mod 7 = x mod 7" using lw mod_mult_self3[of "tz_n r - 1" 7 x] by simp
    finally show ?thesis unfolding w_def[symmetric] mod_add_right_eq .
  qed
  also have "\<dots> = tz_d r" using w x r by (auto simp: x_def)
  finally have wd: "(start + k + 4) mod 7 = tz_d r" .
  have i: "int32 (4 + start) = Some (4 + start)" "int32 (tz_d r - w) = Some (tz_d r - w)" "int32 (tz_n r - 1) = Some (tz_n r - 1)"
    "int32 ((tz_n r - 1) * 7) = Some ((tz_n r - 1) * 7)" "int32 ((tz_n r - 1) * 7 + x) = Some ((tz_n r - 1) * 7 + x)"
    "int32 (start + k) = Some (start + k)"
    using st w x r k ln by (simp_all add: signed_result_def)
  have "elem_at (month_lengths L) (max 1 (tz_m r) - 1) = Some len"
    using elem_month_lengths[OF m, of L] r by (simp add: len_def L_def max_def)
  then have "rule_days year days r = Some (start + k)"
    unfolding rule_days_def time_consts Let_def L_def[symmetric] sm bind.simps i w(1) x_def[symmetric] using r(1,2)
    by (simp only: bind.simps k_def[symmetric] i(6) if_False)
  then show ?thesis using k wd by blast
qed

lemma tzcalc_limits_year:
  assumes "1970 \<le> year" "year \<le> 12000"
  shows "tzcalc_limits tz year = do {
     r0 \<leftarrow> rule_change year (days_before_year year) (tzrule0 tz);
     r1 \<leftarrow> rule_change year (days_before_year year) (tzrule1 tz);
     Some (\<lparr>tznorth = tz_change r0 < tz_change r1, tzyear = year, tzrule0 = r0, tzrule1 = r1\<rparr>, True) }"
proof -
  define a b c where "a = (year - 1969) div 4" and "b = (year - 1901) div 100" and "c = (year - 1601) div 400"
  have "(year - 1969 + 492 * 4) div 4 = a + 492" "(year - 1901 + 19 * 100) div 100 = b + 19" "(year - 1601 + 4 * 400) div 400 = c + 4"
    unfolding a_def b_def c_def by (simp_all only: div_mult_self1 numeral_neq_zero not_False_eq_True add.commute)
  then have d: "days_before_year year = (year - 1970) * 365 + a - b + c" by (simp add: days_before_year_def)
  have s: "(year - 1970 - 1 + 2) sdiv 4 = a" "(year - 1970 - 1 + 70) sdiv 100 = b" "(year - 1970 - 1 + 370) sdiv 400 = c"
    using sdiv_pos[of "year - 1969" 4] sdiv_pos[of "year - 1901" 100] sdiv_pos[of "year - 1601" 400] assms
    by (simp_all add: a_def b_def c_def)
  have r: "0 \<le> a" "a \<le> 12000" "0 \<le> b" "b \<le> 12000" "0 \<le> c" "c \<le> 12000"
    using div_bound[of "year - 1969" 12000 4] div_bound[of "year - 1901" 12000 100] div_bound[of "year - 1601" 12000 400] assms
    by (auto simp: a_def b_def c_def pos_imp_zdiv_nonneg_iff)
  have i: "int32 ((year - 1970) * 365) = Some ((year - 1970) * 365)" "int32 ((year - 1970) * 365 + a) = Some ((year - 1970) * 365 + a)"
    "int32 ((year - 1970) * 365 + a - b) = Some ((year - 1970) * 365 + a - b)" "int32 ((year - 1970) * 365 + a - b + c) = Some ((year - 1970) * 365 + a - b + c)"
    using r assms by (simp_all add: signed_result_def)
  show ?thesis
    unfolding tzcalc_limits_def time_consts Let_def s bind.simps i d using assms by (simp add: i)
qed

end
