(* ===== verification/FrameAlloc.thy ===== *)
theory FrameAlloc
  imports Prelude
begin

text \<open>
  The physical frame allocator of the kernel, \<open>src/memory/src/frame_allocator.rs\<close>, and the
  address newtypes of \<open>src/memory/src/addr.rs\<close>. The statics \<open>FRAME_BITMAP\<close>,
  \<open>TOTAL_FRAMES\<close> and \<open>BITMAP_SIZE\<close> are the fields of a record; the bitmap is the list of its
  64-bit words, in which a set bit is a free frame. The memory map comes from the boot loader and is an argument.
  Sizes of the memory map are natural numbers: the map lies below \<open>2^64\<close>.
\<close>

section \<open>Definitions\<close>

type_synonym phys_addr = "64 word"

definition PAGE_SIZE :: nat where "PAGE_SIZE = 4096"

definition HHDM_BASE :: nat where "HHDM_BASE = 0xFFFF800000000000"

text \<open>An entry of the boot loader's memory map; \<open>e_usable\<close> is \<open>entry_type == EntryType::USABLE\<close>.\<close>

record memmap_entry =
  e_base :: nat
  e_length :: nat
  e_usable :: bool

record frame_allocator =
  FRAME_BITMAP :: "64 word list"
  BITMAP_ADDR :: nat
  TOTAL_FRAMES :: nat
  BITMAP_SIZE :: nat

definition mark_free :: "nat \<Rightarrow> frame_allocator \<Rightarrow> frame_allocator" where
  "mark_free frame s =
     (if frame \<ge> TOTAL_FRAMES s then s
      else let i = frame div 64; b = frame mod 64 in
        s\<lparr>FRAME_BITMAP := (FRAME_BITMAP s)[i := FRAME_BITMAP s ! i OR push_bit b 1]\<rparr>)"

definition mark_used :: "nat \<Rightarrow> frame_allocator \<Rightarrow> frame_allocator" where
  "mark_used frame s =
     (if frame \<ge> TOTAL_FRAMES s then s
      else let i = frame div 64; b = frame mod 64 in
        s\<lparr>FRAME_BITMAP := (FRAME_BITMAP s)[i := FRAME_BITMAP s ! i AND NOT (push_bit b 1)]\<rparr>)"

definition trailing_zeros :: "64 word \<Rightarrow> nat" where
  "trailing_zeros w = length (takeWhile (\<lambda>b. \<not> bit w b) [0..<64])"

function frame_alloc_loop :: "frame_allocator \<Rightarrow> nat \<Rightarrow> frame_allocator \<times> phys_addr option" where
  "frame_alloc_loop s i =
     (if i \<ge> BITMAP_SIZE s then (s, None)
      else let bitmap = FRAME_BITMAP s ! i in
        if bitmap \<noteq> 0 \<and> i * 64 + trailing_zeros bitmap < TOTAL_FRAMES s
        then let frame = i * 64 + trailing_zeros bitmap in
          (mark_used frame s, Some (of_nat (frame * PAGE_SIZE)))
        else frame_alloc_loop s (i + 1))"
  by pat_completeness auto

termination by (relation "measure (\<lambda>(s, i). BITMAP_SIZE s - i)") auto

definition frame_alloc :: "frame_allocator \<Rightarrow> frame_allocator \<times> phys_addr option" where
  "frame_alloc s = frame_alloc_loop s 0"

definition alloc_frame :: "frame_allocator \<Rightarrow> frame_allocator \<times> phys_addr option" where
  "alloc_frame s = frame_alloc s"

definition frame_free :: "phys_addr \<Rightarrow> frame_allocator \<Rightarrow> frame_allocator" where
  "frame_free addr s = mark_free (unat (addr div of_nat PAGE_SIZE)) s"

definition free_frame :: "phys_addr \<Rightarrow> frame_allocator \<Rightarrow> frame_allocator" where
  "free_frame addr s = frame_free addr s"

subsection \<open>Initialisation\<close>

definition max_addr :: "memmap_entry list \<Rightarrow> nat" where
  "max_addr mm = fold (\<lambda>e m. let fin = e_base e + e_length e in if fin > m then fin else m) mm 0"

definition total_frames :: "memmap_entry list \<Rightarrow> nat" where
  "total_frames mm = (max_addr mm + PAGE_SIZE - 1) div PAGE_SIZE"

definition bitmap_size :: "memmap_entry list \<Rightarrow> nat" where
  "bitmap_size mm = (total_frames mm + 63) div 64"

definition mark_free_range :: "nat \<Rightarrow> nat \<Rightarrow> frame_allocator \<Rightarrow> frame_allocator" where
  "mark_free_range start n s = fold (\<lambda>i. mark_free (start + i)) [0..<n] s"

definition mark_used_range :: "nat \<Rightarrow> nat \<Rightarrow> frame_allocator \<Rightarrow> frame_allocator" where
  "mark_used_range start n s = fold (\<lambda>i. mark_used (start + i)) [0..<n] s"

definition mark_usable :: "memmap_entry list \<Rightarrow> frame_allocator \<Rightarrow> frame_allocator" where
  "mark_usable mm s = fold (\<lambda>e s.
     if e_usable e then mark_free_range (e_base e div PAGE_SIZE) (e_length e div PAGE_SIZE) s else s) mm s"

definition mark_reserved :: "memmap_entry list \<Rightarrow> frame_allocator \<Rightarrow> frame_allocator" where
  "mark_reserved mm s = fold (\<lambda>e s.
     if \<not> e_usable e then mark_used_range (e_base e div PAGE_SIZE) ((e_length e + PAGE_SIZE - 1) div PAGE_SIZE) s else s) mm s"

text \<open>\<open>FrameAllocator::init\<close>; None is the panic of a map without room for the bitmap.\<close>

definition frame_init :: "memmap_entry list \<Rightarrow> frame_allocator option" where
  "frame_init mm = do {
     e \<leftarrow> find (\<lambda>e. e_usable e \<and> e_length e \<ge> bitmap_size mm * 8) mm;
     let s = \<lparr>FRAME_BITMAP = replicate (bitmap_size mm) 0, BITMAP_ADDR = e_base e + HHDM_BASE,
              TOTAL_FRAMES = total_frames mm, BITMAP_SIZE = bitmap_size mm\<rparr>;
     let s = mark_usable mm s;
     let s = mark_reserved mm s;
     let s = mark_used_range 0 (0x100000 div PAGE_SIZE) s;
     let s = mark_used_range ((BITMAP_ADDR s - HHDM_BASE) div PAGE_SIZE)
               ((BITMAP_SIZE s * 8 + PAGE_SIZE - 1) div PAGE_SIZE) s;
     Some s }"

subsection \<open>Address newtypes\<close>

definition align_up :: "64 word \<Rightarrow> 64 word \<Rightarrow> 64 word" where
  "align_up addr align = (addr + align - 1) AND NOT (align - 1)"

definition align_down :: "64 word \<Rightarrow> 64 word \<Rightarrow> 64 word" where
  "align_down addr align = addr AND NOT (align - 1)"

section \<open>The set of free frames\<close>

definition free_frames :: "frame_allocator \<Rightarrow> nat set" where
  "free_frames s = {f. f < TOTAL_FRAMES s \<and> bit (FRAME_BITMAP s ! (f div 64)) (f mod 64)}"

definition wf_frames :: "frame_allocator \<Rightarrow> bool" where
  "wf_frames s \<longleftrightarrow> BITMAP_SIZE s = (TOTAL_FRAMES s + 63) div 64 \<and> length (FRAME_BITMAP s) = BITMAP_SIZE s"

lemma finite_free_frames [simp]: "finite (free_frames s)"
  by (rule finite_subset[of _ "{..<TOTAL_FRAMES s}"]) (auto simp: free_frames_def)

lemma frame_index: "f < (T :: nat) \<Longrightarrow> f div 64 < (T + 63) div 64"
  by (simp add: div_le_mono less_eq_div_iff_mult_less_eq flip: Suc_le_eq)

lemma mark_fields [simp]:
  "TOTAL_FRAMES (mark_free f s) = TOTAL_FRAMES s" "TOTAL_FRAMES (mark_used f s) = TOTAL_FRAMES s"
  "BITMAP_SIZE (mark_free f s) = BITMAP_SIZE s" "BITMAP_SIZE (mark_used f s) = BITMAP_SIZE s"
  "BITMAP_ADDR (mark_free f s) = BITMAP_ADDR s" "BITMAP_ADDR (mark_used f s) = BITMAP_ADDR s"
  by (simp_all add: mark_free_def mark_used_def Let_def)

lemma wf_mark [simp]: "wf_frames (mark_free f s) \<longleftrightarrow> wf_frames s" "wf_frames (mark_used f s) \<longleftrightarrow> wf_frames s"
  by (simp_all add: wf_frames_def) (simp_all add: mark_free_def mark_used_def Let_def)

lemma bit_set: "b < 64 \<Longrightarrow> bit (w OR 2 ^ b) c \<longleftrightarrow> bit w c \<or> c = b" for w :: "64 word"
  by (auto simp: bit_simps dest: bit_imp_le_length)

lemma bit_clear: "bit (w AND NOT (2 ^ b)) c \<longleftrightarrow> bit w c \<and> c \<noteq> b" for w :: "64 word"
  by (auto simp: bit_simps dest: bit_imp_le_length)

lemma div_mod_eq: "f div (64 :: nat) = g div 64 \<Longrightarrow> f mod 64 = g mod 64 \<Longrightarrow> f = g"
  by (metis div_mult_mod_eq)

lemma free_frames_mark_free:
  assumes "wf_frames s"
  shows "free_frames (mark_free f s) = (if f < TOTAL_FRAMES s then insert f (free_frames s) else free_frames s)"
proof (cases "f < TOTAL_FRAMES s")
  case False
  then show ?thesis by (simp add: mark_free_def)
next
  case True
  then have "f div 64 < length (FRAME_BITMAP s)" using assms frame_index by (simp add: wf_frames_def)
  then show ?thesis using True
    by (auto simp: free_frames_def mark_free_def Let_def nth_list_update bit_set dest: div_mod_eq)
qed

lemma free_frames_mark_used:
  assumes "wf_frames s"
  shows "free_frames (mark_used f s) = free_frames s - {f}"
proof (cases "f < TOTAL_FRAMES s")
  case False
  then show ?thesis by (auto simp: mark_used_def free_frames_def)
next
  case True
  then have "f div 64 < length (FRAME_BITMAP s)" using assms frame_index by (simp add: wf_frames_def)
  then show ?thesis using True
    by (auto simp: free_frames_def mark_used_def Let_def nth_list_update bit_clear dest: div_mod_eq)
qed

section \<open>Allocation takes the lowest free frame\<close>

lemma trailing_zeros:
  assumes "w \<noteq> 0"
  shows "bit w (trailing_zeros w)" "trailing_zeros w < 64" "bit w b \<Longrightarrow> trailing_zeros w \<le> b"
proof -
  let ?l = "takeWhile (\<lambda>b. \<not> bit w b) [0..<64]"
  obtain c where c: "bit w c" using assms by (auto simp: bit_eq_iff)
  then have c64: "c < 64" by (auto dest: bit_imp_le_length)
  have "length ?l < length [0..<64]"
  proof (rule ccontr)
    assume "\<not> ?thesis"
    then have "?l = [0..<64]" by (metis not_le takeWhile_eq_take take_all)
    then show False using c c64 by (metis (mono_tags, lifting) atLeast_upt lessThan_iff set_takeWhileD)
  qed
  then show "trailing_zeros w < 64" "bit w (trailing_zeros w)"
    using nth_length_takeWhile[of "\<lambda>b. \<not> bit w b" "[0..<64]"] by (simp_all add: trailing_zeros_def)
  show "trailing_zeros w \<le> b" if "bit w b"
  proof (rule ccontr)
    assume "\<not> ?thesis"
    then have b: "b < length ?l" by (simp add: trailing_zeros_def)
    then have "?l ! b \<in> set ?l" by (rule nth_mem)
    moreover have "?l ! b = b" using b by (metis takeWhile_nth length_takeWhile_le less_le_trans nth_upt add_0 length_upt diff_zero)
    ultimately show False using that by (auto dest: set_takeWhileD)
  qed
qed

lemma alloc_loop_Min:
  assumes "wf_frames s" "\<forall>f\<in>free_frames s. i * 64 \<le> f"
  shows "frame_alloc_loop s i =
    (if free_frames s = {} then (s, None)
     else (mark_used (Min (free_frames s)) s, Some (of_nat (Min (free_frames s) * PAGE_SIZE))))"
  using assms
proof (induction s i rule: frame_alloc_loop.induct)
  case (1 s i)
  show ?case
  proof (cases "i \<ge> BITMAP_SIZE s")
    case True
    have "f \<notin> free_frames s" for f
    proof
      assume f: "f \<in> free_frames s"
      then have "f div 64 < i" using frame_index[of f "TOTAL_FRAMES s"] True "1.prems"(1)
        by (simp add: free_frames_def wf_frames_def)
      moreover have "i * 64 \<le> f" using "1.prems"(2) f by blast
      ultimately show False by (simp add: less_mult_imp_div_less div_less_iff_less_mult)
    qed
    then show ?thesis using True by auto
  next
    case i: False
    let ?w = "FRAME_BITMAP s ! i" and ?f = "i * 64 + trailing_zeros (FRAME_BITMAP s ! i)"
    show ?thesis
    proof (cases "?w \<noteq> 0 \<and> ?f < TOTAL_FRAMES s")
      case True
      have dm: "?f div 64 = i" "?f mod 64 = trailing_zeros ?w" using trailing_zeros(2)[of ?w] True by auto
      have f: "?f \<in> free_frames s" using True trailing_zeros(1)[of ?w] by (simp add: free_frames_def dm del: mod_mult_self3)
      have "?f \<le> g" if g: "g \<in> free_frames s" for g
      proof (cases "g div 64 = i")
        case True
        then have "bit ?w (g mod 64)" using g by (simp add: free_frames_def)
        then have "trailing_zeros ?w \<le> g mod 64" by (intro trailing_zeros(3)) auto
        moreover have "g = i * 64 + g mod 64" using True by auto
        ultimately show ?thesis by linarith
      next
        case False
        have "i * 64 \<le> g" using "1.prems"(2) g by blast
        with False have "Suc i \<le> g div 64" by (simp add: less_eq_div_iff_mult_less_eq le_neq_implies_less Suc_le_eq)
        then have "i * 64 + 64 \<le> g" by (simp add: less_eq_div_iff_mult_less_eq)
        then show ?thesis using trailing_zeros(2)[of ?w] True \<open>?w \<noteq> 0 \<and> _\<close> by simp
      qed
      then have "Min (free_frames s) = ?f" using f by (intro Min_eqI) auto
      then show ?thesis using i True f by (subst frame_alloc_loop.simps) (auto simp: Let_def)
    next
      case False
      have "Suc i * 64 \<le> g" if g: "g \<in> free_frames s" for g
      proof (rule ccontr)
        assume "\<not> Suc i * 64 \<le> g"
        moreover have "i * 64 \<le> g" using "1.prems"(2) g by blast
        ultimately have gi: "g div 64 = i" by auto
        then have b: "bit ?w (g mod 64)" using g by (simp add: free_frames_def)
        then have "?w \<noteq> 0" by auto
        moreover have "g = i * 64 + g mod 64" using gi by auto
        then have "?f \<le> g" using trailing_zeros(3)[OF \<open>?w \<noteq> 0\<close> b] by linarith
        ultimately show False using False g by (simp add: free_frames_def)
      qed
      then have "frame_alloc_loop s (i + 1) = (if free_frames s = {} then (s, None)
         else (mark_used (Min (free_frames s)) s, Some (of_nat (Min (free_frames s) * PAGE_SIZE))))"
        using "1.prems"(1) False i by (intro "1.IH") auto
      then show ?thesis using i False by (subst frame_alloc_loop.simps) (simp only: Let_def if_False)
    qed
  qed
qed

lemma frame_alloc_Min:
  "wf_frames s \<Longrightarrow> frame_alloc s =
    (if free_frames s = {} then (s, None)
     else (mark_used (Min (free_frames s)) s, Some (of_nat (Min (free_frames s) * PAGE_SIZE))))"
  unfolding frame_alloc_def by (rule alloc_loop_Min) auto


section \<open>Initialisation\<close>

definition frames_from :: "nat \<Rightarrow> nat \<Rightarrow> nat set" where
  "frames_from start n = {start..<start + n}"

lemma fold_mark_free:
  "wf_frames s \<Longrightarrow> wf_frames (fold (\<lambda>i. mark_free (start + i)) xs s) \<and>
   TOTAL_FRAMES (fold (\<lambda>i. mark_free (start + i)) xs s) = TOTAL_FRAMES s \<and>
   BITMAP_SIZE (fold (\<lambda>i. mark_free (start + i)) xs s) = BITMAP_SIZE s \<and>
   BITMAP_ADDR (fold (\<lambda>i. mark_free (start + i)) xs s) = BITMAP_ADDR s \<and>
   free_frames (fold (\<lambda>i. mark_free (start + i)) xs s) =
     free_frames s \<union> {f. f < TOTAL_FRAMES s \<and> f \<in> (+) start ` set xs}"
  by (induction xs arbitrary: s) (auto simp: free_frames_mark_free)

lemma fold_mark_used:
  "wf_frames s \<Longrightarrow> wf_frames (fold (\<lambda>i. mark_used (start + i)) xs s) \<and>
   TOTAL_FRAMES (fold (\<lambda>i. mark_used (start + i)) xs s) = TOTAL_FRAMES s \<and>
   BITMAP_SIZE (fold (\<lambda>i. mark_used (start + i)) xs s) = BITMAP_SIZE s \<and>
   BITMAP_ADDR (fold (\<lambda>i. mark_used (start + i)) xs s) = BITMAP_ADDR s \<and>
   free_frames (fold (\<lambda>i. mark_used (start + i)) xs s) = free_frames s - (+) start ` set xs"
  by (induction xs arbitrary: s) (auto simp: free_frames_mark_used)

lemma shift_upt: "(+) start ` set [0..<n] = frames_from start n"
  by (simp add: frames_from_def add.commute)

text \<open>Two steps have the same effect on everything but the bitmap when these fields agree.\<close>

definition same_size :: "frame_allocator \<Rightarrow> frame_allocator \<Rightarrow> bool" where
  "same_size s t \<longleftrightarrow> TOTAL_FRAMES t = TOTAL_FRAMES s \<and> BITMAP_SIZE t = BITMAP_SIZE s \<and> BITMAP_ADDR t = BITMAP_ADDR s"

lemma mark_free_range:
  assumes "wf_frames s"
  shows "wf_frames (mark_free_range start n s)" "same_size s (mark_free_range start n s)"
    "free_frames (mark_free_range start n s) = free_frames s \<union> {f \<in> frames_from start n. f < TOTAL_FRAMES s}"
  using fold_mark_free[OF assms, of start "[0..<n]"] shift_upt[of start n]
  by (auto simp: mark_free_range_def same_size_def)

lemma mark_used_range:
  assumes "wf_frames s"
  shows "wf_frames (mark_used_range start n s)" "same_size s (mark_used_range start n s)"
    "free_frames (mark_used_range start n s) = free_frames s - frames_from start n"
  using fold_mark_used[OF assms, of start "[0..<n]"] shift_upt[of start n]
  by (auto simp: mark_used_range_def same_size_def)

text \<open>The frames an entry of the memory map covers, rounded down for usable and up for reserved memory.\<close>

definition usable_frames :: "memmap_entry list \<Rightarrow> nat set" where
  "usable_frames mm = (\<Union>e\<in>{e \<in> set mm. e_usable e}. frames_from (e_base e div PAGE_SIZE) (e_length e div PAGE_SIZE))"

definition reserved_frames :: "memmap_entry list \<Rightarrow> nat set" where
  "reserved_frames mm = (\<Union>e\<in>{e \<in> set mm. \<not> e_usable e}.
     frames_from (e_base e div PAGE_SIZE) ((e_length e + PAGE_SIZE - 1) div PAGE_SIZE))"

lemma mark_usable:
  "wf_frames s \<Longrightarrow> wf_frames (mark_usable mm s) \<and> same_size s (mark_usable mm s) \<and>
   free_frames (mark_usable mm s) = free_frames s \<union> {f \<in> usable_frames mm. f < TOTAL_FRAMES s}"
proof (induction mm arbitrary: s)
  case Nil
  then show ?case by (simp add: mark_usable_def usable_frames_def same_size_def)
next
  case (Cons e mm)
  let ?s = "if e_usable e then mark_free_range (e_base e div PAGE_SIZE) (e_length e div PAGE_SIZE) s else s"
  have s: "wf_frames ?s" "same_size s ?s" using Cons.prems mark_free_range by (auto simp: same_size_def)
  have "mark_usable (e # mm) s = mark_usable mm ?s" by (simp add: mark_usable_def)
  with Cons.IH[OF s(1)] s show ?case using mark_free_range(3)[OF Cons.prems]
    by (auto simp: same_size_def usable_frames_def)
qed

lemma mark_reserved:
  "wf_frames s \<Longrightarrow> wf_frames (mark_reserved mm s) \<and> same_size s (mark_reserved mm s) \<and>
   free_frames (mark_reserved mm s) = free_frames s - reserved_frames mm"
proof (induction mm arbitrary: s)
  case Nil
  then show ?case by (simp add: mark_reserved_def reserved_frames_def same_size_def)
next
  case (Cons e mm)
  let ?s = "if \<not> e_usable e
    then mark_used_range (e_base e div PAGE_SIZE) ((e_length e + PAGE_SIZE - 1) div PAGE_SIZE) s else s"
  have s: "wf_frames ?s" "same_size s ?s" using Cons.prems mark_used_range by (auto simp: same_size_def)
  have "mark_reserved (e # mm) s = mark_reserved mm ?s" by (simp add: mark_reserved_def)
  with Cons.IH[OF s(1)] s show ?case using mark_used_range(3)[OF Cons.prems]
    by (auto simp: same_size_def reserved_frames_def)
qed

text \<open>The frames that hold the bitmap when it is placed at the base of the entry \<open>e\<close>.\<close>

definition bitmap_frames :: "memmap_entry list \<Rightarrow> memmap_entry \<Rightarrow> nat set" where
  "bitmap_frames mm e = frames_from (e_base e div PAGE_SIZE) ((bitmap_size mm * 8 + PAGE_SIZE - 1) div PAGE_SIZE)"

lemma frame_init_Some:
  assumes "find (\<lambda>e. e_usable e \<and> e_length e \<ge> bitmap_size mm * 8) mm = Some e"
  obtains s where "frame_init mm = Some s" "wf_frames s" "TOTAL_FRAMES s = total_frames mm"
    "free_frames s = {f \<in> usable_frames mm. f < total_frames mm} - reserved_frames mm - {..<256} - bitmap_frames mm e"
proof -
  define s0 where "s0 = \<lparr>FRAME_BITMAP = replicate (bitmap_size mm) 0, BITMAP_ADDR = e_base e + HHDM_BASE,
    TOTAL_FRAMES = total_frames mm, BITMAP_SIZE = bitmap_size mm\<rparr>"
  have s0: "wf_frames s0" by (simp add: s0_def wf_frames_def bitmap_size_def)
  have e0: "free_frames s0 = {}"
    using frame_index by (fastforce simp: s0_def free_frames_def bitmap_size_def)
  let ?s1 = "mark_usable mm s0" let ?s2 = "mark_reserved mm ?s1"
  let ?s3 = "mark_used_range 0 (0x100000 div PAGE_SIZE) ?s2"
  let ?s4 = "mark_used_range ((BITMAP_ADDR ?s3 - HHDM_BASE) div PAGE_SIZE)
               ((BITMAP_SIZE ?s3 * 8 + PAGE_SIZE - 1) div PAGE_SIZE) ?s3"
  have s1: "wf_frames ?s1" "same_size s0 ?s1" "free_frames ?s1 = {f \<in> usable_frames mm. f < total_frames mm}"
    using mark_usable[OF s0, of mm] e0 by (auto simp: s0_def)
  have s2: "wf_frames ?s2" "same_size s0 ?s2" "free_frames ?s2 = free_frames ?s1 - reserved_frames mm"
    using mark_reserved[OF s1(1), of mm] s1(2) by (auto simp: same_size_def)
  have low: "frames_from 0 (0x100000 div PAGE_SIZE) = {..<256}"
    by (simp add: frames_from_def PAGE_SIZE_def lessThan_atLeast0)
  have s3: "wf_frames ?s3" "same_size s0 ?s3" "free_frames ?s3 = free_frames ?s2 - {..<256}"
    using mark_used_range[OF s2(1), of 0 "0x100000 div PAGE_SIZE"] s2(2) unfolding low same_size_def by simp_all
  have "BITMAP_ADDR ?s3 - HHDM_BASE = e_base e" "BITMAP_SIZE ?s3 = bitmap_size mm"
    using s3(2) by (simp_all add: same_size_def s0_def)
  then have s4: "wf_frames ?s4" "same_size s0 ?s4" "free_frames ?s4 = free_frames ?s3 - bitmap_frames mm e"
    using mark_used_range[OF s3(1)] s3(2) by (auto simp: same_size_def bitmap_frames_def)
  have "frame_init mm = Some ?s4" using assms by (simp add: frame_init_def s0_def Let_def)
  moreover have "TOTAL_FRAMES ?s4 = total_frames mm" using s4(2) by (simp add: same_size_def s0_def)
  ultimately show thesis using s4(1,3) unfolding s3(3) s2(3) s1(3) by (intro that)
qed

lemma frame_init_None_iff: "frame_init mm = None \<longleftrightarrow> (\<forall>e\<in>set mm. e_usable e \<longrightarrow> e_length e < bitmap_size mm * 8)"
  by (auto simp: frame_init_def Let_def find_None_iff bind_eq_None_conv not_le)


section \<open>Alignment\<close>

lemma unat_power_lower': "k < 64 \<Longrightarrow> unat (2 ^ k :: 64 word) = 2 ^ k"
proof -
  assume "k < 64"
  then have "(2 :: nat) ^ k < 2 ^ 64" by (intro power_strict_increasing) auto
  then show ?thesis using unat_of_nat[of "2 ^ k", where 'a = 64] by simp
qed

lemma unat_and_not_mask: "unat (x AND NOT (2 ^ k - 1)) = unat x - unat x mod 2 ^ k" for x :: "64 word"
proof -
  have "x AND NOT (2 ^ k - 1) = x AND NOT (take_bit k x)"
    by (rule bit_word_eqI) (auto simp: bit_simps simp flip: mask_eq_exp_minus_1)
  also have "\<dots> = x - take_bit k x" by (rule disjunctive_diff[symmetric]) (auto simp: bit_simps)
  finally have "unat (x AND NOT (2 ^ k - 1)) = unat (x - take_bit k x)" by simp
  moreover have "unat (take_bit k x) = unat x mod 2 ^ k" by (metis unsigned_take_bit_eq take_bit_eq_mod)
  ultimately show ?thesis by (simp add: unat_sub_if')
qed

lemma align_down_unat: "unat (align_down x (2 ^ k)) = unat x - unat x mod 2 ^ k"
  by (simp add: align_down_def unat_and_not_mask)

lemma align_up_unat:
  assumes "unat x + 2 ^ k \<le> 2 ^ 64" "k < 64"
  shows "unat x \<le> unat (align_up x (2 ^ k))" "unat (align_up x (2 ^ k)) < unat x + 2 ^ k"
    "2 ^ k dvd unat (align_up x (2 ^ k))"
proof -
  have k: "unat (2 ^ k :: 64 word) = 2 ^ k" using assms(2) by (rule unat_power_lower')
  let ?y = "x + 2 ^ k - 1"
  have y0: "?y = x + (2 ^ k - 1)" by simp
  have "unat (2 ^ k - 1 :: 64 word) = 2 ^ k - 1"
    using k assms(2) by (metis unat_minus_one power_eq_0_iff unat_0 zero_neq_numeral)
  moreover have "unat x + (2 ^ k - 1) < 2 ^ LENGTH(64)"
    using assms(1) zero_less_power[of "2 :: nat" k] by simp
  ultimately have y: "unat ?y = unat x + (2 ^ k - 1)" unfolding y0 using unat_add_lem[of x "2 ^ k - 1"] by simp
  have r: "unat (align_up x (2 ^ k)) = unat ?y - unat ?y mod 2 ^ k" by (simp add: align_up_def unat_and_not_mask)
  have m: "unat ?y mod 2 ^ k < 2 ^ k" by simp
  show "unat x \<le> unat (align_up x (2 ^ k))" using r y m by linarith
  have "unat (align_up x (2 ^ k)) \<le> unat ?y" using r by simp
  then show "unat (align_up x (2 ^ k)) < unat x + 2 ^ k" using y zero_less_power[of "2 :: nat" k] by linarith
  show "2 ^ k dvd unat (align_up x (2 ^ k))" using r by (simp add: dvd_minus_mod)
qed

section \<open>The contract of a source of frames\<close>

text \<open>
  What the page tables rely on: a state has a set of available frames; taking a frame removes one of
  them and gives its address, giving a frame back makes it available.
\<close>

locale frame_source =
  fixes take_frame :: "'s \<Rightarrow> 's \<times> phys_addr option"
    and give_frame :: "phys_addr \<Rightarrow> 's \<Rightarrow> 's"
    and avail :: "'s \<Rightarrow> nat set"
    and owned :: "'s \<Rightarrow> nat set"
    and ok :: "'s \<Rightarrow> bool"
  assumes take_None: "ok s \<Longrightarrow> take_frame s = (t, None) \<longleftrightarrow> avail s = {} \<and> t = s"
    and take_Some: "ok s \<Longrightarrow> take_frame s = (t, Some a) \<Longrightarrow>
      ok t \<and> owned t = owned s \<and> avail t = avail s - {unat a div PAGE_SIZE} \<and>
      unat a div PAGE_SIZE \<in> avail s \<and> unat a mod PAGE_SIZE = 0"
    and give: "ok s \<Longrightarrow> unat a div PAGE_SIZE \<in> owned s \<Longrightarrow>
      ok (give_frame a s) \<and> owned (give_frame a s) = owned s \<and>
      avail (give_frame a s) = insert (unat a div PAGE_SIZE) (avail s)"
    and avail_owned: "avail s \<subseteq> owned s"
begin

lemma take_twice:
  assumes "ok s" "take_frame s = (t, Some a)" "take_frame t = (u, Some b)"
  shows "unat a div PAGE_SIZE \<noteq> unat b div PAGE_SIZE"
  using take_Some[OF assms(1,2)] take_Some[of t u b] assms(3) by auto

lemma take_give:
  assumes "ok s" "take_frame s = (t, Some a)"
  shows "ok (give_frame a t)" "avail (give_frame a t) = avail s"
proof -
  have t: "ok t" "owned t = owned s" "avail t = avail s - {unat a div PAGE_SIZE}" "unat a div PAGE_SIZE \<in> avail s"
    using take_Some[OF assms] by auto
  have "unat a div PAGE_SIZE \<in> owned t" using t avail_owned[of s] by auto
  with give[OF t(1)] t show "ok (give_frame a t)" "avail (give_frame a t) = avail s" by auto
qed

lemma take_progress: "ok s \<Longrightarrow> avail s \<noteq> {} \<Longrightarrow> \<exists>t a. take_frame s = (t, Some a)"
  using take_None[of s "fst (take_frame s)"] by (cases "take_frame s"; cases "snd (take_frame s)") auto

end

definition frames_ok :: "frame_allocator \<Rightarrow> bool" where
  "frames_ok s \<longleftrightarrow> wf_frames s \<and> TOTAL_FRAMES s \<le> 2 ^ 52"

lemma unat_frame_addr:
  assumes "f < 2 ^ 52"
  shows "unat (of_nat (f * PAGE_SIZE) :: 64 word) = f * PAGE_SIZE"
proof -
  have "f * PAGE_SIZE < 2 ^ LENGTH(64)" using assms by (simp add: PAGE_SIZE_def)
  then show ?thesis by (simp only: unat_of_nat mod_less)
qed

lemma Min_frame: "free_frames s \<noteq> {} \<Longrightarrow> Min (free_frames s) \<in> free_frames s"
  by simp

lemma frame_alloc_None: "frames_ok s \<Longrightarrow> frame_alloc s = (t, None) \<longleftrightarrow> free_frames s = {} \<and> t = s"
  by (auto simp: frame_alloc_Min frames_ok_def)

lemma frame_alloc_Some:
  assumes "frames_ok s" "frame_alloc s = (t, Some a)"
  shows "frames_ok t \<and> TOTAL_FRAMES t = TOTAL_FRAMES s \<and>
    free_frames t = free_frames s - {unat a div PAGE_SIZE} \<and> unat a div PAGE_SIZE \<in> free_frames s \<and>
    unat a mod PAGE_SIZE = 0 \<and> unat a div PAGE_SIZE = Min (free_frames s)"
proof -
  have s: "wf_frames s" "TOTAL_FRAMES s \<le> 2 ^ 52" using assms(1) by (auto simp: frames_ok_def)
  then have f: "free_frames s \<noteq> {}" using assms frame_alloc_Min[OF s(1)] by (auto split: if_splits)
  let ?f = "Min (free_frames s)"
  have "?f < 2 ^ 52" using Min_frame[OF f] s(2) by (simp add: free_frames_def)
  then have a: "unat a = ?f * PAGE_SIZE" "t = mark_used ?f s"
    using assms(2) f frame_alloc_Min[OF s(1)] unat_frame_addr by auto
  then have "unat a div PAGE_SIZE = ?f" "unat a mod PAGE_SIZE = 0" by (simp_all add: PAGE_SIZE_def)
  then show ?thesis using a s Min_frame[OF f] by (simp add: free_frames_mark_used frames_ok_def)
qed

lemma frame_free_insert:
  assumes "frames_ok s" "unat a div PAGE_SIZE < TOTAL_FRAMES s"
  shows "frames_ok (frame_free a s) \<and> TOTAL_FRAMES (frame_free a s) = TOTAL_FRAMES s \<and>
    free_frames (frame_free a s) = insert (unat a div PAGE_SIZE) (free_frames s)"
proof -
  have "unat (a div of_nat PAGE_SIZE) = unat a div PAGE_SIZE" by (simp add: unat_div PAGE_SIZE_def)
  then show ?thesis using assms by (simp add: frame_free_def free_frames_mark_free frames_ok_def)
qed

interpretation frm: frame_source alloc_frame free_frame free_frames "\<lambda>s. {..<TOTAL_FRAMES s}" frames_ok
proof
  show "alloc_frame s = (t, None) \<longleftrightarrow> free_frames s = {} \<and> t = s" if "frames_ok s" for s t
    using frame_alloc_None[OF that] by (simp add: alloc_frame_def)
next
  fix s t a assume "frames_ok s" "alloc_frame s = (t, Some a)"
  then have "frames_ok t" "TOTAL_FRAMES t = TOTAL_FRAMES s"
    "free_frames t = free_frames s - {unat a div PAGE_SIZE}" "unat a div PAGE_SIZE \<in> free_frames s"
    "unat a mod PAGE_SIZE = 0"
    using frame_alloc_Some[of s t a] unfolding alloc_frame_def by blast+
  then show "frames_ok t \<and> {..<TOTAL_FRAMES t} = {..<TOTAL_FRAMES s} \<and>
    free_frames t = free_frames s - {unat a div PAGE_SIZE} \<and>
    unat a div PAGE_SIZE \<in> free_frames s \<and> unat a mod PAGE_SIZE = 0"
    by simp
next
  fix s and a :: phys_addr assume "frames_ok s" "unat a div PAGE_SIZE \<in> {..<TOTAL_FRAMES s}"
  then show "frames_ok (free_frame a s) \<and> {..<TOTAL_FRAMES (free_frame a s)} = {..<TOTAL_FRAMES s} \<and>
    free_frames (free_frame a s) = insert (unat a div PAGE_SIZE) (free_frames s)"
    using frame_free_insert[of s a] by (simp add: free_frame_def)
qed (auto simp: free_frames_def)

section \<open>Properties\<close>

text \<open>
  C21: the bitmap scan implements the set of free frames. \<open>alloc_frame\<close> fails
  exactly when no frame is free and then changes nothing; otherwise it returns the page-aligned address of the lowest free
  frame and takes exactly that frame, so no later allocation returns it before it is freed; \<open>free_frame\<close> of it
  restores the set.
\<close>

theorem alloc_frame_lowest:
  assumes "frames_ok s"
  shows "(snd (alloc_frame s) = None \<longleftrightarrow> free_frames s = {}) \<and>
    (\<forall>t a. alloc_frame s = (t, Some a) \<longrightarrow>
       frames_ok t \<and> unat a = Min (free_frames s) * PAGE_SIZE \<and> free_frames t = free_frames s - {Min (free_frames s)} \<and>
       (\<forall>u b. alloc_frame t = (u, Some b) \<longrightarrow> unat b div PAGE_SIZE \<noteq> unat a div PAGE_SIZE) \<and>
       free_frames (free_frame a t) = free_frames s)"
proof (intro conjI allI impI)
  show "snd (alloc_frame s) = None \<longleftrightarrow> free_frames s = {}"
    using frm.take_None[OF assms, of "fst (alloc_frame s)"] frm.take_None[OF assms, of s]
    by (metis prod.collapse snd_conv)
next
  fix t a assume ta: "alloc_frame s = (t, Some a)"
  have f: "frames_ok t" "free_frames t = free_frames s - {unat a div PAGE_SIZE}" "unat a mod PAGE_SIZE = 0"
    "unat a div PAGE_SIZE = Min (free_frames s)"
    using frame_alloc_Some[OF assms] ta by (simp_all add: alloc_frame_def)
  then show "frames_ok t" "free_frames t = free_frames s - {Min (free_frames s)}" by simp_all
  show "unat a = Min (free_frames s) * PAGE_SIZE" using f(3,4) by (metis mod_mult_div_eq add_0 mult.commute)
  show "free_frames (free_frame a t) = free_frames s" using frm.take_give(2)[OF assms ta] .
  show "unat b div PAGE_SIZE \<noteq> unat a div PAGE_SIZE" if "alloc_frame t = (u, Some b)" for u b
    using frm.take_twice[OF assms ta that] by simp
qed

theorem alloc_frame_lowest_witness:
  "alloc_frame \<lparr>FRAME_BITMAP = [0, 0x28], BITMAP_ADDR = 0, TOTAL_FRAMES = 100, BITMAP_SIZE = 2\<rparr> =
     (\<lparr>FRAME_BITMAP = [0, 0x20], BITMAP_ADDR = 0, TOTAL_FRAMES = 100, BITMAP_SIZE = 2\<rparr>, Some 0x43000) \<and>
   free_frames \<lparr>FRAME_BITMAP = [0, 0x20], BITMAP_ADDR = 0, TOTAL_FRAMES = 100, BITMAP_SIZE = 2\<rparr> =
     free_frames \<lparr>FRAME_BITMAP = [0, 0x28], BITMAP_ADDR = 0, TOTAL_FRAMES = 100, BITMAP_SIZE = 2\<rparr> -
       {Min (free_frames \<lparr>FRAME_BITMAP = [0, 0x28], BITMAP_ADDR = 0, TOTAL_FRAMES = 100, BITMAP_SIZE = 2\<rparr>)}"
proof -
  let ?s = "\<lparr>FRAME_BITMAP = [0, 0x28], BITMAP_ADDR = 0, TOTAL_FRAMES = 100, BITMAP_SIZE = 2\<rparr>"
  have "trailing_zeros 0x28 = 3" by code_simp
  then have "alloc_frame ?s = (\<lparr>FRAME_BITMAP = [0, 0x20], BITMAP_ADDR = 0, TOTAL_FRAMES = 100, BITMAP_SIZE = 2\<rparr>, Some 0x43000)"
    by (simp add: alloc_frame_def frame_alloc_def mark_used_def PAGE_SIZE_def)
  moreover have "frames_ok ?s" by (simp add: frames_ok_def wf_frames_def)
  ultimately show ?thesis using alloc_frame_lowest[of ?s] by blast
qed



end
