(* ===== verification/KHeap.thy ===== *)
theory KHeap
  imports FrameAlloc
begin

text \<open>
  The kernel heap of \<open>src/memory/src/allocator.rs\<close>: the doubly linked free list, the first-fit
  \<open>GlobalAlloc\<close> on top of it, and \<open>sbrk\<close>. The statics are the fields of the record \<open>kheap\<close>;
  block headers live in a store from their addresses, and the bytes after a header belong to the caller and are not
  modelled. All integers are 64-bit words, as \<open>usize\<close> and pointers are on this target.
\<close>

section \<open>Definitions\<close>

type_synonym usize = "64 word"

record ll_block =
  b_size :: usize
  b_next :: usize
  b_prev :: usize

record kheap =
  HEAP_START :: usize
  HEAP_SIZE :: usize
  HEAP_OFFSET :: usize
  fl_head :: usize
  fl_tail :: usize
  fl_count :: usize
  blocks :: "usize \<Rightarrow> ll_block"

definition BLOCK_BYTES :: usize where "BLOCK_BYTES = 24"

definition BLOCK_ALIGN :: usize where "BLOCK_ALIGN = 8"

definition set_next :: "usize \<Rightarrow> usize \<Rightarrow> kheap \<Rightarrow> kheap" where
  "set_next b v s = s\<lparr>blocks := (blocks s)(b := (blocks s b)\<lparr>b_next := v\<rparr>)\<rparr>"

definition set_prev :: "usize \<Rightarrow> usize \<Rightarrow> kheap \<Rightarrow> kheap" where
  "set_prev b v s = s\<lparr>blocks := (blocks s)(b := (blocks s b)\<lparr>b_prev := v\<rparr>)\<rparr>"

definition ll_new :: "kheap \<Rightarrow> kheap" where
  "ll_new s = s\<lparr>fl_head := 0, fl_tail := 0, fl_count := 0\<rparr>"

definition push_back :: "usize \<Rightarrow> kheap \<Rightarrow> kheap" where
  "push_back block s = (
     let s = set_next block 0 s;
         s = set_prev block (fl_tail s) s;
         s = (if fl_tail s \<noteq> 0 then set_next (fl_tail s) block s else s\<lparr>fl_head := block\<rparr>)
     in s\<lparr>fl_tail := block, fl_count := fl_count s + 1\<rparr>)"

definition pop_front :: "kheap \<Rightarrow> kheap \<times> usize" where
  "pop_front s =
     (if fl_head s = 0 then (s, 0)
      else let front = fl_head s;
               s = s\<lparr>fl_head := b_next (blocks s front)\<rparr>;
               s = (if fl_head s \<noteq> 0 then set_prev (fl_head s) 0 s else s\<lparr>fl_tail := 0\<rparr>)
           in (s\<lparr>fl_count := fl_count s - 1\<rparr>, front))"

definition ll_remove :: "usize \<Rightarrow> kheap \<Rightarrow> kheap" where
  "ll_remove block s = (
     let s = (if b_prev (blocks s block) = 0 then s\<lparr>fl_head := b_next (blocks s block)\<rparr>
              else set_next (b_prev (blocks s block)) (b_next (blocks s block)) s);
         s = (if b_next (blocks s block) = 0 then s\<lparr>fl_tail := b_prev (blocks s block)\<rparr>
              else set_prev (b_next (blocks s block)) (b_prev (blocks s block)) s)
     in s\<lparr>fl_count := fl_count s - 1\<rparr>)"

definition is_empty :: "kheap \<Rightarrow> bool" where
  "is_empty s \<longleftrightarrow> fl_head s = 0"

text \<open>The loop over the free list; 0 when no block is large enough.\<close>

partial_function (option) first_fit :: "kheap \<Rightarrow> usize \<Rightarrow> usize \<Rightarrow> usize option" where
  "first_fit s sz current =
     (if current = 0 then Some 0
      else if b_size (blocks s current) \<ge> sz then Some current
      else first_fit s sz (b_next (blocks s current)))"

declare first_fit.simps [code]

text \<open>\<open>GlobalAlloc::alloc\<close> for a layout of \<open>sz\<close> bytes aligned to \<open>al\<close>.\<close>

definition heap_alloc :: "usize \<Rightarrow> usize \<Rightarrow> kheap \<Rightarrow> (kheap \<times> usize) option" where
  "heap_alloc sz al s = do {
     current \<leftarrow> first_fit s sz (fl_head s);
     if current \<noteq> 0 then Some (ll_remove current s, current + BLOCK_BYTES)
     else if HEAP_START s = 0 then Some (s, 0)
     else let align = max al BLOCK_ALIGN;
              aligned_offset = align_up (HEAP_OFFSET s) align;
              total_size = BLOCK_BYTES + sz
          in if aligned_offset + total_size > HEAP_SIZE s then Some (s, 0)
             else let block = HEAP_START s + aligned_offset;
                      s = s\<lparr>blocks := (blocks s)(block := \<lparr>b_size = sz, b_next = 0, b_prev = 0\<rparr>),
                            HEAP_OFFSET := aligned_offset + total_size\<rparr>
                  in Some (s, block + BLOCK_BYTES) }"

definition heap_dealloc :: "usize \<Rightarrow> kheap \<Rightarrow> kheap" where
  "heap_dealloc ptr s = (if ptr = 0 then s else push_back (ptr - BLOCK_BYTES) s)"

text \<open>\<open>sbrk\<close>; None is the panic of the overflow of the signed addition.\<close>

definition sbrk :: "64 word \<Rightarrow> kheap \<Rightarrow> (kheap \<times> usize) option" where
  "sbrk increment s =
     (if HEAP_START s = 0 then Some (s, 0)
      else let current = HEAP_OFFSET s; new_offset = current + increment
           in if sint current + sint increment \<noteq> sint new_offset then None
              else if new_offset <s 0 \<or> new_offset > HEAP_SIZE s then Some (s, 0)
              else Some (s\<lparr>HEAP_OFFSET := new_offset\<rparr>, HEAP_START s + current))"

definition brk_current :: "kheap \<Rightarrow> usize" where
  "brk_current s = (if HEAP_START s = 0 then 0 else HEAP_START s + HEAP_OFFSET s)"

text \<open>\<open>init_allocator\<close>; None is the panic of a map with no usable entry over 16 MiB.\<close>

text \<open>The mask \<open>(x + 4095) & !4095\<close> of the source rounds up to whole pages.\<close>

definition bitmap_size_bytes :: "memmap_entry list \<Rightarrow> nat" where
  "bitmap_size_bytes mm = (bitmap_size mm * 8 + 4095) div 4096 * 4096"

definition init_allocator :: "memmap_entry list \<Rightarrow> kheap \<Rightarrow> kheap option" where
  "init_allocator mm s = (
     let s = ll_new s;
         s = (case find (\<lambda>e. e_usable e \<and> e_length e > 16 * 1024 * 1024) mm of
                None \<Rightarrow> s
              | Some e \<Rightarrow> s\<lparr>HEAP_START := of_nat (e_base e + bitmap_size_bytes mm + HHDM_BASE),
                            HEAP_SIZE := of_nat (e_length e - bitmap_size_bytes mm), HEAP_OFFSET := 0\<rparr>)
     in if HEAP_START s = 0 then None else Some s)"

section \<open>The free list\<close>

text \<open>A segment of the doubly linked list, from \<open>h\<close> with predecessor \<open>pr\<close> up to \<open>h'\<close> with
  predecessor \<open>pr'\<close>.\<close>

fun ll_seg :: "(usize \<Rightarrow> ll_block) \<Rightarrow> usize \<Rightarrow> usize \<Rightarrow> usize list \<Rightarrow> usize \<Rightarrow> usize \<Rightarrow> bool" where
  "ll_seg B pr h [] pr' h' \<longleftrightarrow> pr' = pr \<and> h' = h"
| "ll_seg B pr h (p # ps) pr' h' \<longleftrightarrow>
     h = p \<and> p \<noteq> 0 \<and> b_prev (B p) = pr \<and> ll_seg B p (b_next (B p)) ps pr' h'"

definition rep :: "kheap \<Rightarrow> usize list \<Rightarrow> bool" where
  "rep s ps \<longleftrightarrow> ll_seg (blocks s) 0 (fl_head s) ps (fl_tail s) 0 \<and> distinct ps \<and> fl_count s = of_nat (length ps)"

lemma seg_append:
  "ll_seg B pr h (xs @ ys) pr' h' \<longleftrightarrow> (\<exists>pm hm. ll_seg B pr h xs pm hm \<and> ll_seg B pm hm ys pr' h')"
  by (induction xs arbitrary: pr h) auto

lemma seg_cong: "(\<And>p. p \<in> set ps \<Longrightarrow> B' p = B p) \<Longrightarrow> ll_seg B' pr h ps pr' h' \<longleftrightarrow> ll_seg B pr h ps pr' h'"
  by (induction ps arbitrary: pr h) auto

lemma seg_upd_notin [simp]: "q \<notin> set ps \<Longrightarrow> ll_seg (B(q := b)) pr h ps pr' h' \<longleftrightarrow> ll_seg B pr h ps pr' h'"
  by (rule seg_cong) auto

lemma seg_snoc: "ll_seg B pr h (xs @ [q]) pr' h' \<longleftrightarrow>
  q \<noteq> 0 \<and> pr' = q \<and> h' = b_next (B q) \<and> ll_seg B pr h xs (b_prev (B q)) q"
  by (auto simp: seg_append)

lemma seg_nonnull: "ll_seg B pr h ps pr' h' \<Longrightarrow> 0 \<notin> set ps"
  by (induction ps arbitrary: pr h) auto

lemma seg_head: "ll_seg B 0 h ps pr' 0 \<Longrightarrow> h = (if ps = [] then 0 else hd ps)"
  by (cases ps) auto

lemma seg_last: "ll_seg B pr h ps pr' h' \<Longrightarrow> ps \<noteq> [] \<Longrightarrow> pr' = last ps"
  by (induction ps arbitrary: pr h) (auto split: if_splits)

lemma rep_nonnull: "rep s ps \<Longrightarrow> 0 \<notin> set ps"
  by (auto simp: rep_def dest: seg_nonnull)

lemma push_back_rep:
  assumes "rep s ps" "b \<noteq> 0" "b \<notin> set ps"
  shows "rep (push_back b s) (ps @ [b])"
proof (cases ps rule: rev_cases)
  case Nil
  with assms show ?thesis
    by (auto simp: rep_def push_back_def Let_def set_next_def set_prev_def)
next
  case (snoc xs q)
  with assms have "q \<noteq> b" "q \<noteq> 0" "q \<notin> set xs" "b \<notin> set xs" "fl_tail s = q"
    "b_next (blocks s q) = 0" "ll_seg (blocks s) 0 (fl_head s) xs (b_prev (blocks s q)) q"
    by (auto simp: rep_def seg_snoc)
  with assms snoc show ?thesis
    by (simp add: rep_def push_back_def Let_def set_next_def set_prev_def seg_append)
qed

lemma seg_relink:
  assumes "ll_seg B pr h (xs @ [q]) q hm" "q \<notin> set xs"
  shows "ll_seg (B(q := (B q)\<lparr>b_next := n\<rparr>)) pr h (xs @ [q]) q n"
  using assms by (simp add: seg_snoc)

lemma seg_relink_prev:
  assumes "ll_seg B pr h (q # ys) pr' h'" "q \<notin> set ys"
  shows "ll_seg (B(q := (B q)\<lparr>b_prev := p\<rparr>)) p h (q # ys) pr' h'"
  using assms by simp

lemma ll_remove_rep:
  assumes "rep s (xs @ b # ys)"
  shows "rep (ll_remove b s) (xs @ ys)"
proof -
  let ?B = "blocks s"
  have d: "distinct xs" "distinct ys" "b \<notin> set xs" "b \<notin> set ys" "set xs \<inter> set ys = {}"
    and cnt: "fl_count s = of_nat (length xs + length ys) + 1"
    using assms by (auto simp: rep_def)
  obtain x: "ll_seg ?B 0 (fl_head s) xs (b_prev (?B b)) b" and b0: "b \<noteq> 0"
    and y: "ll_seg ?B b (b_next (?B b)) ys (fl_tail s) 0"
    using assms by (auto simp: rep_def seg_append)
  have px: "b_prev (?B b) = (if xs = [] then 0 else last xs)" "b_prev (?B b) = 0 \<longleftrightarrow> xs = []"
    using x seg_last[OF x] seg_nonnull[OF x] by (cases xs rule: rev_cases; auto)+
  have ny: "b_next (?B b) = (if ys = [] then 0 else hd ys)" "b_next (?B b) = 0 \<longleftrightarrow> ys = []"
    using y seg_nonnull[OF y] by (cases ys; auto)+
  show ?thesis
  proof (cases xs rule: rev_cases)
    case Nil
    show ?thesis
    proof (cases ys)
      case Nil
      with \<open>xs = []\<close> x y cnt px ny show ?thesis by (simp add: ll_remove_def rep_def Let_def)
    next
      case (Cons r ys')
      with \<open>xs = []\<close> x y cnt px ny d b0 show ?thesis
        by (simp add: ll_remove_def rep_def Let_def set_prev_def)
    qed
  next
    case (snoc xs' q)
    show ?thesis
    proof (cases ys)
      case Nil
      with snoc x y cnt px ny d b0 show ?thesis
        by (simp add: ll_remove_def rep_def Let_def set_next_def seg_snoc)
    next
      case (Cons r ys')
      then have "q \<noteq> r" "q \<notin> set ys'" "r \<notin> set xs'" "r \<notin> set ys'" "q \<notin> set xs'" "q \<noteq> b" "r \<noteq> b"
        using d snoc by auto
      with Cons snoc x y cnt px ny d b0 show ?thesis
        by (simp add: ll_remove_def rep_def Let_def set_next_def set_prev_def seg_append)
    qed
  qed
qed

lemma pop_front_rep:
  assumes "rep s (b # ps)"
  shows "rep (fst (pop_front s)) ps \<and> snd (pop_front s) = b"
  using assms by (cases ps) (auto simp: rep_def pop_front_def Let_def set_prev_def)

lemma pop_front_empty: "rep s [] \<Longrightarrow> pop_front s = (s, 0)"
  by (simp add: rep_def pop_front_def)

section \<open>The blocks of the heap\<close>

text \<open>The bytes from a block's header to the end of its payload.\<close>

abbreviation (input) extent :: "kheap \<Rightarrow> usize \<Rightarrow> nat" where
  "extent s b \<equiv> 24 + unat (b_size (blocks s b))"

text \<open>The free blocks \<open>fl\<close> are linked in the free list, the blocks \<open>live\<close> are in use; all of them lie in
  the used part of the heap and no two overlap.\<close>

definition heap_inv :: "kheap \<Rightarrow> usize list \<Rightarrow> usize set \<Rightarrow> bool" where
  "heap_inv s fl live \<longleftrightarrow>
     rep s fl \<and> set fl \<inter> live = {} \<and> HEAP_START s \<noteq> 0 \<and>
     unat (HEAP_START s) + unat (HEAP_SIZE s) < 2 ^ 64 \<and> unat (HEAP_SIZE s) \<le> 2 ^ 62 \<and>
     unat (HEAP_OFFSET s) \<le> unat (HEAP_SIZE s) \<and>
     (\<forall>b\<in>set fl \<union> live. unat (HEAP_START s) \<le> unat b \<and>
        unat b + extent s b \<le> unat (HEAP_START s) + unat (HEAP_OFFSET s)) \<and>
     (\<forall>b\<in>set fl \<union> live. \<forall>c\<in>set fl \<union> live. b \<noteq> c \<longrightarrow> disj (unat b) (extent s b) (unat c) (extent s c))"

lemma heap_inv_block:
  assumes "heap_inv s fl live" "b \<in> set fl \<union> live"
  shows "unat (HEAP_START s) \<le> unat b"
    "unat b + extent s b \<le> unat (HEAP_START s) + unat (HEAP_OFFSET s)"
    "unat (HEAP_START s) + unat (HEAP_OFFSET s) < 2 ^ 64"
  using assms by (auto simp: heap_inv_def)

lemma first_fit_seg:
  "ll_seg (blocks s) pr h ps pr' 0 \<Longrightarrow>
   first_fit s sz h = Some (case find (\<lambda>b. b_size (blocks s b) \<ge> sz) ps of None \<Rightarrow> 0 | Some b \<Rightarrow> b)"
proof (induction ps arbitrary: pr h)
  case Nil
  then show ?case by (subst first_fit.simps) simp
next
  case (Cons p ps)
  then show ?case by (subst first_fit.simps) auto
qed

lemma first_fit_rep:
  "rep s fl \<Longrightarrow>
   first_fit s sz (fl_head s) = Some (case find (\<lambda>b. b_size (blocks s b) \<ge> sz) fl of None \<Rightarrow> 0 | Some b \<Rightarrow> b)"
  by (auto simp: rep_def dest: first_fit_seg)

lemma ll_remove_sizes [simp]: "b_size (blocks (ll_remove b s) c) = b_size (blocks s c)"
  by (simp add: ll_remove_def Let_def set_next_def set_prev_def)

lemma ll_remove_fields [simp]:
  "HEAP_START (ll_remove b s) = HEAP_START s" "HEAP_SIZE (ll_remove b s) = HEAP_SIZE s"
  "HEAP_OFFSET (ll_remove b s) = HEAP_OFFSET s"
  by (simp_all add: ll_remove_def Let_def set_next_def set_prev_def)

lemma push_back_sizes [simp]: "b_size (blocks (push_back b s) c) = b_size (blocks s c)"
  by (simp add: push_back_def Let_def set_next_def set_prev_def)

lemma push_back_fields [simp]:
  "HEAP_START (push_back b s) = HEAP_START s" "HEAP_SIZE (push_back b s) = HEAP_SIZE s"
  "HEAP_OFFSET (push_back b s) = HEAP_OFFSET s"
  by (simp_all add: push_back_def Let_def set_next_def set_prev_def)

lemma find_split:
  "find P xs = Some x \<Longrightarrow> \<exists>ys zs. xs = ys @ x # zs \<and> P x \<and> (\<forall>y\<in>set ys. \<not> P y)"
proof (induction xs)
  case (Cons a xs)
  show ?case
  proof (cases "P a")
    case True
    with Cons.prems show ?thesis by (intro exI[of _ "[]"] exI[of _ xs]) auto
  next
    case False
    with Cons obtain ys zs where "xs = ys @ x # zs" "P x" "\<forall>y\<in>set ys. \<not> P y" by auto
    with False show ?thesis by (intro exI[of _ "a # ys"] exI[of _ zs]) auto
  qed
qed simp

lemma heap_alloc_reuse:
  assumes "heap_inv s fl live" "find (\<lambda>b. b_size (blocks s b) \<ge> sz) fl = Some b"
  shows "heap_alloc sz al s = Some (ll_remove b s, b + BLOCK_BYTES)"
    "heap_inv (ll_remove b s) (remove1 b fl) (insert b live)" "sz \<le> b_size (blocks s b)"
proof -
  obtain xs ys where fl: "fl = xs @ b # ys" "sz \<le> b_size (blocks s b)" using find_split[OF assms(2)] by auto
  have r: "rep s (xs @ b # ys)" using assms(1) fl by (simp add: heap_inv_def)
  then have d: "b \<notin> set xs" "b \<notin> set ys" "b \<noteq> 0" using rep_nonnull[OF r] by (auto simp: rep_def)
  then have rm: "remove1 b fl = xs @ ys" using fl by (simp add: remove1_append)
  show "heap_alloc sz al s = Some (ll_remove b s, b + BLOCK_BYTES)"
    using first_fit_rep[of s fl sz] assms d by (simp add: heap_alloc_def heap_inv_def)
  have sets: "set (xs @ ys) \<union> insert b live = set fl \<union> live" using fl by auto
  have "set (xs @ ys) \<inter> insert b live = {}" using assms(1) d fl by (auto simp: heap_inv_def)
  then show "heap_inv (ll_remove b s) (remove1 b fl) (insert b live)"
    using assms(1) ll_remove_rep[OF r] unfolding rm heap_inv_def sets by simp
qed (use find_split[OF assms(2)] in auto)

lemma heap_dealloc_inv:
  assumes "heap_inv s fl live" "b \<in> live" "b \<noteq> 0"
  shows "heap_inv (heap_dealloc (b + BLOCK_BYTES) s) (fl @ [b]) (live - {b})"
proof -
  have "unat b + 24 < 2 ^ 64" using heap_inv_block(2,3)[OF assms(1), of b] assms(2) by simp
  then have "unat (b + BLOCK_BYTES) = unat b + 24"
    using unat_add_lem[of b BLOCK_BYTES] by (simp add: BLOCK_BYTES_def)
  then have "b + BLOCK_BYTES \<noteq> 0" by (metis add_is_0 unat_0 zero_neq_numeral)
  then have eq: "heap_dealloc (b + BLOCK_BYTES) s = push_back b s" by (simp add: heap_dealloc_def)
  have sets: "set (fl @ [b]) \<union> (live - {b}) = set fl \<union> live" using assms(2) by auto
  have "rep (push_back b s) (fl @ [b])" "set (fl @ [b]) \<inter> (live - {b}) = {}"
    using assms by (auto simp: heap_inv_def intro!: push_back_rep)
  then show ?thesis using assms(1) unfolding eq heap_inv_def sets by simp
qed


lemma heap_inv_carve:
  assumes inv: "heap_inv s fl live"
    and off: "unat (HEAP_OFFSET s) \<le> unat a" "unat a + 24 + unat sz \<le> unat (HEAP_SIZE s)"
  defines "b \<equiv> HEAP_START s + a"
  defines "t \<equiv> s\<lparr>blocks := (blocks s)(b := \<lparr>b_size = sz, b_next = 0, b_prev = 0\<rparr>), HEAP_OFFSET := a + (24 + sz)\<rparr>"
  shows "heap_inv t fl (insert b live)" "b \<notin> set fl \<union> live" "b \<noteq> 0" "unat b = unat (HEAP_START s) + unat a"
proof -
  have lim: "unat (HEAP_START s) + unat (HEAP_SIZE s) < 2 ^ 64" "HEAP_START s \<noteq> 0" "unat (HEAP_SIZE s) \<le> 2 ^ 62"
    using inv by (auto simp: heap_inv_def)
  show b: "unat b = unat (HEAP_START s) + unat a"
    using unat_add_lem[of "HEAP_START s" a] lim(1) off by (simp add: b_def)
  have "unat (24 + sz) = 24 + unat sz" using unat_add_lem[of 24 sz] off lim(3) by simp
  then have o: "unat (a + (24 + sz)) = unat a + 24 + unat sz"
    using unat_add_lem[of a "24 + sz"] off lim(3) by simp
  have fresh: "c \<noteq> b" "unat c + extent s c \<le> unat b" if "c \<in> set fl \<union> live" for c
    using heap_inv_block(2)[OF inv that] b off by auto
  then show nin: "b \<notin> set fl \<union> live" by blast
  show "b \<noteq> 0" using b lim(2) by (metis add_is_0 unat_0 unat_eq_zero)
  have "rep t fl"
    using inv nin by (simp add: heap_inv_def rep_def t_def)
  moreover have "set fl \<inter> insert b live = {}" using inv nin by (auto simp: heap_inv_def)
  moreover have "unat (HEAP_START t) \<le> unat c \<and> unat c + extent t c \<le> unat (HEAP_START t) + unat (HEAP_OFFSET t)"
    if c: "c \<in> set fl \<union> insert b live" for c
  proof (cases "c = b")
    case True
    then show ?thesis using b o by (simp add: t_def)
  next
    case False
    then have "c \<in> set fl \<union> live" using c by auto
    from heap_inv_block[OF inv this] False show ?thesis using o off by (simp add: t_def)
  qed
  moreover have "disj (unat c) (extent t c) (unat d) (extent t d)"
    if cd: "c \<in> set fl \<union> insert b live" "d \<in> set fl \<union> insert b live" "c \<noteq> d" for c d
  proof (cases "c = b \<or> d = b")
    case True
    then show ?thesis using fresh cd by (auto simp: t_def disj_def)
  next
    case False
    then have "c \<in> set fl \<union> live" "d \<in> set fl \<union> live" using cd by auto
    then show ?thesis using inv cd(3) False by (simp add: heap_inv_def t_def)
  qed
  moreover have "unat (HEAP_OFFSET t) \<le> unat (HEAP_SIZE t)" using o off by (simp add: t_def)
  ultimately show "heap_inv t fl (insert b live)" using lim unfolding heap_inv_def by (simp add: t_def)
qed

lemma max_align: "max (2 ^ k) BLOCK_ALIGN = 2 ^ max k 3" if "k < 64"
proof -
  have *: "(2 :: 64 word) ^ i \<le> 2 ^ j" if "i \<le> j" "j < 64" for i j
    using that by (simp add: word_le_nat_alt unat_power_lower')
  show ?thesis
  proof (cases "k \<le> 3")
    case True
    then show ?thesis using *[of k 3] by (simp add: BLOCK_ALIGN_def max_absorb2)
  next
    case False
    then show ?thesis using *[of 3 k] that by (simp add: BLOCK_ALIGN_def max_absorb1)
  qed
qed


text \<open>A layout the language allows: a power-of-two alignment and a size below the signed limit once padded.\<close>

definition layout_ok :: "usize \<Rightarrow> nat \<Rightarrow> bool" where
  "layout_ok sz k \<longleftrightarrow> k < 62 \<and> unat sz + 2 ^ k \<le> 2 ^ 63"

lemma aligned_offset:
  assumes "heap_inv s fl live" "layout_ok sz k"
  defines "a \<equiv> align_up (HEAP_OFFSET s) (max (2 ^ k) BLOCK_ALIGN)"
  shows "unat (HEAP_OFFSET s) \<le> unat a" "2 ^ max k 3 dvd unat a" "unat (a + (24 + sz)) = unat a + 24 + unat sz"
proof -
  have off: "unat (HEAP_OFFSET s) \<le> 2 ^ 62" using assms(1) by (auto simp: heap_inv_def)
  have k: "k < 62" "unat sz + 2 ^ k \<le> 2 ^ 63" "max k 3 < 64" using assms(2) by (auto simp: layout_ok_def)
  have p: "(2 :: nat) ^ max k 3 \<le> 2 ^ 61" using k by (intro power_increasing) auto
  have a: "a = align_up (HEAP_OFFSET s) (2 ^ max k 3)" using max_align[of k] k by (simp add: a_def)
  have "unat (HEAP_OFFSET s) + 2 ^ max k 3 \<le> 2 ^ 64" using off p by simp
  note al = align_up_unat[OF this k(3), folded a]
  show "unat (HEAP_OFFSET s) \<le> unat a" "2 ^ max k 3 dvd unat a" by (fact al)+
  have "unat (24 + sz) = 24 + unat sz" using unat_add_lem[of 24 sz] k by simp
  moreover have "unat a < 2 ^ 62 + 2 ^ 61" using al(2) off p by linarith
  ultimately show "unat (a + (24 + sz)) = unat a + 24 + unat sz"
    using unat_add_lem[of a "24 + sz"] k by simp
qed

lemma heap_alloc_carve:
  assumes "heap_inv s fl live" "layout_ok sz k" "find (\<lambda>b. b_size (blocks s b) \<ge> sz) fl = None"
  defines "a \<equiv> align_up (HEAP_OFFSET s) (max (2 ^ k) BLOCK_ALIGN)"
  defines "b \<equiv> HEAP_START s + a"
  defines "t \<equiv> s\<lparr>blocks := (blocks s)(b := \<lparr>b_size = sz, b_next = 0, b_prev = 0\<rparr>), HEAP_OFFSET := a + (24 + sz)\<rparr>"
  shows "heap_alloc sz (2 ^ k) s =
    Some (if unat (HEAP_SIZE s) < unat a + 24 + unat sz then (s, 0) else (t, b + BLOCK_BYTES))"
proof -
  have "HEAP_START s \<noteq> 0" "rep s fl" using assms(1) by (auto simp: heap_inv_def)
  moreover have "HEAP_SIZE s < a + (24 + sz) \<longleftrightarrow> unat (HEAP_SIZE s) < unat a + 24 + unat sz"
    using aligned_offset(3)[OF assms(1,2)] by (simp add: word_less_nat_alt a_def)
  ultimately show ?thesis using first_fit_rep[of s fl sz] assms(3)
    by (simp add: heap_alloc_def Let_def BLOCK_BYTES_def a_def b_def t_def)
qed

text \<open>Allocation returns: the null pointer, changing nothing, or a block of at least the size asked for.\<close>

lemma heap_alloc_inv:
  assumes "heap_inv s fl live" "layout_ok sz k"
  shows "heap_alloc sz (2 ^ k) s = Some (s, 0) \<or>
    (\<exists>t b fl'. heap_alloc sz (2 ^ k) s = Some (t, b + BLOCK_BYTES) \<and> heap_inv t fl' (insert b live) \<and>
       b \<notin> live \<and> sz \<le> b_size (blocks t b) \<and> (\<forall>c\<in>live. b_size (blocks t c) = b_size (blocks s c)))"
proof (cases "find (\<lambda>b. b_size (blocks s b) \<ge> sz) fl")
  case (Some b)
  note r = heap_alloc_reuse[OF assms(1) Some]
  have "b \<in> set fl" using find_split[OF Some] by auto
  then have "b \<notin> live" using assms(1) by (auto simp: heap_inv_def)
  then show ?thesis using r by (intro disjI2 exI[of _ "ll_remove b s"] exI[of _ b] exI[of _ "remove1 b fl"]) simp
next
  case None
  let ?a = "align_up (HEAP_OFFSET s) (max (2 ^ k) BLOCK_ALIGN)"
  note c = heap_alloc_carve[OF assms None]
  show ?thesis
  proof (cases "unat (HEAP_SIZE s) < unat ?a + 24 + unat sz")
    case True
    then show ?thesis using c by simp
  next
    case False
    then have fit: "unat ?a + 24 + unat sz \<le> unat (HEAP_SIZE s)" by simp
    note v = heap_inv_carve[OF assms(1) aligned_offset(1)[OF assms] fit]
    have "b_size (((blocks s)(HEAP_START s + ?a := \<lparr>b_size = sz, b_next = 0, b_prev = 0\<rparr>)) c) = b_size (blocks s c)"
      if "c \<in> live" for c using v(2) that by auto
    then show ?thesis using c False v(1,2)
      by (intro disjI2 exI[of _ "s\<lparr>blocks := (blocks s)(HEAP_START s + ?a := \<lparr>b_size = sz, b_next = 0, b_prev = 0\<rparr>),
          HEAP_OFFSET := ?a + (24 + sz)\<rparr>"] exI[of _ "HEAP_START s + ?a"] exI[of _ fl]) simp
  qed
qed

lemma sbrk_inv:
  assumes "heap_inv s fl live" "sbrk inc s = Some (t, p)" "p \<noteq> 0" "unat (HEAP_OFFSET s) \<le> unat (HEAP_OFFSET t)"
  shows "heap_inv t fl live" "p = brk_current s" "HEAP_OFFSET t = HEAP_OFFSET s + inc"
proof -
  have t: "t = s\<lparr>HEAP_OFFSET := HEAP_OFFSET s + inc\<rparr>" "p = HEAP_START s + HEAP_OFFSET s"
    "\<not> HEAP_OFFSET s + inc > HEAP_SIZE s" "HEAP_START s \<noteq> 0"
    using assms(2,3) by (auto simp: sbrk_def Let_def split: if_splits)
  then show "p = brk_current s" "HEAP_OFFSET t = HEAP_OFFSET s + inc" by (simp_all add: brk_current_def)
  have "unat (HEAP_OFFSET t) \<le> unat (HEAP_SIZE s)" using t by (simp add: word_le_nat_alt[symmetric] not_less)
  moreover have "\<forall>b\<in>set fl \<union> live. unat (HEAP_START s) \<le> unat b \<and>
      unat b + extent s b \<le> unat (HEAP_START s) + unat (HEAP_OFFSET t)"
  proof
    fix b assume "b \<in> set fl \<union> live"
    from heap_inv_block[OF assms(1) this] assms(4)
    show "unat (HEAP_START s) \<le> unat b \<and> unat b + extent s b \<le> unat (HEAP_START s) + unat (HEAP_OFFSET t)" by simp
  qed
  ultimately show "heap_inv t fl live" using assms(1) t(1) by (simp add: heap_inv_def rep_def)
qed


section \<open>The contract of the free list\<close>

text \<open>
  What the allocator relies on: a queue of non-null addresses to which an address is appended at
  the back, and from which the front or any member is taken out.
\<close>

locale address_queue =
  fixes holds :: "'s \<Rightarrow> usize list \<Rightarrow> bool"
    and push :: "usize \<Rightarrow> 's \<Rightarrow> 's"
    and pop :: "'s \<Rightarrow> 's \<times> usize"
    and unlink :: "usize \<Rightarrow> 's \<Rightarrow> 's"
  assumes push: "holds s ps \<Longrightarrow> b \<noteq> 0 \<Longrightarrow> b \<notin> set ps \<Longrightarrow> holds (push b s) (ps @ [b])"
    and pop: "holds s (b # ps) \<Longrightarrow> holds (fst (pop s)) ps \<and> snd (pop s) = b"
    and unlink: "holds s (xs @ b # ys) \<Longrightarrow> holds (unlink b s) (xs @ ys)"
    and members: "holds s ps \<Longrightarrow> 0 \<notin> set ps \<and> distinct ps"
begin

lemma push_unlink:
  assumes "holds s ps" "b \<noteq> 0" "b \<notin> set ps"
  shows "holds (unlink b (push b s)) ps"
  using unlink[of "push b s" ps b "[]"] push[OF assms] by simp

lemma push_all: "holds s ps \<Longrightarrow> distinct (ps @ bs) \<Longrightarrow> 0 \<notin> set bs \<Longrightarrow> holds (fold push bs s) (ps @ bs)"
proof (induction bs arbitrary: s ps)
  case (Cons b bs)
  then have "holds (push b s) (ps @ [b])" by (intro push) auto
  from Cons.IH[OF this] Cons.prems show ?case by simp
qed simp

text \<open>Addresses come out in the order they went in.\<close>

lemma fifo:
  assumes "holds s []" "distinct (b # bs)" "0 \<notin> set (b # bs)"
  shows "snd (pop (fold push (b # bs) s)) = b \<and> holds (fst (pop (fold push (b # bs) s))) bs"
  using pop[of "fold push (b # bs) s" b bs] push_all[OF assms(1), of "b # bs"] assms by simp

end

lemma rep_distinct: "rep s ps \<Longrightarrow> distinct ps"
  by (simp add: rep_def)

interpretation fl: address_queue rep push_back pop_front ll_remove
  by unfold_locales (simp_all add: push_back_rep pop_front_rep ll_remove_rep rep_nonnull rep_distinct)

section \<open>Defects\<close>

text \<open>
  \<open>alloc\<close> aligns the header and not the payload behind it: from a page-aligned heap, a fresh
  page-aligned allocation (as for a kernel stack) starts 24 bytes into a page.
\<close>

theorem alloc_payload_misaligned:
  assumes "heap_inv s [] live" "layout_ok sz 12" "unat (HEAP_START s) mod 4096 = 0"
    "heap_alloc sz (2 ^ 12) s = Some (t, p)" "p \<noteq> 0"
  shows "unat p mod 4096 = 24"
proof -
  let ?a = "align_up (HEAP_OFFSET s) (max (2 ^ 12) BLOCK_ALIGN)"
  have fit: "unat ?a + 24 + unat sz \<le> unat (HEAP_SIZE s)" and p: "p = HEAP_START s + ?a + BLOCK_BYTES"
    using heap_alloc_carve[OF assms(1,2)] assms(4,5) by (auto split: if_splits)
  note v = heap_inv_carve[OF assms(1) aligned_offset(1)[OF assms(1,2)] fit]
  have "unat (HEAP_START s) + unat (HEAP_SIZE s) < 2 ^ 64" using assms(1) by (simp add: heap_inv_def)
  then have "unat p = unat (HEAP_START s) + unat ?a + 24"
    using v(4) fit unat_add_lem[of "HEAP_START s + ?a" BLOCK_BYTES] by (simp add: p BLOCK_BYTES_def)
  moreover have "unat ?a mod 4096 = 0" using aligned_offset(2)[OF assms(1,2)] by (simp add: max_def)
  ultimately show ?thesis using assms(3) by (simp add: mod_add_eq[symmetric])
qed

text \<open>
  The heap takes its memory from the boot loader's map without telling the frame allocator: when the
  entry that holds the heap also holds the bitmap, every frame of the heap above the first megabyte that no reserved entry
  touches is a free frame, and a page table placed in it overwrites kernel objects.
\<close>

theorem heap_frames_are_free:
  assumes "find (\<lambda>e. e_usable e \<and> e_length e > 16 * 1024 * 1024) mm = Some e"
    "find (\<lambda>e. e_usable e \<and> e_length e \<ge> bitmap_size mm * 8) mm = Some e"
    "e_base e mod PAGE_SIZE = 0" "e_base e + e_length e + HHDM_BASE < 2 ^ 64"
    "init_allocator mm h0 = Some h" "frame_init mm = Some s"
    "e_base e + bitmap_size_bytes mm \<le> f * PAGE_SIZE" "f * PAGE_SIZE + PAGE_SIZE \<le> e_base e + e_length e"
    "256 \<le> f" "f < total_frames mm" "f \<notin> reserved_frames mm"
  shows "f \<in> free_frames s" "unat (HEAP_START h) \<le> f * PAGE_SIZE + HHDM_BASE"
    "f * PAGE_SIZE + PAGE_SIZE + HHDM_BASE \<le> unat (HEAP_START h) + unat (HEAP_SIZE h)"
proof -
  obtain q where q: "e_base e = q * PAGE_SIZE" using assms(3) by (metis div_mult_mod_eq add_0_right)
  have le: "bitmap_size_bytes mm \<le> e_length e" using assms(7,8) by simp
  have h: "HEAP_START h = of_nat (e_base e + bitmap_size_bytes mm + HHDM_BASE)"
    "HEAP_SIZE h = of_nat (e_length e - bitmap_size_bytes mm)"
    using assms(1,5) by (auto simp: init_allocator_def Let_def split: if_splits)
  have "unat (HEAP_START h) = e_base e + bitmap_size_bytes mm + HHDM_BASE"
    "unat (HEAP_SIZE h) = e_length e - bitmap_size_bytes mm"
    unfolding h unat_of_nat using assms(4) le by simp_all
  then show "unat (HEAP_START h) \<le> f * PAGE_SIZE + HHDM_BASE"
    "f * PAGE_SIZE + PAGE_SIZE + HHDM_BASE \<le> unat (HEAP_START h) + unat (HEAP_SIZE h)"
    using assms(7,8) le by simp_all
  obtain n where n: "(bitmap_size mm * 8 + PAGE_SIZE - 1) div PAGE_SIZE = n" "bitmap_size_bytes mm = n * PAGE_SIZE"
    by (simp add: bitmap_size_bytes_def PAGE_SIZE_def)
  have P: "0 < PAGE_SIZE" by (simp add: PAGE_SIZE_def)
  have "(q + n) * PAGE_SIZE \<le> f * PAGE_SIZE" using assms(7) unfolding q n(2) by (simp only: add_mult_distrib)
  then have qn: "q + n \<le> f" using P by simp
  have q': "e_base e div PAGE_SIZE = q" using q P by simp
  have "f \<notin> bitmap_frames mm e" using qn unfolding bitmap_frames_def n(1) q' by (simp add: frames_from_def)
  moreover have "f \<in> usable_frames mm"
  proof -
    have "(f + 1 - q) * PAGE_SIZE \<le> e_length e"
      using assms(8) unfolding q by (simp add: diff_mult_distrib add_mult_distrib)
    then have "f + 1 - q \<le> e_length e div PAGE_SIZE" using P by (simp only: less_eq_div_iff_mult_less_eq)
    then have "f \<in> frames_from (e_base e div PAGE_SIZE) (e_length e div PAGE_SIZE)"
      using qn unfolding q' frames_from_def by simp
    moreover have "e \<in> set mm" "e_usable e" using find_split[OF assms(1)] by auto
    ultimately show ?thesis by (auto simp: usable_frames_def)
  qed
  moreover obtain s' where "frame_init mm = Some s'" "free_frames s' =
      {f \<in> usable_frames mm. f < total_frames mm} - reserved_frames mm - {..<256} - bitmap_frames mm e"
    by (rule frame_init_Some[OF assms(2)])
  moreover have "f \<notin> {..<256}" using assms(9) unfolding lessThan_iff by linarith
  ultimately show "f \<in> free_frames s" using assms(6,10,11) by (simp only: Diff_iff mem_Collect_eq option.inject) simp
qed

section \<open>Properties\<close>

text \<open>
  C23: for every allowed layout the kernel allocator returns; it returns null and
  changes nothing, or a block of at least the size asked for that lies in the heap and overlaps no live block, neither its
  header nor its payload. Freeing that block again keeps the heap well formed, with the block at the end of the free list.
\<close>

theorem kernel_heap_disjoint:
  assumes "heap_inv s fl live" "layout_ok sz k"
  shows "\<exists>t p. heap_alloc sz (2 ^ k) s = Some (t, p) \<and>
    (p = 0 \<longrightarrow> t = s) \<and>
    (p \<noteq> 0 \<longrightarrow> (\<exists>b fl'. p = b + BLOCK_BYTES \<and> heap_inv t fl' (insert b live) \<and>
       unat p + unat sz \<le> unat (HEAP_START t) + unat (HEAP_SIZE t) \<and>
       (\<forall>c\<in>live. disj (unat b) (24 + unat sz) (unat c) (24 + unat (b_size (blocks s c)))) \<and>
       heap_inv (heap_dealloc p t) (fl' @ [b]) live))"
proof -
  consider "heap_alloc sz (2 ^ k) s = Some (s, 0)"
    | t b fl' where "heap_alloc sz (2 ^ k) s = Some (t, b + BLOCK_BYTES)" "heap_inv t fl' (insert b live)"
       "b \<notin> live" "sz \<le> b_size (blocks t b)" "\<forall>c\<in>live. b_size (blocks t c) = b_size (blocks s c)"
    using heap_alloc_inv[OF assms] by blast
  then show ?thesis
  proof cases
    case 1
    then show ?thesis by simp
  next
    case 2
    have bl: "b \<in> set fl' \<union> insert b live" by simp
    note bb = heap_inv_block[OF 2(2) bl]
    have szb: "unat sz \<le> unat (b_size (blocks t b))" using 2(4) by (simp add: word_le_nat_alt)
    have un: "unat (b + BLOCK_BYTES) = unat b + 24"
      using bb unat_add_lem[of b BLOCK_BYTES] by (simp add: BLOCK_BYTES_def)
    have os: "unat (HEAP_OFFSET t) \<le> unat (HEAP_SIZE t)" "HEAP_START t \<noteq> 0" using 2(2) by (auto simp: heap_inv_def)
    have b0: "b \<noteq> 0" using bb(1) os(2) by (metis le_zero_eq unat_0 unat_eq_zero)
    have "disj (unat b) (24 + unat sz) (unat c) (24 + unat (b_size (blocks s c)))" if c: "c \<in> live" for c
    proof -
      have "b \<noteq> c" using c 2(3) by auto
      then have "disj (unat b) (extent t b) (unat c) (extent t c)" using 2(2) c by (simp add: heap_inv_def)
      then show ?thesis using 2(5) c szb by (auto simp: disj_def)
    qed
    moreover have "heap_inv (heap_dealloc (b + BLOCK_BYTES) t) (fl' @ [b]) live"
      using heap_dealloc_inv[OF 2(2) _ b0] 2(3) by simp
    moreover have "unat (b + BLOCK_BYTES) + unat sz \<le> unat (HEAP_START t) + unat (HEAP_SIZE t)"
      using un bb(2) szb os(1) by linarith
    ultimately show ?thesis using 2(1,2) un by (metis add_is_0 unat_0 zero_neq_numeral)
  qed
qed

theorem kernel_heap_disjoint_witness:
  "\<exists>t p. heap_alloc 100 (2 ^ 4) \<lparr>HEAP_START = 0x1000, HEAP_SIZE = 0x10000, HEAP_OFFSET = 0,
       fl_head = 0, fl_tail = 0, fl_count = 0, blocks = (\<lambda>_. \<lparr>b_size = 0, b_next = 0, b_prev = 0\<rparr>)\<rparr> = Some (t, p)"
proof -
  let ?s = "\<lparr>HEAP_START = 0x1000, HEAP_SIZE = 0x10000, HEAP_OFFSET = 0,
       fl_head = 0, fl_tail = 0, fl_count = 0, blocks = (\<lambda>_. \<lparr>b_size = 0, b_next = 0, b_prev = 0\<rparr>)\<rparr>"
  have "heap_inv ?s [] {}" by (simp add: heap_inv_def rep_def)
  moreover have "layout_ok 100 4" by (simp add: layout_ok_def)
  ultimately show ?thesis using kernel_heap_disjoint[of ?s "[]" "{}" 100 4] by blast
qed

text \<open>
  C24: the intrusive doubly linked free list implements a queue: blocks pushed at the back
  come out at the front in the same order, and unlinking a block anywhere in the list leaves the others in order.
\<close>

theorem free_list_fifo:
  "(rep s [] \<and> distinct (b # bs) \<and> 0 \<notin> set (b # bs) \<longrightarrow>
     snd (pop_front (fold push_back (b # bs) s)) = b \<and> rep (fst (pop_front (fold push_back (b # bs) s))) bs) \<and>
   (rep s (xs @ c # ys) \<longrightarrow> rep (ll_remove c s) (xs @ ys))"
  using fl.fifo[of s b bs] fl.unlink[of s xs c ys] by blast

theorem free_list_fifo_witness:
  "snd (pop_front (fold push_back [0x40, 0x80] (ll_new \<lparr>HEAP_START = 0x1000, HEAP_SIZE = 0x10000, HEAP_OFFSET = 0,
       fl_head = 7, fl_tail = 7, fl_count = 7, blocks = (\<lambda>_. \<lparr>b_size = 0, b_next = 0, b_prev = 0\<rparr>)\<rparr>))) = 0x40"
proof -
  let ?s = "ll_new \<lparr>HEAP_START = 0x1000, HEAP_SIZE = 0x10000, HEAP_OFFSET = 0,
       fl_head = 7, fl_tail = 7, fl_count = 7, blocks = (\<lambda>_. \<lparr>b_size = 0, b_next = 0, b_prev = 0\<rparr>)\<rparr>"
  have "rep ?s [] \<and> distinct [0x40, 0x80 :: usize] \<and> 0 \<notin> set [0x40, 0x80 :: usize]"
    by (simp add: rep_def ll_new_def)
  then show ?thesis using free_list_fifo[of ?s "0x40" "[0x80]"] by blast
qed

end
