(* ===== verification/Paging.thy ===== *)
theory Paging
  imports FrameAlloc
begin

text \<open>
  The virtual memory manager of the kernel: the four-level page tables of
  \<open>src/memory/src/vmm.rs\<close>, the index functions of \<open>src/memory/src/addr.rs\<close> and the device window of
  \<open>src/memory/src/mmio.rs\<close>. Physical memory seen as page tables is a function from the address of a table to its
  entries; frames for new tables come from the frame allocator. The translation cache of the processor is not modelled.
\<close>

section \<open>Definitions\<close>

subsection \<open>Addresses and entries\<close>

type_synonym virt_addr = "64 word"
type_synonym pte = "64 word"

definition HHDM_OFFSET :: "64 word" where "HHDM_OFFSET = 0xFFFF800000000000"

definition ADDR_MASK :: "64 word" where "ADDR_MASK = 0x000FFFFFFFFFF000"

definition PRESENT :: pte where "PRESENT = push_bit 0 1"
definition WRITABLE :: pte where "WRITABLE = push_bit 1 1"
definition USER :: pte where "USER = push_bit 2 1"
definition WRITE_THROUGH :: pte where "WRITE_THROUGH = push_bit 3 1"
definition NO_CACHE :: pte where "NO_CACHE = push_bit 4 1"

definition page_offset :: "virt_addr \<Rightarrow> nat" where "page_offset v = unat (v AND 0xFFF)"
definition p4_index :: "virt_addr \<Rightarrow> nat" where "p4_index v = unat (drop_bit 39 v AND 0x1FF)"
definition p3_index :: "virt_addr \<Rightarrow> nat" where "p3_index v = unat (drop_bit 30 v AND 0x1FF)"
definition p2_index :: "virt_addr \<Rightarrow> nat" where "p2_index v = unat (drop_bit 21 v AND 0x1FF)"
definition p1_index :: "virt_addr \<Rightarrow> nat" where "p1_index v = unat (drop_bit 12 v AND 0x1FF)"

definition is_present :: "pte \<Rightarrow> bool" where "is_present e \<longleftrightarrow> e AND PRESENT \<noteq> 0"

definition set_addr :: "phys_addr \<Rightarrow> 64 word \<Rightarrow> pte" where "set_addr a flags = (a AND ADDR_MASK) OR flags"

definition get_addr :: "pte \<Rightarrow> phys_addr" where "get_addr e = e AND ADDR_MASK"

subsection \<open>The state\<close>

record vmm =
  pt :: "64 word \<Rightarrow> nat \<Rightarrow> pte"
  frames :: frame_allocator
  KERNEL_PAGE_TABLE :: "64 word"
  cr3 :: "64 word"
  MMIO_LOWER :: "64 word"
  MMIO_UPPER :: "64 word"
  MMIO_CURRENT :: "64 word"

definition set_entry :: "64 word \<Rightarrow> nat \<Rightarrow> pte \<Rightarrow> vmm \<Rightarrow> vmm" where
  "set_entry p i e s = s\<lparr>pt := (pt s)(p := (pt s p)(i := e))\<rparr>"

definition zero_table :: "64 word \<Rightarrow> vmm \<Rightarrow> vmm" where
  "zero_table p s = s\<lparr>pt := (pt s)(p := (\<lambda>_. 0))\<rparr>"

subsection \<open>The mapper\<close>

text \<open>The entry \<open>i\<close> of the table at \<open>p\<close> is the argument \<open>entry\<close> of the source.\<close>

definition get_or_create_table :: "64 word \<Rightarrow> nat \<Rightarrow> vmm \<Rightarrow> vmm \<times> 64 word option" where
  "get_or_create_table p i s =
     (if is_present (pt s p i) then (s, Some (get_addr (pt s p i) OR HHDM_OFFSET))
      else case alloc_frame (frames s) of
             (fs, None) \<Rightarrow> (s\<lparr>frames := fs\<rparr>, None)
           | (fs, Some frame) \<Rightarrow>
               (let s = zero_table (frame OR HHDM_OFFSET) (s\<lparr>frames := fs\<rparr>);
                    s = set_entry p i (set_addr frame (PRESENT OR WRITABLE OR USER)) s
                in (s, Some (frame OR HHDM_OFFSET))))"

definition map_page :: "64 word \<Rightarrow> virt_addr \<Rightarrow> phys_addr \<Rightarrow> 64 word \<Rightarrow> vmm \<Rightarrow> vmm \<times> unit option" where
  "map_page pml4 virt phys flags s =
     (case get_or_create_table (pml4 OR HHDM_OFFSET) (p4_index virt) s of
        (s, None) \<Rightarrow> (s, None)
      | (s, Some p3) \<Rightarrow>
      (case get_or_create_table p3 (p3_index virt) s of
        (s, None) \<Rightarrow> (s, None)
      | (s, Some p2) \<Rightarrow>
      (case get_or_create_table p2 (p2_index virt) s of
        (s, None) \<Rightarrow> (s, None)
      | (s, Some p1) \<Rightarrow>
          (set_entry p1 (p1_index virt) (set_addr phys (flags OR PRESENT)) s, Some ()))))"

definition unmap_page :: "64 word \<Rightarrow> virt_addr \<Rightarrow> vmm \<Rightarrow> vmm \<times> phys_addr option" where
  "unmap_page pml4 virt s = (
     let p4 = pml4 OR HHDM_OFFSET in
     if \<not> is_present (pt s p4 (p4_index virt)) then (s, None)
     else let p3 = get_addr (pt s p4 (p4_index virt)) OR HHDM_OFFSET in
     if \<not> is_present (pt s p3 (p3_index virt)) then (s, None)
     else let p2 = get_addr (pt s p3 (p3_index virt)) OR HHDM_OFFSET in
     if \<not> is_present (pt s p2 (p2_index virt)) then (s, None)
     else let p1 = get_addr (pt s p2 (p2_index virt)) OR HHDM_OFFSET; e = pt s p1 (p1_index virt) in
     if \<not> is_present e then (s, None)
     else (set_entry p1 (p1_index virt) 0 s, Some (get_addr e)))"

fun map_pages :: "64 word \<Rightarrow> virt_addr \<Rightarrow> phys_addr \<Rightarrow> 64 word \<Rightarrow> nat \<Rightarrow> vmm \<Rightarrow> vmm \<times> unit option" where
  "map_pages pml4 virt phys flags 0 s = (s, Some ())"
| "map_pages pml4 virt phys flags (Suc n) s =
     (case map_page pml4 virt phys flags s of
        (s, None) \<Rightarrow> (s, None)
      | (s, Some _) \<Rightarrow> map_pages pml4 (virt + 0x1000) (phys + 0x1000) flags n s)"

definition map_range :: "64 word \<Rightarrow> virt_addr \<Rightarrow> phys_addr \<Rightarrow> nat \<Rightarrow> 64 word \<Rightarrow> vmm \<Rightarrow> vmm \<times> unit option" where
  "map_range pml4 virt phys sz flags s = map_pages pml4 virt phys flags ((sz + 0xFFF) div 0x1000) s"

fun unmap_pages :: "64 word \<Rightarrow> virt_addr \<Rightarrow> nat \<Rightarrow> vmm \<Rightarrow> vmm" where
  "unmap_pages pml4 virt 0 s = s"
| "unmap_pages pml4 virt (Suc n) s = unmap_pages pml4 (virt + 0x1000) n (fst (unmap_page pml4 virt s))"

definition unmap_range :: "64 word \<Rightarrow> virt_addr \<Rightarrow> nat \<Rightarrow> vmm \<Rightarrow> vmm" where
  "unmap_range pml4 virt sz s = unmap_pages pml4 virt ((sz + 0xFFF) div 0x1000) s"

text \<open>The entries the loop \<open>for i in 256..512\<close> copies from the kernel's table.\<close>

definition kernel_half :: "nat list" where "kernel_half = [256..<512]"

definition create_user_pml4 :: "vmm \<Rightarrow> vmm \<times> 64 word option" where
  "create_user_pml4 s =
     (case alloc_frame (frames s) of
        (fs, None) \<Rightarrow> (s\<lparr>frames := fs\<rparr>, None)
      | (fs, Some frame) \<Rightarrow>
          (let pml4 = frame OR HHDM_OFFSET;
               s = zero_table pml4 (s\<lparr>frames := fs\<rparr>);
               kernel_pml4 = KERNEL_PAGE_TABLE s OR HHDM_OFFSET;
               s = fold (\<lambda>i s. set_entry pml4 i (pt s kernel_pml4 i) s) kernel_half s
           in (s, Some frame)))"

definition create_user_page_table :: "vmm \<Rightarrow> vmm \<times> 64 word option" where
  "create_user_page_table s =
     (case alloc_frame (frames s) of
        (fs, None) \<Rightarrow> (s\<lparr>frames := fs\<rparr>, None)
      | (fs, Some frame) \<Rightarrow>
          (zero_table (frame OR HHDM_OFFSET) (s\<lparr>frames := fs\<rparr>), Some (frame OR HHDM_OFFSET)))"

definition switch_page_table :: "64 word \<Rightarrow> vmm \<Rightarrow> vmm" where
  "switch_page_table pml4 s = s\<lparr>cr3 := (if pml4 \<ge> HHDM_OFFSET then pml4 - HHDM_OFFSET else pml4)\<rparr>"

definition get_current_page_table :: "vmm \<Rightarrow> 64 word" where
  "get_current_page_table s = cr3 s AND ADDR_MASK"

definition get_page_table :: "vmm \<Rightarrow> 64 word" where
  "get_page_table s = KERNEL_PAGE_TABLE s"

text \<open>\<open>VMM::init\<close>; None is the panic of the frame allocator.\<close>

definition VMM_init :: "memmap_entry list \<Rightarrow> vmm \<Rightarrow> vmm option" where
  "VMM_init mm s = do {
     fs \<leftarrow> frame_init mm;
     Some (s\<lparr>frames := fs, KERNEL_PAGE_TABLE := cr3 s AND ADDR_MASK\<rparr>) }"

subsection \<open>The device window\<close>

definition mmio_map_range :: "64 word \<Rightarrow> 64 word \<Rightarrow> vmm \<Rightarrow> vmm" where
  "mmio_map_range lower upper s = s\<lparr>MMIO_LOWER := lower, MMIO_UPPER := upper, MMIO_CURRENT := lower\<rparr>"

fun map_mmio_pages :: "64 word \<Rightarrow> 64 word \<Rightarrow> 64 word \<Rightarrow> nat \<Rightarrow> nat \<Rightarrow> vmm \<Rightarrow> vmm \<times> unit option" where
  "map_mmio_pages pml4 virt phys i 0 s = (s, Some ())"
| "map_mmio_pages pml4 virt phys i (Suc n) s =
     (case map_page pml4 (virt + of_nat i * 0x1000) (phys + of_nat i * 0x1000)
             (WRITABLE OR NO_CACHE OR WRITE_THROUGH) s of
        (s, None) \<Rightarrow> (s, None)
      | (s, Some _) \<Rightarrow> map_mmio_pages pml4 virt phys (i + 1) n s)"

datatype mmio_error = Exhausted | MapFailed

definition map_mmio :: "64 word \<Rightarrow> 64 word \<Rightarrow> 64 word \<Rightarrow> vmm \<Rightarrow> vmm \<times> (mmio_error + 64 word)" where
  "map_mmio pml4 phys sz s = (
     let pages_needed = (sz + 0xFFF) div 0x1000; total_size = pages_needed * 0x1000 in
     if MMIO_CURRENT s + total_size > MMIO_UPPER s then (s, Inl Exhausted)
     else let virt = MMIO_CURRENT s in
       case map_mmio_pages pml4 virt phys 0 (unat pages_needed) s of
         (s, None) \<Rightarrow> (s, Inl MapFailed)
       | (s, Some _) \<Rightarrow> (s\<lparr>MMIO_CURRENT := MMIO_CURRENT s + total_size\<rparr>, Inr virt))"

definition mmio_remaining :: "vmm \<Rightarrow> 64 word" where
  "mmio_remaining s = (if MMIO_CURRENT s \<le> MMIO_UPPER s then MMIO_UPPER s - MMIO_CURRENT s else 0)"

section \<open>Entries and addresses\<close>

lemmas flag_defs = PRESENT_def WRITABLE_def USER_def NO_CACHE_def WRITE_THROUGH_def

lemma is_present_bit: "is_present e \<longleftrightarrow> bit e 0"
  by (simp add: is_present_def PRESENT_def and_exp_eq_0_iff_not_bit[of e 0, simplified])

lemma is_present_or_PRESENT [simp]: "is_present (x OR PRESENT)" "is_present (x OR (y OR PRESENT))"
  by (simp_all add: is_present_bit bit_simps PRESENT_def)

lemma not_present_0 [simp]: "\<not> is_present 0"
  by (simp add: is_present_def)

lemma present_set_addr [simp]: "is_present (set_addr a (flags OR PRESENT))"
  by (simp add: set_addr_def)

lemma present_table [simp]: "is_present (set_addr a (PRESENT OR WRITABLE OR USER))"
  by (simp add: set_addr_def is_present_bit bit_simps flag_defs)

lemma bit_ADDR_MASK: "bit ADDR_MASK n \<longleftrightarrow> 12 \<le> n \<and> n < 52"
proof -
  have eq: "ADDR_MASK = push_bit 12 (mask 40)" by (simp add: ADDR_MASK_def mask_eq_exp_minus_1 push_bit_eq_mult)
  show ?thesis unfolding eq by (auto simp: bit_simps)
qed

lemma bit_HHDM: "bit HHDM_OFFSET n \<longleftrightarrow> 47 \<le> n \<and> n < 64"
proof -
  have eq: "HHDM_OFFSET = push_bit 47 (mask 17)" by (simp add: HHDM_OFFSET_def mask_eq_exp_minus_1 push_bit_eq_mult)
  show ?thesis unfolding eq by (auto simp: bit_simps)
qed

text \<open>Frames below \<open>2^35\<close>, that is 128 TiB, have addresses that the direct map keeps apart.\<close>

lemma frame_bits:
  assumes "unat a mod PAGE_SIZE = 0" "unat a div PAGE_SIZE < 2 ^ 35" "bit a n"
  shows "12 \<le> n" "n < 47"
proof -
  have a: "unat a = 2 ^ 12 * (unat a div 2 ^ 12)" using assms(1) by (auto simp: PAGE_SIZE_def)
  have b: "bit (unat a) n" using assms(3) by (simp add: bit_unsigned_iff)
  have "unat a < 2 ^ 47" using assms(1,2) by (auto simp: PAGE_SIZE_def)
  then have "take_bit 47 (unat a) = unat a" by (simp add: take_bit_nat_eq_self)
  then show "n < 47" using b by (metis bit_take_bit_iff)
  have "push_bit 12 (unat a div 2 ^ 12) = unat a" using a by (simp add: push_bit_eq_mult)
  then show "12 \<le> n" using b by (metis bit_push_bit_iff)
qed

lemma get_addr_set_addr:
  "get_addr (set_addr a flags) = (a AND ADDR_MASK) OR (flags AND ADDR_MASK)"
  unfolding get_addr_def set_addr_def by (rule bit_word_eqI) (auto simp: bit_simps)

lemma frame_and_mask:
  assumes "unat a mod PAGE_SIZE = 0" "unat a div PAGE_SIZE < 2 ^ 35"
  shows "a AND ADDR_MASK = a"
proof (rule bit_word_eqI)
  fix n
  show "bit (a AND ADDR_MASK) n = bit a n" using frame_bits[OF assms, of n] by (auto simp: bit_simps bit_ADDR_MASK)
qed

lemma table_flags_mask: "(PRESENT OR WRITABLE OR USER) AND ADDR_MASK = 0"
  by (simp add: flag_defs ADDR_MASK_def)

lemma get_addr_table:
  assumes "unat a mod PAGE_SIZE = 0" "unat a div PAGE_SIZE < 2 ^ 35"
  shows "get_addr (set_addr a (PRESENT OR WRITABLE OR USER)) = a"
  by (simp add: get_addr_set_addr frame_and_mask[OF assms] table_flags_mask)

lemma direct_map_inj:
  assumes "unat a mod PAGE_SIZE = 0" "unat a div PAGE_SIZE < 2 ^ 35"
    "unat b mod PAGE_SIZE = 0" "unat b div PAGE_SIZE < 2 ^ 35" "a OR HHDM_OFFSET = b OR HHDM_OFFSET"
  shows "a = b"
proof (rule bit_word_eqI)
  fix n
  have "bit a n \<longleftrightarrow> bit (a OR HHDM_OFFSET) n \<and> n < 47"
    using frame_bits[OF assms(1,2), of n] by (auto simp: bit_simps bit_HHDM)
  moreover have "bit b n \<longleftrightarrow> bit (b OR HHDM_OFFSET) n \<and> n < 47"
    using frame_bits[OF assms(3,4), of n] by (auto simp: bit_simps bit_HHDM)
  ultimately show "bit a n = bit b n" using assms(5) by simp
qed

lemma index_less: "p4_index v < 512" "p3_index v < 512" "p2_index v < 512" "p1_index v < 512"
proof -
  have "unat (w AND 0x1FF) < 512" for w :: "64 word"
    using word_and_le1[of w "0x1FF"] by (simp add: word_le_nat_alt)
  then show "p4_index v < 512" "p3_index v < 512" "p2_index v < 512" "p1_index v < 512"
    by (simp_all add: p4_index_def p3_index_def p2_index_def p1_index_def)
qed


section \<open>Walking the tables\<close>

text \<open>The table reached from \<open>p\<close> along a list of indices, and the present entry below it.\<close>

fun walk :: "vmm \<Rightarrow> 64 word \<Rightarrow> nat list \<Rightarrow> 64 word option" where
  "walk s p [] = Some p"
| "walk s p (i # is) =
     (if is_present (pt s p i) then walk s (get_addr (pt s p i) OR HHDM_OFFSET) is else None)"

definition lookup :: "vmm \<Rightarrow> 64 word \<Rightarrow> nat list \<Rightarrow> nat \<Rightarrow> pte option" where
  "lookup s r xs i = (case walk s r xs of None \<Rightarrow> None
     | Some p \<Rightarrow> if is_present (pt s p i) then Some (pt s p i) else None)"

text \<open>What the processor finds for a virtual address under \<open>pml4\<close>: the entry of its page.\<close>

definition translate :: "vmm \<Rightarrow> 64 word \<Rightarrow> virt_addr \<Rightarrow> pte option" where
  "translate s pml4 v = lookup s (pml4 OR HHDM_OFFSET) [p4_index v, p3_index v, p2_index v] (p1_index v)"

definition path :: "nat list \<Rightarrow> bool" where
  "path xs \<longleftrightarrow> length xs \<le> 3 \<and> (\<forall>i\<in>set xs. i < 512)"

lemma path_prefix: "path (xs @ ys) \<Longrightarrow> path xs"
  by (simp add: path_def)

text \<open>The tables below the root form a tree, and none of them is a free frame.\<close>

definition table_tree :: "vmm \<Rightarrow> 64 word \<Rightarrow> bool" where
  "table_tree s r \<longleftrightarrow>
     (\<forall>xs ys p. path xs \<longrightarrow> path ys \<longrightarrow> walk s r xs = Some p \<longrightarrow> walk s r ys = Some p \<longrightarrow> xs = ys) \<and>
     (\<forall>xs a. path xs \<longrightarrow> unat a mod PAGE_SIZE = 0 \<longrightarrow> unat a div PAGE_SIZE \<in> free_frames (frames s) \<longrightarrow>
        walk s r xs \<noteq> Some (a OR HHDM_OFFSET))"

definition vmm_ok :: "vmm \<Rightarrow> 64 word \<Rightarrow> bool" where
  "vmm_ok s r \<longleftrightarrow> table_tree s r \<and> frames_ok (frames s) \<and> TOTAL_FRAMES (frames s) \<le> 2 ^ 35"

lemma walk_append: "walk s p (xs @ ys) = (case walk s p xs of None \<Rightarrow> None | Some q \<Rightarrow> walk s q ys)"
  by (induction xs arbitrary: p) auto

lemma walk_snoc:
  "walk s p (xs @ [i]) = (case walk s p xs of None \<Rightarrow> None
     | Some q \<Rightarrow> if is_present (pt s q i) then Some (get_addr (pt s q i) OR HHDM_OFFSET) else None)"
  by (simp add: walk_append split: option.split)

text \<open>A walk depends only on the entries it passes.\<close>

lemma walk_cong:
  assumes "\<And>zs i us q. xs = zs @ i # us \<Longrightarrow> walk s r zs = Some q \<Longrightarrow> pt t q i = pt s q i"
  shows "walk t r xs = walk s r xs"
  using assms
proof (induction xs rule: rev_induct)
  case (snoc i xs)
  have "walk t r xs = walk s r xs"
  proof (rule snoc.IH)
    fix zs j us q assume "xs = zs @ j # us" "walk s r zs = Some q"
    then show "pt t q j = pt s q j" using snoc.prems[of zs j "us @ [i]" q] by simp
  qed
  then show ?case using snoc.prems[of xs i "[]"] by (auto simp: walk_snoc split: option.split)
qed simp

lemma table_tree_inj:
  "table_tree s r \<Longrightarrow> path xs \<Longrightarrow> path ys \<Longrightarrow> walk s r xs = Some p \<Longrightarrow> walk s r ys = Some p \<Longrightarrow> xs = ys"
  unfolding table_tree_def by blast

lemma table_tree_fresh:
  "table_tree s r \<Longrightarrow> path xs \<Longrightarrow> unat a mod PAGE_SIZE = 0 \<Longrightarrow>
   unat a div PAGE_SIZE \<in> free_frames (frames s) \<Longrightarrow> walk s r xs \<noteq> Some (a OR HHDM_OFFSET)"
  unfolding table_tree_def by metis

lemma walk_set_entry:
  assumes "table_tree s r" "walk s r xs = Some p" "path xs" "path ys"
    "\<And>us. ys \<noteq> xs @ i # us"
  shows "walk (set_entry p i e s) r ys = walk s r ys"
proof (rule walk_cong)
  fix zs j us q assume z: "ys = zs @ j # us" "walk s r zs = Some q"
  show "pt (set_entry p i e s) q j = pt s q j"
  proof (cases "q = p \<and> j = i")
    case True
    then have "zs = xs" using table_tree_inj[OF assms(1) path_prefix[of zs] assms(3) z(2)] assms(2,4) z(1) by simp
    with True z(1) assms(5) show ?thesis by simp
  qed (auto simp: set_entry_def)
qed

subsection \<open>A new table\<close>

text \<open>The table reached along \<open>xs\<close> lacks the entry \<open>i\<close>; a new frame \<open>a\<close> becomes the table below
  it, and \<open>t\<close> is the state afterwards.\<close>

definition new_table :: "vmm \<Rightarrow> 64 word \<Rightarrow> nat list \<Rightarrow> 64 word \<Rightarrow> nat \<Rightarrow> frame_allocator \<Rightarrow> phys_addr \<Rightarrow> vmm \<Rightarrow> bool" where
  "new_table s r xs p i fs a t \<longleftrightarrow>
     vmm_ok s r \<and> walk s r xs = Some p \<and> path xs \<and> length xs \<le> 2 \<and> i < 512 \<and>
     \<not> is_present (pt s p i) \<and> alloc_frame (frames s) = (fs, Some a) \<and>
     t = set_entry p i (set_addr a (PRESENT OR WRITABLE OR USER))
           (zero_table (a OR HHDM_OFFSET) (s\<lparr>frames := fs\<rparr>))"

lemma new_tableD:
  assumes "new_table s r xs p i fs a t"
  shows "vmm_ok s r" "walk s r xs = Some p" "path xs" "length xs \<le> 2" "i < 512" "\<not> is_present (pt s p i)"
    "alloc_frame (frames s) = (fs, Some a)"
    "t = set_entry p i (set_addr a (PRESENT OR WRITABLE OR USER)) (zero_table (a OR HHDM_OFFSET) (s\<lparr>frames := fs\<rparr>))"
    "table_tree s r" "frames_ok (frames s)" "TOTAL_FRAMES (frames s) \<le> 2 ^ 35"
  using assms unfolding new_table_def vmm_ok_def by blast+

lemma new_frame:
  assumes nt: "new_table s r xs p i fs a t"
  shows "frames_ok fs" "TOTAL_FRAMES fs = TOTAL_FRAMES (frames s)"
    "free_frames fs = free_frames (frames s) - {unat a div PAGE_SIZE}" "unat a div PAGE_SIZE \<in> free_frames (frames s)"
    "unat a mod PAGE_SIZE = 0" "unat a div PAGE_SIZE < 2 ^ 35"
proof -
  note n = frm.take_Some[OF new_tableD(10,7)[OF nt]]
  then show "frames_ok fs" "free_frames fs = free_frames (frames s) - {unat a div PAGE_SIZE}"
    "unat a div PAGE_SIZE \<in> free_frames (frames s)" "unat a mod PAGE_SIZE = 0" by blast+
  show "TOTAL_FRAMES fs = TOTAL_FRAMES (frames s)" using n by (metis lessThan_eq_iff)
  have "unat a div PAGE_SIZE < TOTAL_FRAMES (frames s)" using n unfolding free_frames_def by blast
  then show "unat a div PAGE_SIZE < 2 ^ 35" using new_tableD(11)[OF nt] by linarith
qed

lemma new_not_table:
  "new_table s r xs p i fs a t \<Longrightarrow> path ys \<Longrightarrow> walk s r ys \<noteq> Some (a OR HHDM_OFFSET)"
  by (rule table_tree_fresh[OF new_tableD(9) _ new_frame(5,4)])

lemma new_entries:
  assumes nt: "new_table s r xs p i fs a t"
  shows "pt t (a OR HHDM_OFFSET) j = 0" "frames t = fs"
    "pt t p i = set_addr a (PRESENT OR WRITABLE OR USER)"
    "q \<noteq> a OR HHDM_OFFSET \<Longrightarrow> (q, j) \<noteq> (p, i) \<Longrightarrow> pt t q j = pt s q j"
proof -
  have "p \<noteq> a OR HHDM_OFFSET" using new_not_table[OF nt new_tableD(3)[OF nt]] new_tableD(2)[OF nt] by auto
  then show "pt t (a OR HHDM_OFFSET) j = 0" "frames t = fs"
    "pt t p i = set_addr a (PRESENT OR WRITABLE OR USER)"
    "q \<noteq> a OR HHDM_OFFSET \<Longrightarrow> (q, j) \<noteq> (p, i) \<Longrightarrow> pt t q j = pt s q j"
    unfolding new_tableD(8)[OF nt] by (auto simp: set_entry_def zero_table_def)
qed

lemma new_walk_other:
  assumes nt: "new_table s r xs p i fs a t" and ys: "path ys" "\<And>us. ys \<noteq> xs @ i # us"
  shows "walk t r ys = walk s r ys"
proof (rule walk_cong)
  fix zs j us q assume z: "ys = zs @ j # us" "walk s r zs = Some q"
  have zs: "path zs" using ys(1) z(1) path_prefix by blast
  then have q: "q \<noteq> a OR HHDM_OFFSET" using new_not_table[OF nt] z(2) by auto
  have "(q, j) \<noteq> (p, i)"
  proof
    assume "(q, j) = (p, i)"
    then have "zs = xs" using table_tree_inj[OF new_tableD(9)[OF nt] zs new_tableD(3)[OF nt] z(2)] new_tableD(2)[OF nt]
      by simp
    with \<open>(q, j) = (p, i)\<close> z(1) ys(2) show False by simp
  qed
  then show "pt t q j = pt s q j" using new_entries(4)[OF nt q] by blast
qed

lemma new_walk:
  assumes nt: "new_table s r xs p i fs a t"
  shows "walk t r (xs @ i # us) = (if us = [] then Some (a OR HHDM_OFFSET) else None)"
    and "walk s r (xs @ i # us) = None"
proof -
  have "walk t r xs = Some p"
    using new_walk_other[OF nt new_tableD(3)[OF nt]] new_tableD(2)[OF nt] by (metis append_self_conv list.distinct(1))
  then show "walk t r (xs @ i # us) = (if us = [] then Some (a OR HHDM_OFFSET) else None)"
    using new_entries(1,3)[OF nt] get_addr_table[OF new_frame(5,6)[OF nt]] by (cases us) (simp_all add: walk_append)
  show "walk s r (xs @ i # us) = None" using new_tableD(2,6)[OF nt] by (simp add: walk_append)
qed

lemma new_table_tree:
  assumes nt: "new_table s r xs p i fs a t"
  shows "table_tree t r"
proof -
  let ?q = "a OR HHDM_OFFSET"
  have w: "walk t r ys = (if ys = xs @ [i] then Some ?q else if \<exists>us. ys = xs @ i # us then None else walk s r ys)"
    if "path ys" for ys
  proof (cases "\<exists>us. ys = xs @ i # us")
    case True
    then show ?thesis using new_walk(1)[OF nt] by (auto split: if_splits)
  next
    case False
    then show ?thesis using new_walk_other[OF nt that] by auto
  qed
  have inj: "ys = zs" if yz: "path ys" "path zs" "walk t r ys = Some u" "walk t r zs = Some u" for ys zs u
  proof -
    have "ys = zs" if "walk s r ys = Some u" "walk s r zs = Some u"
      using table_tree_inj[OF new_tableD(9)[OF nt] yz(1,2) that] .
    then show ?thesis using yz(3,4) w[OF yz(1)] w[OF yz(2)] new_not_table[OF nt yz(1)] new_not_table[OF nt yz(2)]
      by (auto split: if_splits)
  qed
  have "walk t r ys \<noteq> Some (b OR HHDM_OFFSET)"
    if ys: "path ys" and b: "unat b mod PAGE_SIZE = 0" "unat b div PAGE_SIZE \<in> free_frames fs" for ys b
  proof -
    have bf: "unat b div PAGE_SIZE \<in> free_frames (frames s)" "unat b div PAGE_SIZE \<noteq> unat a div PAGE_SIZE"
      using b(2) unfolding new_frame(3)[OF nt] by blast+
    then have "unat b div PAGE_SIZE < TOTAL_FRAMES (frames s)" unfolding free_frames_def by blast
    then have "unat b div PAGE_SIZE < 2 ^ 35" using new_tableD(11)[OF nt] by linarith
    then have "b OR HHDM_OFFSET \<noteq> ?q" using direct_map_inj[OF new_frame(5,6)[OF nt] b(1)] bf(2) by metis
    moreover have "walk s r ys \<noteq> Some (b OR HHDM_OFFSET)"
      by (rule table_tree_fresh[OF new_tableD(9)[OF nt] ys b(1) bf(1)])
    ultimately show ?thesis using w[OF ys] by simp
  qed
  then show ?thesis unfolding table_tree_def new_entries(2)[OF nt] using inj by blast
qed

lemma new_table_ok: "new_table s r xs p i fs a t \<Longrightarrow> vmm_ok t r"
  unfolding vmm_ok_def using new_table_tree new_entries(2) new_frame(1,2) new_tableD(11) by metis

lemma new_table_lookup:
  assumes nt: "new_table s r xs p i fs a t" and ys: "path ys" "length ys = 3"
  shows "lookup t r ys j = lookup s r ys j"
proof (cases "\<exists>us. ys = xs @ i # us")
  case True
  then obtain us where us: "ys = xs @ i # us" by blast
  then show ?thesis using new_walk[OF nt] new_entries(1)[OF nt] by (simp add: lookup_def)
next
  case False
  then have w: "walk t r ys = walk s r ys" using ys(1) by (intro new_walk_other[OF nt]) auto
  show ?thesis
  proof (cases "walk s r ys")
    case (Some q)
    then have "q \<noteq> a OR HHDM_OFFSET" using new_not_table[OF nt ys(1)] by auto
    moreover have "q \<noteq> p"
      using table_tree_inj[OF new_tableD(9)[OF nt] ys(1) new_tableD(3)[OF nt] Some] new_tableD(2,4)[OF nt] ys(2) by auto
    ultimately show ?thesis using w Some new_entries(4)[OF nt, of q j] by (simp add: lookup_def)
  qed (simp add: lookup_def w)
qed


lemma get_or_create_table_ok:
  assumes ok: "vmm_ok s r" and xs: "walk s r xs = Some p" "path (xs @ [i])"
    and g: "get_or_create_table p i s = (t, res)"
  shows "vmm_ok t r" "res = None \<Longrightarrow> t = s \<and> free_frames (frames s) = {}"
    "res = Some q \<Longrightarrow> walk t r (xs @ [i]) = Some q"
    "path ys \<Longrightarrow> length ys = 3 \<Longrightarrow> lookup t r ys j = lookup s r ys j"
proof -
  have "vmm_ok t r \<and> (res = None \<longrightarrow> t = s \<and> free_frames (frames s) = {}) \<and>
    (\<forall>q. res = Some q \<longrightarrow> walk t r (xs @ [i]) = Some q) \<and>
    (\<forall>ys j. path ys \<longrightarrow> length ys = 3 \<longrightarrow> lookup t r ys j = lookup s r ys j)"
  proof (cases "is_present (pt s p i)")
    case True
    then show ?thesis using g ok xs(1) by (auto simp: get_or_create_table_def walk_snoc)
  next
    case absent: False
    have fr: "frames_ok (frames s)" using ok by (simp add: vmm_ok_def)
    obtain fs fo where al: "alloc_frame (frames s) = (fs, fo)" by fastforce
    show ?thesis
    proof (cases fo)
      case None
      then have "free_frames (frames s) = {}" "fs = frames s" using frm.take_None[OF fr, of fs] al by auto
      then show ?thesis using g ok absent al None by (simp add: get_or_create_table_def)
    next
      case (Some a)
      then have t: "t = set_entry p i (set_addr a (PRESENT OR WRITABLE OR USER))
          (zero_table (a OR HHDM_OFFSET) (s\<lparr>frames := fs\<rparr>))" "res = Some (a OR HHDM_OFFSET)"
        using g absent al by (simp_all add: get_or_create_table_def Let_def)
      have nt: "new_table s r xs p i fs a t"
        using ok xs absent al Some t(1) unfolding new_table_def path_def by simp
      show ?thesis using new_table_ok[OF nt] new_walk(1)[OF nt, of "[]"] new_table_lookup[OF nt] t(2) by simp
    qed
  qed
  then show "vmm_ok t r" "res = None \<Longrightarrow> t = s \<and> free_frames (frames s) = {}"
    "res = Some q \<Longrightarrow> walk t r (xs @ [i]) = Some q"
    "path ys \<Longrightarrow> length ys = 3 \<Longrightarrow> lookup t r ys j = lookup s r ys j" by blast+
qed

subsection \<open>Writing a page entry\<close>

lemma set_leaf:
  assumes ok: "vmm_ok s r" and xs: "walk s r xs = Some p" "path xs" "length xs = 3"
  shows "vmm_ok (set_entry p i e s) r"
    "path ys \<Longrightarrow> length ys = 3 \<Longrightarrow> lookup (set_entry p i e s) r ys j =
      (if ys = xs \<and> j = i then if is_present e then Some e else None else lookup s r ys j)"
proof -
  have tree: "table_tree s r" using ok by (simp add: vmm_ok_def)
  have w: "walk (set_entry p i e s) r ys = walk s r ys" if "path ys" for ys
    using that xs(3) by (intro walk_set_entry[OF tree xs(1,2) that]) (auto simp: path_def)
  have "frames (set_entry p i e s) = frames s" by (simp add: set_entry_def)
  then have "table_tree (set_entry p i e s) r" using tree w unfolding table_tree_def by metis
  then show "vmm_ok (set_entry p i e s) r" using ok by (simp add: vmm_ok_def set_entry_def)
  show "lookup (set_entry p i e s) r ys j =
      (if ys = xs \<and> j = i then if is_present e then Some e else None else lookup s r ys j)"
    if ys: "path ys" "length ys = 3"
  proof (cases "walk s r ys")
    case None
    then show ?thesis using w[OF ys(1)] xs(1) by (auto simp: lookup_def)
  next
    case (Some q)
    show ?thesis
    proof (cases "q = p")
      case True
      then have "ys = xs" using table_tree_inj[OF tree ys(1) xs(2) Some] xs(1) by simp
      then show ?thesis using Some True w[OF ys(1)] by (simp add: lookup_def set_entry_def)
    next
      case False
      then have "ys \<noteq> xs" using Some xs(1) by auto
      then show ?thesis using Some False w[OF ys(1)] by (simp add: lookup_def set_entry_def)
    qed
  qed
qed

abbreviation (input) table_path :: "virt_addr \<Rightarrow> nat list" where
  "table_path v \<equiv> [p4_index v, p3_index v, p2_index v]"

lemma path_table_path [simp]: "path (table_path v)" "path [p4_index v]" "path [p4_index v, p3_index v]"
  by (simp_all add: path_def index_less)

text \<open>The state after some tables were added on the way to a page.\<close>

definition stepped :: "vmm \<Rightarrow> 64 word \<Rightarrow> vmm \<Rightarrow> nat list \<Rightarrow> 64 word \<Rightarrow> bool" where
  "stepped s r t xs q \<longleftrightarrow> vmm_ok t r \<and> walk t r xs = Some q \<and>
     (\<forall>ys j. path ys \<longrightarrow> length ys = 3 \<longrightarrow> lookup t r ys j = lookup s r ys j)"

definition exhausted :: "vmm \<Rightarrow> 64 word \<Rightarrow> vmm \<Rightarrow> bool" where
  "exhausted s r t \<longleftrightarrow> vmm_ok t r \<and> free_frames (frames t) = {} \<and>
     (\<forall>ys j. path ys \<longrightarrow> length ys = 3 \<longrightarrow> lookup t r ys j = lookup s r ys j)"

lemma stepped_start: "vmm_ok s r \<Longrightarrow> stepped s r s [] r"
  by (simp add: stepped_def)

lemma stepped_step:
  assumes "stepped s r t xs p" "path (xs @ [i])" "get_or_create_table p i t = (u, res)"
  shows "case res of None \<Rightarrow> exhausted s r u | Some q \<Rightarrow> stepped s r u (xs @ [i]) q"
proof -
  have t: "vmm_ok t r" "walk t r xs = Some p"
    "\<And>ys j. path ys \<Longrightarrow> length ys = 3 \<Longrightarrow> lookup t r ys j = lookup s r ys j"
    using assms(1) by (auto simp: stepped_def)
  note g = get_or_create_table_ok[OF t(1,2) assms(2,3)]
  show ?thesis
  proof (cases res)
    case None
    then show ?thesis using g(2) t(1,3) by (simp add: exhausted_def)
  next
    case (Some q)
    then show ?thesis using g(1,3,4) t(3) by (simp add: stepped_def)
  qed
qed

lemma map_page_steps:
  assumes ok: "vmm_ok s (pml4 OR HHDM_OFFSET)" and m: "map_page pml4 v phys flags s = (t, res)"
  shows "case res of None \<Rightarrow> exhausted s (pml4 OR HHDM_OFFSET) t
    | Some _ \<Rightarrow> \<exists>u p. stepped s (pml4 OR HHDM_OFFSET) u (table_path v) p \<and>
        t = set_entry p (p1_index v) (set_addr phys (flags OR PRESENT)) u"
proof -
  let ?r = "pml4 OR HHDM_OFFSET"
  obtain s1 o3 where g3: "get_or_create_table ?r (p4_index v) s = (s1, o3)" by fastforce
  note st3 = stepped_step[OF stepped_start[OF ok] _ g3, simplified]
  show ?thesis
  proof (cases o3)
    case None
    then show ?thesis using st3 m g3 by (auto simp: map_page_def)
  next
    case (Some p3)
    with st3 have x3: "stepped s ?r s1 [p4_index v] p3" by simp
    obtain s2 o2 where g2: "get_or_create_table p3 (p3_index v) s1 = (s2, o2)" by fastforce
    note st2 = stepped_step[OF x3 _ g2, simplified]
    show ?thesis
    proof (cases o2)
      case None
      then show ?thesis using st2 m g3 g2 \<open>o3 = Some p3\<close> by (auto simp: map_page_def)
    next
      case (Some p2)
      with st2 have x2: "stepped s ?r s2 [p4_index v, p3_index v] p2" by simp
      obtain s3 o1 where g1: "get_or_create_table p2 (p2_index v) s2 = (s3, o1)" by fastforce
      note st1 = stepped_step[OF x2 _ g1, simplified]
      show ?thesis
      proof (cases o1)
        case None
        then show ?thesis using st1 m g3 g2 g1 \<open>o3 = Some p3\<close> \<open>o2 = Some p2\<close> by (auto simp: map_page_def)
      next
        case (Some p1)
        then have "t = set_entry p1 (p1_index v) (set_addr phys (flags OR PRESENT)) s3" "res = Some ()"
          using m g3 g2 g1 \<open>o3 = Some p3\<close> \<open>o2 = Some p2\<close> by (simp_all add: map_page_def)
        then show ?thesis using st1 Some by auto
      qed
    qed
  qed
qed

lemma map_page_Some:
  assumes "vmm_ok s (pml4 OR HHDM_OFFSET)" "map_page pml4 v phys flags s = (t, Some x)"
  shows "vmm_ok t (pml4 OR HHDM_OFFSET)"
    "path ys \<Longrightarrow> length ys = 3 \<Longrightarrow> lookup t (pml4 OR HHDM_OFFSET) ys j =
      (if ys = table_path v \<and> j = p1_index v then Some (set_addr phys (flags OR PRESENT))
       else lookup s (pml4 OR HHDM_OFFSET) ys j)"
proof -
  let ?r = "pml4 OR HHDM_OFFSET"
  obtain u p where u: "vmm_ok u ?r" "walk u ?r (table_path v) = Some p"
    "\<And>ys j. path ys \<Longrightarrow> length ys = 3 \<Longrightarrow> lookup u ?r ys j = lookup s ?r ys j"
    and t: "t = set_entry p (p1_index v) (set_addr phys (flags OR PRESENT)) u"
    using map_page_steps[OF assms] by (auto simp: stepped_def)
  note l = set_leaf[OF u(1,2)]
  show "vmm_ok t ?r" unfolding t by (rule l(1)) simp_all
  show "lookup t ?r ys j =
      (if ys = table_path v \<and> j = p1_index v then Some (set_addr phys (flags OR PRESENT)) else lookup s ?r ys j)"
    if "path ys" "length ys = 3" unfolding t using l(2)[OF _ _ that] u(3)[OF that] by simp
qed

lemma map_page_None:
  assumes "vmm_ok s (pml4 OR HHDM_OFFSET)" "map_page pml4 v phys flags s = (t, None)"
  shows "exhausted s (pml4 OR HHDM_OFFSET) t"
  using map_page_steps[OF assms] by simp

text \<open>Unmapping returns the address of the page and clears its entry, or finds none and changes nothing.\<close>

lemma unmap_page_eq:
  "unmap_page pml4 v s =
    (case walk s (pml4 OR HHDM_OFFSET) (table_path v) of None \<Rightarrow> (s, None)
     | Some p \<Rightarrow> if is_present (pt s p (p1_index v))
                then (set_entry p (p1_index v) 0 s, Some (get_addr (pt s p (p1_index v)))) else (s, None))"
  by (simp add: unmap_page_def Let_def)

lemma unmap_page_lookup:
  assumes "vmm_ok s (pml4 OR HHDM_OFFSET)" "unmap_page pml4 v s = (t, res)"
  shows "vmm_ok t (pml4 OR HHDM_OFFSET)"
    "res = map_option get_addr (lookup s (pml4 OR HHDM_OFFSET) (table_path v) (p1_index v))"
    "path ys \<Longrightarrow> length ys = 3 \<Longrightarrow> lookup t (pml4 OR HHDM_OFFSET) ys j =
      (if ys = table_path v \<and> j = p1_index v then None else lookup s (pml4 OR HHDM_OFFSET) ys j)"
proof -
  let ?r = "pml4 OR HHDM_OFFSET" and ?xs = "table_path v"
  have "vmm_ok t ?r \<and> res = map_option get_addr (lookup s ?r ?xs (p1_index v)) \<and>
    (\<forall>ys j. path ys \<longrightarrow> length ys = 3 \<longrightarrow>
      lookup t ?r ys j = (if ys = ?xs \<and> j = p1_index v then None else lookup s ?r ys j))"
  proof (cases "walk s ?r ?xs")
    case None
    then have "t = s" "res = None" "lookup s ?r ?xs (p1_index v) = None"
      using assms(2) by (simp_all only: unmap_page_eq lookup_def option.case prod.inject)
    then show ?thesis using assms(1) by auto
  next
    case (Some p)
    note l = set_leaf[OF assms(1) Some]
    show ?thesis
    proof (cases "is_present (pt s p (p1_index v))")
      case True
      then have "t = set_entry p (p1_index v) 0 s" "res = Some (get_addr (pt s p (p1_index v)))"
        "lookup s ?r ?xs (p1_index v) = Some (pt s p (p1_index v))"
        using assms(2) Some by (simp_all only: unmap_page_eq lookup_def option.case prod.inject if_True)
      then show ?thesis using l by simp
    next
      case False
      then have "t = s" "res = None" "lookup s ?r ?xs (p1_index v) = None"
        using assms(2) Some by (simp_all only: unmap_page_eq lookup_def option.case prod.inject if_False)
      then show ?thesis using assms(1) by auto
    qed
  qed
  then show "vmm_ok t ?r" "res = map_option get_addr (lookup s ?r ?xs (p1_index v))"
    "path ys \<Longrightarrow> length ys = 3 \<Longrightarrow> lookup t ?r ys j =
      (if ys = ?xs \<and> j = p1_index v then None else lookup s ?r ys j)" by blast+
qed


section \<open>Virtual pages\<close>

text \<open>The number of the page of a virtual address; bits above 47 select nothing.\<close>

definition vpn :: "virt_addr \<Rightarrow> nat" where
  "vpn v = unat v div 4096 mod 2 ^ 36"

lemma unat_field: "unat (drop_bit k v AND 0x1FF) = unat v div 2 ^ k mod 512" for v :: "64 word"
proof -
  have "(0x1FF :: 64 word) = mask 9" by (simp add: mask_eq_exp_minus_1)
  then have "drop_bit k v AND 0x1FF = take_bit 9 (drop_bit k v)" by (simp add: take_bit_eq_mask)
  moreover have "unat v mod 2 ^ 64 = unat v" using unsigned_less[of v, where ?'a = nat] by simp
  ultimately show ?thesis
    by (simp only: unsigned_take_bit_eq unsigned_drop_bit_eq) (simp add: take_bit_eq_mod drop_bit_eq_div)
qed

lemma index_div:
  "p1_index v = unat v div 4096 mod 512" "p2_index v = unat v div 4096 div 512 mod 512"
  "p3_index v = unat v div 4096 div 512 div 512 mod 512" "p4_index v = unat v div 4096 div 512 div 512 div 512 mod 512"
  by (simp_all add: p1_index_def p2_index_def p3_index_def p4_index_def unat_field div_mult2_eq[symmetric])

lemma digits: "n mod (512 * (512 * (512 * 512))) =
  512 * (512 * (512 * (n div 512 div 512 div 512 mod 512) + n div 512 div 512 mod 512) + n div 512 mod 512) + n mod 512"
  for n :: nat
  by (simp only: mod_mult2_eq)

lemma vpn_digits: "vpn v = 512 * (512 * (512 * p4_index v + p3_index v) + p2_index v) + p1_index v"
  using digits[of "unat v div 4096"] by (simp add: vpn_def index_div)

lemma digit_inj: "512 * a + b = 512 * c + (d :: nat) \<Longrightarrow> b < 512 \<Longrightarrow> d < 512 \<Longrightarrow> a = c \<and> b = d"
proof -
  assume e: "512 * a + b = 512 * c + d" "b < 512" "d < 512"
  from e(1) have "(512 * a + b) mod 512 = (512 * c + d) mod 512" by (rule arg_cong)
  then have "b = d" using e(2,3) by simp
  then show ?thesis using e(1) by simp
qed

lemma vpn_eq_iff:
  "vpn v = vpn w \<longleftrightarrow> table_path v = table_path w \<and> p1_index v = p1_index w"
proof
  assume "vpn v = vpn w"
  then have 1: "512 * (512 * p4_index v + p3_index v) + p2_index v = 512 * (512 * p4_index w + p3_index w) + p2_index w"
    "p1_index v = p1_index w" unfolding vpn_digits using digit_inj[OF _ index_less(4) index_less(4)] by blast+
  then have 2: "512 * p4_index v + p3_index v = 512 * p4_index w + p3_index w" "p2_index v = p2_index w"
    using digit_inj[OF _ index_less(3) index_less(3)] by blast+
  then have "p4_index v = p4_index w" "p3_index v = p3_index w"
    using digit_inj[OF _ index_less(2) index_less(2)] by blast+
  then show "table_path v = table_path w \<and> p1_index v = p1_index w" using 1(2) 2(2) by simp
qed (simp add: vpn_digits)

lemma vpn_add: "vpn (v + of_nat i * 0x1000) = (vpn v + i) mod 2 ^ 36"
proof -
  have c: "(4096 :: nat) * 2 ^ 36 dvd 2 ^ 64" by simp
  have r: "x mod (4096 * 2 ^ 36) div 4096 = x div 4096 mod 2 ^ 36" for x :: nat
    by (simp only: mod_mult2_eq)
  have "unat (v + of_nat i * 0x1000) = (unat v + i * 4096) mod 2 ^ 64"
    using unat_of_nat[of "unat v + i * 4096", where 'a = 64] by simp
  then have "vpn (v + of_nat i * 0x1000) = (unat v + i * 4096) mod 2 ^ 64 mod (4096 * 2 ^ 36) div 4096"
    unfolding vpn_def r by simp
  also have "\<dots> = (unat v + i * 4096) div 4096 mod 2 ^ 36" by (simp only: mod_mod_cancel[OF c] r)
  also have "\<dots> = (unat v div 4096 + i) mod 2 ^ 36" by (simp add: add.commute)
  also have "\<dots> = (vpn v + i) mod 2 ^ 36" unfolding vpn_def by (rule mod_add_left_eq[symmetric])
  finally show ?thesis .
qed

lemma translate_map_page:
  assumes "vmm_ok s (pml4 OR HHDM_OFFSET)" "map_page pml4 v phys flags s = (t, Some x)"
  shows "translate t pml4 w = (if vpn w = vpn v then Some (set_addr phys (flags OR PRESENT)) else translate s pml4 w)"
  using map_page_Some(2)[OF assms, of "table_path w" "p1_index w"] unfolding translate_def vpn_eq_iff by simp

lemma translate_map_page_None:
  assumes "vmm_ok s (pml4 OR HHDM_OFFSET)" "map_page pml4 v phys flags s = (t, None)"
  shows "vmm_ok t (pml4 OR HHDM_OFFSET)" "translate t pml4 w = translate s pml4 w" "free_frames (frames t) = {}"
  using map_page_None[OF assms] unfolding exhausted_def translate_def by simp_all

lemma translate_unmap_page:
  assumes "vmm_ok s (pml4 OR HHDM_OFFSET)" "unmap_page pml4 v s = (t, res)"
  shows "translate t pml4 w = (if vpn w = vpn v then None else translate s pml4 w)"
    "res = map_option get_addr (translate s pml4 v)"
  using unmap_page_lookup(3)[OF assms, of "table_path w" "p1_index w"] unmap_page_lookup(2)[OF assms]
  unfolding translate_def vpn_eq_iff by simp_all


lemma map_pages_translate:
  assumes "vmm_ok s (pml4 OR HHDM_OFFSET)" "map_pages pml4 v phys flags n s = (t, Some x)" "n \<le> 2 ^ 36"
  shows "vmm_ok t (pml4 OR HHDM_OFFSET)"
    "i < n \<Longrightarrow> translate t pml4 (v + of_nat i * 0x1000) = Some (set_addr (phys + of_nat i * 0x1000) (flags OR PRESENT))"
    "(\<forall>i<n. vpn w \<noteq> vpn (v + of_nat i * 0x1000)) \<Longrightarrow> translate t pml4 w = translate s pml4 w"
proof -
  have "vmm_ok t (pml4 OR HHDM_OFFSET) \<and>
    (\<forall>i<n. translate t pml4 (v + of_nat i * 0x1000) = Some (set_addr (phys + of_nat i * 0x1000) (flags OR PRESENT))) \<and>
    (\<forall>w. (\<forall>i<n. vpn w \<noteq> vpn (v + of_nat i * 0x1000)) \<longrightarrow> translate t pml4 w = translate s pml4 w)"
    using assms
  proof (induction n arbitrary: s v phys)
    case (Suc n)
    obtain u where u: "map_page pml4 v phys flags s = (u, Some ())"
      and rest: "map_pages pml4 (v + 0x1000) (phys + 0x1000) flags n u = (t, Some x)"
      using Suc.prems(2) by (auto split: prod.splits option.splits)
    have shift: "w + 0x1000 + of_nat i * 0x1000 = w + of_nat (Suc i) * 0x1000" for w :: "64 word" and i
      by (simp add: algebra_simps)
    have IH: "vmm_ok t (pml4 OR HHDM_OFFSET)"
      "\<And>i. i < n \<Longrightarrow> translate t pml4 (v + of_nat (Suc i) * 0x1000) =
        Some (set_addr (phys + of_nat (Suc i) * 0x1000) (flags OR PRESENT))"
      "\<And>w. \<forall>i<n. vpn w \<noteq> vpn (v + of_nat (Suc i) * 0x1000) \<Longrightarrow> translate t pml4 w = translate u pml4 w"
      using Suc.IH[OF map_page_Some(1)[OF Suc.prems(1) u] rest] Suc.prems(3) unfolding shift by simp_all
    have far: "vpn v \<noteq> vpn (v + of_nat (Suc i) * 0x1000)" if "i < n" for i
    proof -
      have "vpn v < 2 ^ 36" "0 < Suc i" "Suc i < 2 ^ 36" using that Suc.prems(3) by (simp_all add: vpn_def)
      then have "vpn v \<noteq> (vpn v + Suc i) mod 2 ^ 36" by (cases "vpn v + Suc i < 2 ^ 36") (auto simp: le_mod_geq not_less)
      then show ?thesis using vpn_add[of v "Suc i"] by metis
    qed
    have first: "translate t pml4 v = Some (set_addr phys (flags OR PRESENT))"
      using IH(3)[of v] far translate_map_page[OF Suc.prems(1) u, of v] by simp
    have hits: "translate t pml4 (v + of_nat i * 0x1000) = Some (set_addr (phys + of_nat i * 0x1000) (flags OR PRESENT))"
      if "i < Suc n" for i using first IH(2)[of "i - 1"] that by (cases i) simp_all
    have miss: "translate t pml4 w = translate s pml4 w" if "\<forall>i<Suc n. vpn w \<noteq> vpn (v + of_nat i * 0x1000)" for w
    proof -
      have "vpn w \<noteq> vpn v" using that[rule_format, of 0] by simp
      moreover have "\<forall>i<n. vpn w \<noteq> vpn (v + of_nat (Suc i) * 0x1000)" using that by blast
      ultimately show ?thesis using IH(3)[of w] translate_map_page[OF Suc.prems(1) u, of w] by simp
    qed
    show ?case using IH(1) hits miss by blast
  qed simp
  then show "vmm_ok t (pml4 OR HHDM_OFFSET)"
    "i < n \<Longrightarrow> translate t pml4 (v + of_nat i * 0x1000) = Some (set_addr (phys + of_nat i * 0x1000) (flags OR PRESENT))"
    "(\<forall>i<n. vpn w \<noteq> vpn (v + of_nat i * 0x1000)) \<Longrightarrow> translate t pml4 w = translate s pml4 w" by blast+
qed

section \<open>The contract of an address space\<close>

text \<open>
  Entries keyed by page number: installing one changes the page of its key alone, or fails and
  changes none; removing returns the entry's address and changes the page of its key alone.
\<close>

locale address_space =
  fixes valid :: "'s \<Rightarrow> bool"
    and find_entry :: "'s \<Rightarrow> virt_addr \<Rightarrow> pte option"
    and install :: "virt_addr \<Rightarrow> phys_addr \<Rightarrow> 64 word \<Rightarrow> 's \<Rightarrow> 's \<times> unit option"
    and remove :: "virt_addr \<Rightarrow> 's \<Rightarrow> 's \<times> phys_addr option"
  assumes install_Some: "valid s \<Longrightarrow> install v a f s = (t, Some x) \<Longrightarrow> valid t \<and>
      (\<forall>w. find_entry t w = (if vpn w = vpn v then Some (set_addr a (f OR PRESENT)) else find_entry s w))"
    and install_None: "valid s \<Longrightarrow> install v a f s = (t, None) \<Longrightarrow> valid t \<and> find_entry t = find_entry s"
    and remove: "valid s \<Longrightarrow> remove v s = (t, res) \<Longrightarrow> valid t \<and> res = map_option get_addr (find_entry s v) \<and>
      (\<forall>w. find_entry t w = (if vpn w = vpn v then None else find_entry s w))"
begin

lemma install_remove:
  assumes "valid s" "install v a f s = (t, Some x)" "remove v t = (u, res)"
  shows "res = Some (get_addr (set_addr a (f OR PRESENT)))"
    "find_entry u w = (if vpn w = vpn v then None else find_entry s w)"
  using install_Some[OF assms(1,2)] remove[of t v u res] assms(3) by auto

lemma install_twice:
  assumes "valid s" "install v a f s = (t, Some x)" "install w b g t = (u, Some y)" "vpn v \<noteq> vpn w"
  shows "find_entry u v = Some (set_addr a (f OR PRESENT))" "find_entry u w = Some (set_addr b (g OR PRESENT))"
  using install_Some[OF assms(1,2)] install_Some[of t w b g u y] assms(3,4) by auto

lemma remove_twice:
  assumes "valid s" "remove v s = (t, res)" "remove v t = (u, res')"
  shows "res' = None" "find_entry u = find_entry t"
  using remove[OF assms(1,2)] remove[of t v u res'] assms(3) by auto

end

interpretation space: address_space "\<lambda>s. vmm_ok s (pml4 OR HHDM_OFFSET)" "\<lambda>s. translate s pml4" "map_page pml4" "unmap_page pml4"
  for pml4
proof
  fix s v a f t x
  assume *: "vmm_ok s (pml4 OR HHDM_OFFSET)" "map_page pml4 v a f s = (t, Some x)"
  show "vmm_ok t (pml4 OR HHDM_OFFSET) \<and>
    (\<forall>w. translate t pml4 w = (if vpn w = vpn v then Some (set_addr a (f OR PRESENT)) else translate s pml4 w))"
    using map_page_Some(1)[OF *] translate_map_page[OF *] by blast
next
  fix s v a f t
  assume *: "vmm_ok s (pml4 OR HHDM_OFFSET)" "map_page pml4 v a f s = (t, None)"
  show "vmm_ok t (pml4 OR HHDM_OFFSET) \<and> translate t pml4 = translate s pml4"
    using translate_map_page_None[OF *] by blast
next
  fix s v t res
  assume *: "vmm_ok s (pml4 OR HHDM_OFFSET)" "unmap_page pml4 v s = (t, res)"
  show "vmm_ok t (pml4 OR HHDM_OFFSET) \<and> res = map_option get_addr (translate s pml4 v) \<and>
    (\<forall>w. translate t pml4 w = (if vpn w = vpn v then None else translate s pml4 w))"
    using unmap_page_lookup(1)[OF *] translate_unmap_page[OF *] by blast
qed

section \<open>Address spaces of processes\<close>

lemma table_treeI:
  assumes "\<And>xs ys p. path xs \<Longrightarrow> path ys \<Longrightarrow> walk s r xs = Some p \<Longrightarrow> walk s r ys = Some p \<Longrightarrow> xs = ys"
    "\<And>xs a. path xs \<Longrightarrow> unat a mod PAGE_SIZE = 0 \<Longrightarrow> unat a div PAGE_SIZE \<in> free_frames (frames s) \<Longrightarrow>
       walk s r xs \<noteq> Some (a OR HHDM_OFFSET)"
  shows "table_tree s r"
  unfolding table_tree_def by (intro conjI allI impI) (erule (3) assms(1), erule (2) assms(2))

lemma kernel_half: "distinct kernel_half" "i \<in> set kernel_half \<longleftrightarrow> 256 \<le> i \<and> i < 512"
  unfolding kernel_half_def by (rule distinct_upt) (simp only: set_upt atLeastLessThan_iff)

lemma fold_set_entry:
  "distinct is \<Longrightarrow> k \<noteq> q \<Longrightarrow>
   pt (fold (\<lambda>i s. set_entry q i (pt s k i) s) is s) p j = (if p = q \<and> j \<in> set is then pt s k j else pt s p j) \<and>
   frames (fold (\<lambda>i s. set_entry q i (pt s k i) s) is s) = frames s \<and>
   KERNEL_PAGE_TABLE (fold (\<lambda>i s. set_entry q i (pt s k i) s) is s) = KERNEL_PAGE_TABLE s"
  by (induction "is" arbitrary: s) (auto simp: set_entry_def)

text \<open>A new top-level table \<open>q\<close> with the kernel's upper half.\<close>

definition user_root :: "vmm \<Rightarrow> 64 word \<Rightarrow> frame_allocator \<Rightarrow> phys_addr \<Rightarrow> vmm \<Rightarrow> bool" where
  "user_root s k fs a t \<longleftrightarrow>
     vmm_ok s k \<and> alloc_frame (frames s) = (fs, Some a) \<and> frames t = fs \<and> KERNEL_PAGE_TABLE t = KERNEL_PAGE_TABLE s \<and>
     (\<forall>p i. pt t p i = (if p = a OR HHDM_OFFSET then if 256 \<le> i \<and> i < 512 then pt s k i else 0 else pt s p i))"

lemma user_root_frame:
  assumes u: "user_root s k fs a t"
  shows "frames_ok fs" "TOTAL_FRAMES fs = TOTAL_FRAMES (frames s)" "TOTAL_FRAMES fs \<le> 2 ^ 35"
    "free_frames fs = free_frames (frames s) - {unat a div PAGE_SIZE}" "unat a div PAGE_SIZE \<in> free_frames (frames s)"
    "unat a mod PAGE_SIZE = 0" "unat a div PAGE_SIZE < 2 ^ 35"
    "path xs \<Longrightarrow> walk s k xs \<noteq> Some (a OR HHDM_OFFSET)"
proof -
  have s: "frames_ok (frames s)" "table_tree s k" "TOTAL_FRAMES (frames s) \<le> 2 ^ 35"
    "alloc_frame (frames s) = (fs, Some a)" using u by (auto simp: user_root_def vmm_ok_def)
  note n = frm.take_Some[OF s(1,4)]
  then show "frames_ok fs" "free_frames fs = free_frames (frames s) - {unat a div PAGE_SIZE}"
    and av: "unat a div PAGE_SIZE \<in> free_frames (frames s)" and al: "unat a mod PAGE_SIZE = 0" by blast+
  show tf: "TOTAL_FRAMES fs = TOTAL_FRAMES (frames s)" using n by (metis lessThan_eq_iff)
  show "TOTAL_FRAMES fs \<le> 2 ^ 35" using tf s(3) by simp
  have "unat a div PAGE_SIZE < TOTAL_FRAMES (frames s)" using av unfolding free_frames_def by blast
  then show "unat a div PAGE_SIZE < 2 ^ 35" using s(3) by linarith
  show "walk s k xs \<noteq> Some (a OR HHDM_OFFSET)" if "path xs" by (rule table_tree_fresh[OF s(2) that al av])
qed

lemma user_root_kernel:
  assumes u: "user_root s k fs a t" and xs: "path xs"
  shows "walk t k xs = walk s k xs"
proof (rule walk_cong)
  fix zs j us q assume z: "xs = zs @ j # us" "walk s k zs = Some q"
  then have "path zs" using xs path_prefix by blast
  then have "q \<noteq> a OR HHDM_OFFSET" using user_root_frame(8)[OF u] z(2) by auto
  then show "pt t q j = pt s q j" using u by (simp add: user_root_def)
qed

lemma user_root_walk:
  assumes u: "user_root s k fs a t" and xs: "path (i # is)"
  shows "walk t (a OR HHDM_OFFSET) (i # is) = (if 256 \<le> i then walk s k (i # is) else None)"
proof -
  have "k \<noteq> a OR HHDM_OFFSET" using user_root_frame(8)[OF u, of "[]"] by (auto simp: path_def)
  then have "walk t (a OR HHDM_OFFSET) (i # is) = (if 256 \<le> i then walk t k (i # is) else None)"
    using u xs by (simp add: user_root_def path_def)
  then show ?thesis using user_root_kernel[OF u xs] by simp
qed

lemma user_root_lookup:
  assumes u: "user_root s k fs a t" and xs: "path (i # is)"
  shows "lookup t (a OR HHDM_OFFSET) (i # is) j = (if 256 \<le> i then lookup s k (i # is) j else None)"
    "lookup t k (i # is) j = lookup s k (i # is) j"
proof -
  have e: "pt t q j = pt s q j" if "walk s k (i # is) = Some q" for q
    using user_root_frame(8)[OF u xs] that u by (auto simp: user_root_def)
  show "lookup t (a OR HHDM_OFFSET) (i # is) j = (if 256 \<le> i then lookup s k (i # is) j else None)"
    unfolding lookup_def user_root_walk[OF u xs] using e by (auto split: option.split)
  show "lookup t k (i # is) j = lookup s k (i # is) j"
    unfolding lookup_def user_root_kernel[OF u xs] using e by (auto split: option.split)
qed

lemma user_root_ok:
  assumes u: "user_root s k fs a t"
  shows "vmm_ok t (a OR HHDM_OFFSET)"
proof -
  let ?q = "a OR HHDM_OFFSET"
  have tree: "table_tree s k" using u by (auto simp: user_root_def vmm_ok_def)
  have w: "walk t ?q xs = Some p \<Longrightarrow> xs = [] \<and> p = ?q \<or> xs \<noteq> [] \<and> walk s k xs = Some p \<and> p \<noteq> ?q"
    if "path xs" for xs p
    using user_root_walk[OF u] user_root_frame(8)[OF u that] that by (cases xs) (auto split: if_splits)
  have inj: "xs = ys" if xy: "path xs" "path ys" "walk t ?q xs = Some p" "walk t ?q ys = Some p" for xs ys p
    using w[OF xy(1,3)] w[OF xy(2,4)] table_tree_inj[OF tree xy(1,2)] by auto
  have "walk t ?q xs \<noteq> Some (b OR HHDM_OFFSET)"
    if xs: "path xs" and b: "unat b mod PAGE_SIZE = 0" "unat b div PAGE_SIZE \<in> free_frames fs" for xs b
  proof
    assume e: "walk t ?q xs = Some (b OR HHDM_OFFSET)"
    have bf: "unat b div PAGE_SIZE \<in> free_frames (frames s)" "unat b div PAGE_SIZE \<noteq> unat a div PAGE_SIZE"
      using b(2) unfolding user_root_frame(4)[OF u] by blast+
    have "unat b div PAGE_SIZE < TOTAL_FRAMES fs" using b(2) unfolding free_frames_def by blast
    then have "unat b div PAGE_SIZE < 2 ^ 35" using user_root_frame(3)[OF u] by linarith
    then have "b OR HHDM_OFFSET \<noteq> ?q" using direct_map_inj[OF user_root_frame(6,7)[OF u] b(1)] bf(2) by metis
    then show False using w[OF xs e] table_tree_fresh[OF tree xs b(1) bf(1)] by blast
  qed
  moreover have "frames t = fs" using u by (simp add: user_root_def)
  ultimately have "table_tree t ?q" by (intro table_treeI) (erule (3) inj, simp)
  then show ?thesis using user_root_frame(1,3)[OF u] \<open>frames t = fs\<close> by (simp add: vmm_ok_def)
qed

lemma create_user_pml4_root:
  assumes "vmm_ok s (KERNEL_PAGE_TABLE s OR HHDM_OFFSET)" "create_user_pml4 s = (t, Some a)"
  shows "\<exists>fs. user_root s (KERNEL_PAGE_TABLE s OR HHDM_OFFSET) fs a t"
proof -
  let ?k = "KERNEL_PAGE_TABLE s OR HHDM_OFFSET" and ?q = "a OR HHDM_OFFSET"
  obtain fs where al: "alloc_frame (frames s) = (fs, Some a)" and
    t: "t = fold (\<lambda>i s. set_entry ?q i (pt s ?k i) s) kernel_half (zero_table ?q (s\<lparr>frames := fs\<rparr>))"
    using assms(2) by (auto simp: create_user_pml4_def Let_def zero_table_def split: prod.splits option.splits)
  have fr: "frames_ok (frames s)" "table_tree s ?k" using assms(1) by (auto simp: vmm_ok_def)
  have "walk s ?k [] \<noteq> Some ?q"
    using frm.take_Some[OF fr(1) al] by (intro table_tree_fresh[OF fr(2)]) (auto simp: path_def)
  then have kq: "?k \<noteq> ?q" by simp
  note f = fold_set_entry[OF kernel_half(1) kq, of "zero_table ?q (s\<lparr>frames := fs\<rparr>)", folded t]
  have "pt t p i = (if p = ?q then if 256 \<le> i \<and> i < 512 then pt s ?k i else 0 else pt s p i)" for p i
    using f[of p i] kq by (auto simp: zero_table_def kernel_half(2))
  then show ?thesis using assms(1) al f by (auto simp: user_root_def zero_table_def)
qed

lemma create_user_pml4_translate:
  assumes "vmm_ok s (KERNEL_PAGE_TABLE s OR HHDM_OFFSET)" "create_user_pml4 s = (t, Some a)"
  shows "vmm_ok t (a OR HHDM_OFFSET)"
    "translate t a v = (if 256 \<le> p4_index v then translate s (KERNEL_PAGE_TABLE s) v else None)"
    "translate t (KERNEL_PAGE_TABLE s) v = translate s (KERNEL_PAGE_TABLE s) v"
proof -
  obtain fs where u: "user_root s (KERNEL_PAGE_TABLE s OR HHDM_OFFSET) fs a t"
    using create_user_pml4_root[OF assms] by blast
  show "vmm_ok t (a OR HHDM_OFFSET)" by (rule user_root_ok[OF u])
  show "translate t a v = (if 256 \<le> p4_index v then translate s (KERNEL_PAGE_TABLE s) v else None)"
    "translate t (KERNEL_PAGE_TABLE s) v = translate s (KERNEL_PAGE_TABLE s) v"
    unfolding translate_def using user_root_lookup[OF u] by simp_all
qed

text \<open>An empty top-level table in a frame that is not free.\<close>

lemma empty_root_ok:
  assumes "\<And>i. pt s r i = 0" "frames_ok (frames s)" "TOTAL_FRAMES (frames s) \<le> 2 ^ 35"
    "r = a OR HHDM_OFFSET" "unat a mod PAGE_SIZE = 0" "unat a div PAGE_SIZE < 2 ^ 35"
    "unat a div PAGE_SIZE \<notin> free_frames (frames s)"
  shows "vmm_ok s r"
proof -
  have w: "walk s r xs = (if xs = [] then Some r else None)" for xs using assms(1) by (cases xs) auto
  have "r \<noteq> b OR HHDM_OFFSET"
    if b: "unat b mod PAGE_SIZE = 0" "unat b div PAGE_SIZE \<in> free_frames (frames s)" for b
  proof -
    have "unat b div PAGE_SIZE < TOTAL_FRAMES (frames s)" using b(2) unfolding free_frames_def by blast
    then have "unat b div PAGE_SIZE < 2 ^ 35" using assms(3) by linarith
    then show ?thesis using direct_map_inj[OF assms(5,6) b(1)] assms(4,7) b(2) by metis
  qed
  then have "table_tree s r" by (intro table_treeI) (simp_all add: w split: if_splits)
  then show ?thesis using assms(2,3) by (simp add: vmm_ok_def)
qed


section \<open>Properties\<close>

text \<open>A state for concrete runs: the top-level table of the kernel is in frame 0 and empty, frames 1 to 5 are free.\<close>

definition boot_vmm :: vmm where
  "boot_vmm = \<lparr>pt = (\<lambda>_ _. 0),
     frames = \<lparr>FRAME_BITMAP = [0x3E], BITMAP_ADDR = 0, TOTAL_FRAMES = 64, BITMAP_SIZE = 1\<rparr>,
     KERNEL_PAGE_TABLE = 0, cr3 = 0, MMIO_LOWER = 0, MMIO_UPPER = 0, MMIO_CURRENT = 0\<rparr>"

lemma boot_vmm_ok: "vmm_ok boot_vmm (0 OR HHDM_OFFSET)"
proof (rule empty_root_ok[where a = 0])
  have "\<not> bit (0x3E :: 64 word) 0" by simp
  then show "unat (0 :: 64 word) div PAGE_SIZE \<notin> free_frames (frames boot_vmm)"
    by (simp add: free_frames_def boot_vmm_def)
qed (simp_all add: boot_vmm_def frames_ok_def wf_frames_def)

lemma boot_frames: "free_frames (frames boot_vmm) \<noteq> {}"
proof -
  have "bit (0x3E :: 64 word) 1" by simp
  then have "1 \<in> free_frames (frames boot_vmm)" by (simp add: free_frames_def boot_vmm_def)
  then show ?thesis by blast
qed

lemma boot_map: "\<exists>t. map_page 0 0x400000 0x5000 WRITABLE boot_vmm = (t, Some ())"
proof -
  have tz: "trailing_zeros 0x3E = 1" "trailing_zeros 0x3C = 2" "trailing_zeros 0x38 = 3" by code_simp+
  have ix: "p4_index 0x400000 = 0" "p3_index 0x400000 = 0" "p2_index 0x400000 = 2" "p1_index 0x400000 = 0"
    by (simp_all add: p4_index_def p3_index_def p2_index_def p1_index_def)
  show ?thesis unfolding map_page_def ix boot_vmm_def
    by (simp add: get_or_create_table_def alloc_frame_def frame_alloc_def mark_used_def tz PAGE_SIZE_def
        zero_table_def set_entry_def set_addr_def HHDM_OFFSET_def flag_defs ADDR_MASK_def get_addr_def Let_def)
qed







text \<open>
  C28: a new process address space translates the upper half exactly as the
  kernel's does and nothing in the lower half, and the kernel's own translation does not change.
\<close>

theorem user_space_shares_kernel:
  assumes "vmm_ok s (KERNEL_PAGE_TABLE s OR HHDM_OFFSET)" "create_user_pml4 s = (t, Some pml4)"
  shows "vmm_ok t (pml4 OR HHDM_OFFSET) \<and>
    (\<forall>v. translate t pml4 v = (if 256 \<le> p4_index v then translate s (KERNEL_PAGE_TABLE s) v else None) \<and>
         translate t (KERNEL_PAGE_TABLE s) v = translate s (KERNEL_PAGE_TABLE s) v)"
  using create_user_pml4_translate[OF assms] by blast

theorem user_space_shares_kernel_witness:
  "\<exists>t pml4. create_user_pml4 boot_vmm = (t, Some pml4) \<and> vmm_ok t (pml4 OR HHDM_OFFSET)"
proof -
  have k: "KERNEL_PAGE_TABLE boot_vmm = 0" "frames_ok (frames boot_vmm)"
    using boot_vmm_ok by (simp_all add: boot_vmm_def vmm_ok_def)
  obtain fs a where "alloc_frame (frames boot_vmm) = (fs, Some a)"
    using frm.take_progress[OF k(2) boot_frames] by blast
  then obtain t where t: "create_user_pml4 boot_vmm = (t, Some a)" by (auto simp: create_user_pml4_def Let_def)
  then show ?thesis using user_space_shares_kernel[of boot_vmm t a] boot_vmm_ok k(1) by auto
qed

end
