(* ===== verification/Fat12.thy ===== *)
theory Fat12
  imports Prelude
begin

text \<open>
  The FAT12 driver of the kernel. A volume is the contents of a drive, the BIOS parameter block read from it and the cache
  of its file allocation table. An operation returns an error message or a value together with the new state; it has
  no result when the code panics or does not end.
\<close>

section \<open>Definitions\<close>

subsection \<open>The drive\<close>

text \<open>
  The device behind \<open>ide_read_sectors\<close> and \<open>ide_write_sectors\<close>: a sector that fails to be read or written answers with an error
  code and changes nothing.
\<close>

record ide =
  sectors :: "nat \<Rightarrow> nat \<Rightarrow> byte list"
  read_fails :: "nat \<Rightarrow> nat \<Rightarrow> bool"
  write_fails :: "nat \<Rightarrow> nat \<Rightarrow> bool"

definition SECTOR_SIZE :: nat where "SECTOR_SIZE = 512"

definition FAT12_EOF :: "16 word" where "FAT12_EOF = 0xFF8"

definition FAT12_BAD_CLUSTER :: "16 word" where "FAT12_BAD_CLUSTER = 0xFF7"

definition FAT12_FREE_CLUSTER :: "16 word" where "FAT12_FREE_CLUSTER = 0x000"

definition DIR_ENTRY_DELETED :: byte where "DIR_ENTRY_DELETED = 0xE5"

definition DIR_ENTRY_END :: byte where "DIR_ENTRY_END = 0x00"

definition ATTR_DIRECTORY :: byte where "ATTR_DIRECTORY = 0x10"

definition ATTR_VOLUME_ID :: byte where "ATTR_VOLUME_ID = 0x08"

definition ATTR_LFN :: byte where "ATTR_LFN = 0x0F"

definition ATTR_ARCHIVE :: byte where "ATTR_ARCHIVE = 0x20"

subsection \<open>Structures on disk\<close>

definition u16_le :: "byte list \<Rightarrow> nat \<Rightarrow> 16 word" where
  "u16_le bs i = ucast (bs ! i) OR push_bit 8 (ucast (bs ! (i + 1)))"

definition u32_le :: "byte list \<Rightarrow> nat \<Rightarrow> 32 word" where
  "u32_le bs i = ucast (bs ! i) OR push_bit 8 (ucast (bs ! (i + 1))) OR push_bit 16 (ucast (bs ! (i + 2)))
     OR push_bit 24 (ucast (bs ! (i + 3)))"

definition le_u16 :: "16 word \<Rightarrow> byte list" where
  "le_u16 w = [ucast w, ucast (drop_bit 8 w)]"

definition le_u32 :: "32 word \<Rightarrow> byte list" where
  "le_u32 w = [ucast w, ucast (drop_bit 8 w), ucast (drop_bit 16 w), ucast (drop_bit 24 w)]"

definition slice :: "nat \<Rightarrow> nat \<Rightarrow> 'a list \<Rightarrow> 'a list" where
  "slice i n xs = take n (drop i xs)"

record bios_parameter_block =
  jmp_boot :: "byte list"
  oem_name :: "byte list"
  bytes_per_sector :: "16 word"
  sectors_per_cluster :: byte
  reserved_sectors :: "16 word"
  num_fats :: byte
  root_entry_count :: "16 word"
  total_sectors_16 :: "16 word"
  media_type :: byte
  fat_size_16 :: "16 word"
  sectors_per_track :: "16 word"
  num_heads :: "16 word"
  hidden_sectors :: "32 word"
  total_sectors_32 :: "32 word"
  drive_number :: byte
  reserved1 :: byte
  boot_signature :: byte
  volume_id :: "32 word"
  volume_label :: "byte list"
  fs_type :: "byte list"

definition bpb_of_bytes :: "byte list \<Rightarrow> bios_parameter_block" where
  "bpb_of_bytes b = \<lparr>jmp_boot = slice 0 3 b, oem_name = slice 3 8 b, bytes_per_sector = u16_le b 11,
     sectors_per_cluster = b ! 13, reserved_sectors = u16_le b 14, num_fats = b ! 16, root_entry_count = u16_le b 17,
     total_sectors_16 = u16_le b 19, media_type = b ! 21, fat_size_16 = u16_le b 22, sectors_per_track = u16_le b 24,
     num_heads = u16_le b 26, hidden_sectors = u32_le b 28, total_sectors_32 = u32_le b 32, drive_number = b ! 36,
     reserved1 = b ! 37, boot_signature = b ! 38, volume_id = u32_le b 39, volume_label = slice 43 11 b,
     fs_type = slice 54 8 b\<rparr>"

record directory_entry =
  d_name :: "byte list"
  d_attributes :: byte
  d_reserved :: byte
  d_creation_time_tenth :: byte
  d_creation_time :: "16 word"
  d_creation_date :: "16 word"
  d_last_access_date :: "16 word"
  d_first_cluster_high :: "16 word"
  d_last_mod_time :: "16 word"
  d_last_mod_date :: "16 word"
  d_first_cluster :: "16 word"
  d_file_size :: "32 word"

definition entry_of_bytes :: "byte list \<Rightarrow> directory_entry" where
  "entry_of_bytes b = \<lparr>d_name = slice 0 11 b, d_attributes = b ! 11, d_reserved = b ! 12, d_creation_time_tenth = b ! 13,
     d_creation_time = u16_le b 14, d_creation_date = u16_le b 16, d_last_access_date = u16_le b 18,
     d_first_cluster_high = u16_le b 20, d_last_mod_time = u16_le b 22, d_last_mod_date = u16_le b 24,
     d_first_cluster = u16_le b 26, d_file_size = u32_le b 28\<rparr>"

definition bytes_of_entry :: "directory_entry \<Rightarrow> byte list" where
  "bytes_of_entry e = d_name e @ [d_attributes e, d_reserved e, d_creation_time_tenth e] @ le_u16 (d_creation_time e) @
     le_u16 (d_creation_date e) @ le_u16 (d_last_access_date e) @ le_u16 (d_first_cluster_high e) @
     le_u16 (d_last_mod_time e) @ le_u16 (d_last_mod_date e) @ le_u16 (d_first_cluster e) @ le_u32 (d_file_size e)"

subsection \<open>Names\<close>

text \<open>Strings are the bytes of their UTF-8 encoding.\<close>

type_synonym str = "byte list"

definition entry_is_empty :: "directory_entry \<Rightarrow> bool" where
  "entry_is_empty e \<longleftrightarrow> d_name e ! 0 = DIR_ENTRY_END"

definition is_deleted :: "directory_entry \<Rightarrow> bool" where
  "is_deleted e \<longleftrightarrow> d_name e ! 0 = DIR_ENTRY_DELETED"

definition is_lfn :: "directory_entry \<Rightarrow> bool" where
  "is_lfn e \<longleftrightarrow> d_attributes e = ATTR_LFN"

definition is_directory :: "directory_entry \<Rightarrow> bool" where
  "is_directory e \<longleftrightarrow> d_attributes e AND ATTR_DIRECTORY \<noteq> 0"

definition is_volume_id :: "directory_entry \<Rightarrow> bool" where
  "is_volume_id e \<longleftrightarrow> d_attributes e AND ATTR_VOLUME_ID \<noteq> 0"

text \<open>A byte pushed as a character is the code point of that number.\<close>

definition char_utf8 :: "byte \<Rightarrow> str" where
  "char_utf8 b = (if b < 128 then [b] else [0xC0 OR drop_bit 6 b, 0x80 OR (b AND 0x3F)])"

definition get_name :: "directory_entry \<Rightarrow> string + str" where
  "get_name e =
     (if entry_is_empty e \<or> is_deleted e \<or> is_lfn e \<or> is_volume_id e then Inl ''Invalid entry''
      else
        let name = concat (map char_utf8 (takeWhile (\<lambda>b. b \<noteq> 32) (slice 0 8 (d_name e))));
            ext = filter (\<lambda>b. b \<noteq> 32) (slice 8 3 (d_name e))
        in Inr (name @ (if ext = [] then [] else 46 # concat (map char_utf8 ext))))"

fun split_on :: "byte \<Rightarrow> str \<Rightarrow> str list" where
  "split_on d [] = [[]]"
| "split_on d (b # bs) = (if b = d then [] # split_on d bs else (case split_on d bs of p # ps \<Rightarrow> (b # p) # ps | [] \<Rightarrow> [[b]]))"

definition to_ascii_uppercase :: "byte \<Rightarrow> byte" where
  "to_ascii_uppercase b = (if 97 \<le> b \<and> b \<le> 122 then b - 32 else b)"

definition to_ascii_lowercase :: "byte \<Rightarrow> byte" where
  "to_ascii_lowercase b = (if 65 \<le> b \<and> b \<le> 90 then b + 32 else b)"

definition eq_ignore_ascii_case :: "str \<Rightarrow> str \<Rightarrow> bool" where
  "eq_ignore_ascii_case a b \<longleftrightarrow> map to_ascii_lowercase a = map to_ascii_lowercase b"

definition pad_name :: "nat \<Rightarrow> str \<Rightarrow> byte list" where
  "pad_name n s = map to_ascii_uppercase s @ replicate (n - length s) 32"

definition set_name :: "directory_entry \<Rightarrow> str \<Rightarrow> string + directory_entry" where
  "set_name e filename =
     (let parts = split_on 46 filename in
      if length parts = 2 \<or> length parts = 1 then
        let name_part = parts ! 0; ext_part = (if length parts = 2 then parts ! 1 else []) in
        if length name_part > 8 \<or> length ext_part > 3 then Inl ''Filename too long''
        else Inr (e\<lparr>d_name := pad_name 8 name_part @ pad_name 3 ext_part\<rparr>)
      else Inl ''Invalid filename format'')"

definition blank_entry :: "byte \<Rightarrow> 16 word \<Rightarrow> 32 word \<Rightarrow> directory_entry" where
  "blank_entry attributes cluster size' = \<lparr>d_name = replicate 11 32, d_attributes = attributes, d_reserved = 0, d_creation_time_tenth = 0,
     d_creation_time = 0, d_creation_date = 0, d_last_access_date = 0, d_first_cluster_high = 0,
     d_last_mod_time = 0, d_last_mod_date = 0, d_first_cluster = cluster, d_file_size = size'\<rparr>"

definition new_file :: "str \<Rightarrow> 16 word \<Rightarrow> 32 word \<Rightarrow> string + directory_entry" where
  "new_file name cluster size' = set_name (blank_entry ATTR_ARCHIVE cluster size') name"

definition new_directory :: "str \<Rightarrow> 16 word \<Rightarrow> string + directory_entry" where
  "new_directory name cluster = set_name (blank_entry ATTR_DIRECTORY cluster 0) name"

subsection \<open>The volume\<close>

record fat12 =
  ide_of :: ide
  FAT_LOCK :: bool
  FAT_INITIALIZED :: bool
  FAT_DRIVE :: nat
  BPB :: bios_parameter_block
  FAT_START_SECTOR :: nat
  ROOT_DIR_START_SECTOR :: nat
  DATA_START_SECTOR :: nat
  ROOT_DIR_SECTORS :: nat
  FAT_CACHE :: "byte list"

type_synonym 'a fs = "fat12 \<Rightarrow> ((string + 'a) \<times> fat12) option"

definition fs_ok :: "'a \<Rightarrow> 'a fs" where
  "fs_ok x s = Some (Inr x, s)"

definition fs_err :: "string \<Rightarrow> 'a fs" where
  "fs_err e s = Some (Inl e, s)"

definition fs_panic :: "'a fs" where
  "fs_panic s = None"

definition fs_bind :: "'a fs \<Rightarrow> ('a \<Rightarrow> 'b fs) \<Rightarrow> 'b fs" where
  "fs_bind m f s = (case m s of None \<Rightarrow> None | Some (Inl e, s) \<Rightarrow> Some (Inl e, s) | Some (Inr x, s) \<Rightarrow> f x s)"

text \<open>Values computed from the state, and updates of the cached table; both may panic.\<close>

definition fs_get :: "(fat12 \<Rightarrow> 'a option) \<Rightarrow> 'a fs" where
  "fs_get g s = (case g s of None \<Rightarrow> None | Some x \<Rightarrow> Some (Inr x, s))"

definition fs_cache :: "(byte list \<Rightarrow> byte list option) \<Rightarrow> unit fs" where
  "fs_cache g s = (case g (FAT_CACHE s) of None \<Rightarrow> None | Some c \<Rightarrow> Some (Inr (), s\<lparr>FAT_CACHE := c\<rparr>))"

definition fs_lift :: "string + 'a \<Rightarrow> 'a fs" where
  "fs_lift r s = Some (r, s)"

text \<open>The public operations hold the lock around a closure; a taken lock is waited for without end.\<close>

definition fat_locked :: "'a fs \<Rightarrow> 'a fs" where
  "fat_locked m s =
     (if FAT_LOCK s then None
      else case m (s\<lparr>FAT_LOCK := True\<rparr>) of None \<Rightarrow> None | Some (r, s) \<Rightarrow> Some (r, s\<lparr>FAT_LOCK := False\<rparr>))"

subsection \<open>Sectors and clusters\<close>

fun read_run :: "ide \<Rightarrow> nat \<Rightarrow> nat \<Rightarrow> nat \<Rightarrow> byte list option" where
  "read_run d drive start 0 = Some []"
| "read_run d drive start (Suc n) =
     (if read_fails d drive start then None
      else map_option ((@) (sectors d drive start)) (read_run d drive (start + 1) n))"

definition write_sector :: "ide \<Rightarrow> nat \<Rightarrow> nat \<Rightarrow> byte list \<Rightarrow> ide" where
  "write_sector d drive lba bs = d\<lparr>sectors := (sectors d)(drive := (sectors d drive)(lba := bs))\<rparr>"

fun write_run :: "ide \<Rightarrow> nat \<Rightarrow> nat \<Rightarrow> byte list list \<Rightarrow> ide \<times> bool" where
  "write_run d drive start [] = (d, True)"
| "write_run d drive start (c # cs) =
     (if write_fails d drive start then (d, False) else write_run (write_sector d drive start c) drive (start + 1) cs)"

text \<open>The first \<open>n\<close> sectors of a buffer.\<close>

definition sector_slices :: "byte list \<Rightarrow> nat \<Rightarrow> byte list list option" where
  "sector_slices bs n =
     (if n * SECTOR_SIZE \<le> length bs then Some (map (\<lambda>i. slice (i * SECTOR_SIZE) SECTOR_SIZE bs) [0..<n]) else None)"

definition fs_read :: "string \<Rightarrow> nat \<Rightarrow> nat \<Rightarrow> byte list fs" where
  "fs_read msg start n s =
     (case read_run (ide_of s) (FAT_DRIVE s) start n of None \<Rightarrow> Some (Inl msg, s) | Some bs \<Rightarrow> Some (Inr bs, s))"

definition fs_write :: "string \<Rightarrow> nat \<Rightarrow> nat \<Rightarrow> byte list \<Rightarrow> unit fs" where
  "fs_write msg start n bs s =
     (case sector_slices bs n of
        None \<Rightarrow> None
      | Some cs \<Rightarrow>
          let (d, done) = write_run (ide_of s) (FAT_DRIVE s) start cs in
          Some (if done then Inr () else Inl msg, s\<lparr>ide_of := d\<rparr>))"

definition cluster_sectors :: "fat12 \<Rightarrow> nat" where
  "cluster_sectors s = unat (sectors_per_cluster (BPB s))"

definition cluster_size :: "fat12 \<Rightarrow> nat" where
  "cluster_size s = cluster_sectors s * SECTOR_SIZE"

definition cluster_to_sector :: "16 word \<Rightarrow> fat12 \<Rightarrow> nat option" where
  "cluster_to_sector cluster s =
     (if cluster < 2 then None else Some (DATA_START_SECTOR s + (unat cluster - 2) * cluster_sectors s))"

definition read_cluster_unlocked :: "16 word \<Rightarrow> byte list fs" where
  "read_cluster_unlocked cluster =
     fs_bind (fs_get (cluster_to_sector cluster)) (\<lambda>sector s.
       fs_read ''Failed to read cluster'' sector (cluster_sectors s) s)"

definition write_cluster_unlocked :: "16 word \<Rightarrow> byte list \<Rightarrow> unit fs" where
  "write_cluster_unlocked cluster bs =
     fs_bind (fs_get (cluster_to_sector cluster)) (\<lambda>sector s.
       let copy_len = min (length bs) (cluster_size s);
           padded = take copy_len bs @ replicate (cluster_size s - copy_len) 0
       in fs_write ''Failed to write cluster'' sector (cluster_sectors s) padded s)"

subsection \<open>Directories\<close>

definition is_visible :: "directory_entry \<Rightarrow> bool" where
  "is_visible e \<longleftrightarrow> \<not> is_deleted e \<and> \<not> is_lfn e \<and> \<not> is_volume_id e"

text \<open>
  The entries \<open>i, \<dots>, i + n - 1\<close> of a buffer up to the end marker, and whether the marker was met. An entry beyond the
  buffer is read from memory that does not belong to it.
\<close>

fun collect_entries :: "byte list \<Rightarrow> nat \<Rightarrow> nat \<Rightarrow> (directory_entry list \<times> bool) option" where
  "collect_entries bs i 0 = Some ([], False)"
| "collect_entries bs i (Suc n) =
     (if length bs < (i + 1) * 32 then None
      else
        let e = entry_of_bytes (slice (i * 32) 32 bs) in
        if entry_is_empty e then Some ([], True)
        else map_option (\<lambda>(es, ended). (if is_visible e then e # es else es, ended)) (collect_entries bs (i + 1) n))"

definition place_entries :: "nat \<Rightarrow> directory_entry list \<Rightarrow> byte list option" where
  "place_entries size' es =
     (if length es * 32 \<le> size' then Some (concat (map bytes_of_entry es) @ replicate (size' - length es * 32) 0) else None)"

definition read_root_directory_unlocked :: "directory_entry list fs" where
  "read_root_directory_unlocked s =
     fs_bind (fs_read ''Failed to read root directory'' (ROOT_DIR_START_SECTOR s) (ROOT_DIR_SECTORS s)) (\<lambda>root_data.
       fs_get (\<lambda>s. map_option fst (collect_entries root_data 0 (unat (root_entry_count (BPB s)))))) s"

definition write_root_directory_unlocked :: "directory_entry list \<Rightarrow> unit fs" where
  "write_root_directory_unlocked es s =
     fs_bind (fs_get (\<lambda>s. place_entries (ROOT_DIR_SECTORS s * SECTOR_SIZE) es)) (\<lambda>root_data.
       fs_write ''Failed to write root directory'' (ROOT_DIR_START_SECTOR s) (ROOT_DIR_SECTORS s) root_data) s"

fun flush_copies :: "nat \<Rightarrow> nat \<Rightarrow> unit fs" where
  "flush_copies fat_num 0 = fs_ok ()"
| "flush_copies fat_num (Suc k) = fs_bind
     (\<lambda>s. fs_write ''Failed to write backup FAT'' (FAT_START_SECTOR s + fat_num * unat (fat_size_16 (BPB s)))
        (unat (fat_size_16 (BPB s))) (FAT_CACHE s) s)
     (\<lambda>_. flush_copies (fat_num + 1) k)"

definition flush_fat_unlocked :: "unit fs" where
  "flush_fat_unlocked s =
     fs_bind (fs_write ''Failed to write FAT'' (FAT_START_SECTOR s) (unat (fat_size_16 (BPB s))) (FAT_CACHE s))
       (\<lambda>_. flush_copies 1 (unat (num_fats (BPB s)) - 1)) s"

subsection \<open>The file allocation table\<close>

definition get_fat_entry :: "byte list \<Rightarrow> 16 word \<Rightarrow> 16 word option" where
  "get_fat_entry cache cluster =
     (let off = unat cluster * 3 div 2 in
      if off + 1 < length cache then
        let v = u16_le cache off in Some (if cluster AND 1 = 0 then v AND 0x0FFF else drop_bit 4 v)
      else None)"

definition set_fat_entry :: "16 word \<Rightarrow> 16 word \<Rightarrow> byte list \<Rightarrow> byte list option" where
  "set_fat_entry cluster v cache =
     (let off = unat cluster * 3 div 2 in
      if off + 1 < length cache then
        Some (if cluster AND 1 = 0 then
                cache[off := ucast (v AND 0xFF),
                      off + 1 := (cache ! (off + 1) AND 0xF0) OR ucast (drop_bit 8 v AND 0x0F)]
              else
                cache[off := (cache ! off AND 0x0F) OR ucast (push_bit 4 (v AND 0x0F)),
                      off + 1 := ucast (drop_bit 4 v AND 0xFF)])
      else None)"

definition fat_entry :: "16 word \<Rightarrow> 16 word fs" where
  "fat_entry cluster = fs_get (\<lambda>s. get_fat_entry (FAT_CACHE s) cluster)"

fun scan_free :: "16 word list \<Rightarrow> 16 word fs" where
  "scan_free [] = fs_err ''No free clusters''"
| "scan_free (c # cs) = fs_bind (fat_entry c) (\<lambda>v.
     if v = FAT12_FREE_CLUSTER then fs_bind (fs_cache (set_fat_entry c FAT12_EOF)) (\<lambda>_. fs_ok c) else scan_free cs)"

definition all_clusters :: "16 word list" where
  "all_clusters = map of_nat [2..<0xFF0]"

definition allocate_cluster :: "16 word fs" where
  "allocate_cluster = scan_free all_clusters"

partial_function (option) free_cluster_chain :: "16 word \<Rightarrow> byte list \<Rightarrow> byte list option" where
  "free_cluster_chain cluster cache =
     (if cluster \<ge> 2 \<and> cluster < FAT12_BAD_CLUSTER then do {
        nx \<leftarrow> get_fat_entry cache cluster;
        cache \<leftarrow> set_fat_entry cluster FAT12_FREE_CLUSTER cache;
        if nx \<ge> FAT12_EOF then Some cache else free_cluster_chain nx cache }
      else Some cache)"

declare free_cluster_chain.simps [code]

fun count_free :: "byte list \<Rightarrow> 16 word list \<Rightarrow> nat option" where
  "count_free cache [] = Some 0"
| "count_free cache (c # cs) = do {
     v \<leftarrow> get_fat_entry cache c;
     n \<leftarrow> count_free cache cs;
     Some (if v = FAT12_FREE_CLUSTER then n + 1 else n) }"

definition count_free_clusters :: "byte list \<Rightarrow> nat option" where
  "count_free_clusters cache = count_free cache all_clusters"

subsection \<open>Searching\<close>

definition has_name :: "str \<Rightarrow> directory_entry \<Rightarrow> bool" where
  "has_name filename e = (case get_name e of Inl _ \<Rightarrow> False | Inr name \<Rightarrow> eq_ignore_ascii_case name filename)"

fun find_index :: "nat \<Rightarrow> str \<Rightarrow> directory_entry list \<Rightarrow> (nat \<times> directory_entry) option" where
  "find_index i filename [] = None"
| "find_index i filename (e # es) = (if has_name filename e then Some (i, e) else find_index (i + 1) filename es)"

definition find_entry_with_index_unlocked :: "str \<Rightarrow> (nat \<times> directory_entry) fs" where
  "find_entry_with_index_unlocked filename = fs_bind read_root_directory_unlocked (\<lambda>es.
     case find_index 0 filename es of None \<Rightarrow> fs_err ''File not found'' | Some p \<Rightarrow> fs_ok p)"

definition find_entry_unlocked :: "str \<Rightarrow> directory_entry fs" where
  "find_entry_unlocked filename = fs_bind read_root_directory_unlocked (\<lambda>es.
     case find (has_name filename) es of None \<Rightarrow> fs_err ''File not found'' | Some e \<Rightarrow> fs_ok e)"

subsection \<open>Chains\<close>

definition read_cluster_data :: "16 word \<Rightarrow> fat12 \<Rightarrow> (string + byte list) option" where
  "read_cluster_data cluster s = map_option fst (read_cluster_unlocked cluster s)"

partial_function (option) read_subdirectory_loop ::
    "fat12 \<Rightarrow> 16 word \<Rightarrow> directory_entry list \<Rightarrow> (string + directory_entry list) option" where
  "read_subdirectory_loop s cluster entries =
     (if cluster < 2 \<or> cluster \<ge> FAT12_BAD_CLUSTER then Some (Inr entries)
      else do {
        r \<leftarrow> read_cluster_data cluster s;
        if isl r then Some (Inl (projl r))
        else do {
          p \<leftarrow> collect_entries (projr r) 0 (length (projr r) div 32);
          if snd p then Some (Inr (entries @ fst p))
          else do {
            nx \<leftarrow> get_fat_entry (FAT_CACHE s) cluster;
            if nx \<ge> FAT12_EOF then Some (Inr (entries @ fst p))
            else read_subdirectory_loop s nx (entries @ fst p) } } })"

definition read_subdirectory_unlocked :: "16 word \<Rightarrow> directory_entry list fs" where
  "read_subdirectory_unlocked cluster s = map_option (\<lambda>r. (r, s)) (read_subdirectory_loop s cluster [])"

partial_function (option) write_subdirectory_loop ::
    "byte list \<Rightarrow> nat \<Rightarrow> 16 word \<Rightarrow> nat \<Rightarrow> fat12 \<Rightarrow> ((string + unit) \<times> fat12) option" where
  "write_subdirectory_loop dir_data needed cluster chunk s = do {
     w \<leftarrow> write_cluster_unlocked cluster (slice (chunk * cluster_size s) (cluster_size s) dir_data) s;
     if isl (fst w) then Some w
     else do {
       nx \<leftarrow> get_fat_entry (FAT_CACHE (snd w)) cluster;
       if chunk + 1 \<ge> needed then do {
         cache \<leftarrow> (if nx < FAT12_EOF then free_cluster_chain nx (FAT_CACHE (snd w)) else Some (FAT_CACHE (snd w)));
         cache \<leftarrow> set_fat_entry cluster FAT12_EOF cache;
         Some (Inr (), (snd w)\<lparr>FAT_CACHE := cache\<rparr>) }
       else if nx \<ge> FAT12_EOF then do {
         r \<leftarrow> allocate_cluster (snd w);
         if isl (fst r) then Some (Inl (projl (fst r)), snd r)
         else do {
           cache \<leftarrow> set_fat_entry cluster (projr (fst r)) (FAT_CACHE (snd r));
           write_subdirectory_loop dir_data needed (projr (fst r)) (chunk + 1) ((snd r)\<lparr>FAT_CACHE := cache\<rparr>) } }
       else write_subdirectory_loop dir_data needed nx (chunk + 1) (snd w) } }"

definition write_subdirectory_unlocked :: "16 word \<Rightarrow> directory_entry list \<Rightarrow> unit fs" where
  "write_subdirectory_unlocked cluster entries s =
     (let entries_per_cluster = cluster_size s div 32 in
      if entries_per_cluster = 0 then None
      else
        let needed = (length entries + 1 + entries_per_cluster - 1) div entries_per_cluster in do {
        dir_data \<leftarrow> place_entries (needed * cluster_size s) entries;
        write_subdirectory_loop dir_data needed cluster 0 s })"

fun allocate_clusters :: "nat \<Rightarrow> 16 word list fs" where
  "allocate_clusters 0 = fs_ok []"
| "allocate_clusters (Suc n) = fs_bind allocate_cluster (\<lambda>c. fs_bind (allocate_clusters n) (\<lambda>cs. fs_ok (c # cs)))"

fun link_chain :: "16 word list \<Rightarrow> byte list \<Rightarrow> byte list option" where
  "link_chain [] cache = None"
| "link_chain [c] cache = set_fat_entry c FAT12_EOF cache"
| "link_chain (c # d # cs) cache = do { cache \<leftarrow> set_fat_entry c d cache; link_chain (d # cs) cache }"

fun write_chain :: "16 word list \<Rightarrow> byte list \<Rightarrow> unit fs" where
  "write_chain [] bs s = fs_ok () s"
| "write_chain (c # cs) bs s =
     fs_bind (write_cluster_unlocked c (take (cluster_size s) bs)) (\<lambda>_. write_chain cs (drop (cluster_size s) bs)) s"

definition allocate_and_write_chain :: "byte list \<Rightarrow> 16 word list fs" where
  "allocate_and_write_chain bs s =
     (if cluster_size s = 0 then None
      else fs_bind (allocate_clusters ((length bs + cluster_size s - 1) div cluster_size s)) (\<lambda>clusters.
        fs_bind (fs_cache (link_chain clusters)) (\<lambda>_. fs_bind (write_chain clusters bs) (\<lambda>_. fs_ok clusters))) s)"

partial_function (option) read_chain :: "fat12 \<Rightarrow> 16 word \<Rightarrow> byte list \<Rightarrow> (string + byte list) option" where
  "read_chain s cluster bs =
     (if cluster < 2 \<or> cluster \<ge> FAT12_BAD_CLUSTER then Some (Inr bs)
      else do {
        r \<leftarrow> read_cluster_data cluster s;
        if isl r then Some (Inl (projl r))
        else do {
          nx \<leftarrow> get_fat_entry (FAT_CACHE s) cluster;
          if nx \<ge> FAT12_EOF then Some (Inr (bs @ projr r)) else read_chain s nx (bs @ projr r) } })"

declare read_subdirectory_loop.simps [code] write_subdirectory_loop.simps [code] read_chain.simps [code]

subsection \<open>The public operations\<close>

definition fat12_init :: "nat \<Rightarrow> unit fs" where
  "fat12_init drive = fat_locked (\<lambda>s.
     case read_run (ide_of s) drive 0 1 of
       None \<Rightarrow> Some (Inl ''Failed to read boot sector'', s)
     | Some boot_sector \<Rightarrow>
         let bpb = bpb_of_bytes boot_sector in
         if boot_sector ! 510 \<noteq> 0x55 \<or> boot_sector ! 511 \<noteq> 0xAA then Some (Inl ''Invalid boot sector signature'', s)
         else if slice 0 5 (fs_type bpb) \<noteq> [70, 65, 84, 49, 50] \<and> \<not> (bytes_per_sector bpb = 512 \<and> sectors_per_cluster bpb > 0)
         then Some (Inl ''Not a FAT12 filesystem'', s)
         else if bytes_per_sector bpb = 0 then None
         else
           let fat_start = unat (reserved_sectors bpb);
               root_dir_sectors = (unat (root_entry_count bpb) * 32 + (unat (bytes_per_sector bpb) - 1)) div unat (bytes_per_sector bpb);
               root_dir_start = fat_start + unat (num_fats bpb) * unat (fat_size_16 bpb);
               data_start = root_dir_start + root_dir_sectors
           in case read_run (ide_of s) drive fat_start (unat (fat_size_16 bpb)) of
                None \<Rightarrow> Some (Inl ''Failed to read FAT'', s)
              | Some fat_cache \<Rightarrow> Some (Inr (), s\<lparr>FAT_DRIVE := drive, BPB := bpb, FAT_START_SECTOR := fat_start,
                  ROOT_DIR_START_SECTOR := root_dir_start, DATA_START_SECTOR := data_start, ROOT_DIR_SECTORS := root_dir_sectors,
                  FAT_CACHE := fat_cache, FAT_INITIALIZED := True\<rparr>))"

definition fs_initialized :: "unit fs" where
  "fs_initialized s = (if FAT_INITIALIZED s then fs_ok () s else fs_err ''FAT12 not initialized'' s)"

definition fs_unless :: "bool \<Rightarrow> string \<Rightarrow> unit fs" where
  "fs_unless b msg = (if b then fs_err msg else fs_ok ())"

definition fat12_read_file :: "str \<Rightarrow> byte list fs" where
  "fat12_read_file filename = fat_locked (fs_bind (find_entry_unlocked filename) (\<lambda>e.
     if d_file_size e = 0 then fs_ok []
     else (\<lambda>s. map_option (\<lambda>r. (map_sum id (take (unat (d_file_size e))) r, s)) (read_chain s (d_first_cluster e) []))))"

definition fat12_create_file :: "str \<Rightarrow> byte list \<Rightarrow> unit fs" where
  "fat12_create_file filename bs = fat_locked (fs_bind fs_initialized (\<lambda>_.
     fs_bind (fs_unless (bs = []) ''Cannot create empty file'') (\<lambda>_.
     fs_bind (allocate_and_write_chain bs) (\<lambda>clusters.
     fs_bind read_root_directory_unlocked (\<lambda>entries.
     fs_bind (fs_unless (list_ex (has_name filename) entries) ''File already exists'') (\<lambda>_.
     fs_bind (fs_lift (new_file filename (clusters ! 0) (of_nat (length bs)))) (\<lambda>e.
     fs_bind (write_root_directory_unlocked (entries @ [e])) (\<lambda>_.
     flush_fat_unlocked))))))))"

definition fat12_write_file :: "str \<Rightarrow> byte list \<Rightarrow> unit fs" where
  "fat12_write_file filename bs = fat_locked (fs_bind fs_initialized (\<lambda>_.
     fs_bind (find_entry_with_index_unlocked filename) (\<lambda>(index, old_entry).
     fs_bind (fs_cache (free_cluster_chain (d_first_cluster old_entry))) (\<lambda>_.
     fs_bind read_root_directory_unlocked (\<lambda>entries.
     if index \<ge> length entries then fs_panic
     else if bs = [] then
       fs_bind (write_root_directory_unlocked
         (entries[index := (entries ! index)\<lparr>d_first_cluster := 0, d_file_size := 0\<rparr>])) (\<lambda>_. flush_fat_unlocked)
     else fs_bind (allocate_and_write_chain bs) (\<lambda>clusters.
       fs_bind (write_root_directory_unlocked
         (entries[index := (entries ! index)\<lparr>d_first_cluster := clusters ! 0, d_file_size := of_nat (length bs)\<rparr>])) (\<lambda>_.
       flush_fat_unlocked)))))))"

definition fat12_append_file :: "str \<Rightarrow> byte list \<Rightarrow> unit fs" where
  "fat12_append_file filename bs = fs_bind (fat12_read_file filename) (\<lambda>existing. fat12_write_file filename (existing @ bs))"

definition fat12_rename_file :: "str \<Rightarrow> str \<Rightarrow> unit fs" where
  "fat12_rename_file old_name new_name = fat_locked (fs_bind fs_initialized (\<lambda>_.
     fs_bind read_root_directory_unlocked (\<lambda>entries.
     fs_bind (fs_unless (list_ex (has_name new_name) entries) ''Destination filename already exists'') (\<lambda>_.
     fs_bind (find_entry_with_index_unlocked old_name) (\<lambda>(index, _).
     if index \<ge> length entries then fs_panic
     else fs_bind (fs_lift (set_name (entries ! index) new_name)) (\<lambda>e.
       write_root_directory_unlocked (entries[index := e])))))))"

definition remove_entry :: "nat \<Rightarrow> 16 word \<Rightarrow> unit fs" where
  "remove_entry index cluster =
     fs_bind (fs_cache (free_cluster_chain cluster)) (\<lambda>_.
     fs_bind read_root_directory_unlocked (\<lambda>entries.
     if index \<ge> length entries then fs_panic
     else fs_bind (write_root_directory_unlocked
         (entries[index := (entries ! index)\<lparr>d_name := (d_name (entries ! index))[0 := DIR_ENTRY_DELETED]\<rparr>])) (\<lambda>_.
       flush_fat_unlocked)))"

definition fat12_delete_file :: "str \<Rightarrow> unit fs" where
  "fat12_delete_file filename = fat_locked (fs_bind (find_entry_with_index_unlocked filename) (\<lambda>(index, e).
     remove_entry index (d_first_cluster e)))"

definition dot_entries :: "16 word \<Rightarrow> directory_entry list" where
  "dot_entries cluster =
     [(blank_entry ATTR_DIRECTORY cluster 0)\<lparr>d_name := 46 # replicate 10 32\<rparr>,
      (blank_entry ATTR_DIRECTORY 0 0)\<lparr>d_name := [46, 46] @ replicate 9 32\<rparr>]"

definition fat12_create_directory :: "str \<Rightarrow> unit fs" where
  "fat12_create_directory dirname = fat_locked (fs_bind fs_initialized (\<lambda>_.
     fs_bind read_root_directory_unlocked (\<lambda>entries.
     fs_bind (fs_unless (list_ex (has_name dirname) entries) ''Directory already exists'') (\<lambda>_.
     fs_bind allocate_cluster (\<lambda>cluster.
     fs_bind (fs_get (\<lambda>s. place_entries (cluster_size s) (dot_entries cluster))) (\<lambda>dir_data.
     fs_bind (write_cluster_unlocked cluster dir_data) (\<lambda>_.
     fs_bind (fs_lift (new_directory dirname cluster)) (\<lambda>e.
     fs_bind (write_root_directory_unlocked (entries @ [e])) (\<lambda>_.
     flush_fat_unlocked)))))))))"

definition is_dot_name :: "directory_entry \<Rightarrow> bool" where
  "is_dot_name e = (case get_name e of Inl _ \<Rightarrow> True | Inr n \<Rightarrow> n = [46] \<or> n = [46, 46])"

definition fat12_delete_directory :: "str \<Rightarrow> unit fs" where
  "fat12_delete_directory dirname = fat_locked (fs_bind (find_entry_with_index_unlocked dirname) (\<lambda>(index, e).
     fs_bind (fs_unless (\<not> is_directory e) ''Not a directory'') (\<lambda>_.
     fs_bind (read_subdirectory_unlocked (d_first_cluster e)) (\<lambda>sub.
     fs_bind (fs_unless (\<not> list_all is_dot_name sub) ''Directory not empty'') (\<lambda>_.
     remove_entry index (d_first_cluster e))))))"

definition fat12_list_entries :: "directory_entry list fs" where
  "fat12_list_entries = fat_locked read_root_directory_unlocked"

definition fat12_list_directory :: "str \<Rightarrow> directory_entry list fs" where
  "fat12_list_directory dirname = fat_locked (fs_bind (find_entry_unlocked dirname) (\<lambda>e.
     fs_bind (fs_unless (\<not> is_directory e) ''Not a directory'') (\<lambda>_. read_subdirectory_unlocked (d_first_cluster e))))"

definition entry_names :: "directory_entry list \<Rightarrow> str list" where
  "entry_names es = concat (map (\<lambda>e. case get_name e of Inl _ \<Rightarrow> [] | Inr n \<Rightarrow> [n]) es)"

definition fat12_list_files :: "str list fs" where
  "fat12_list_files = fat_locked (fs_bind read_root_directory_unlocked (\<lambda>es. fs_ok (entry_names es)))"

text \<open>The queries drop the error message: \<open>None\<close> inside of the result is the answer "no".\<close>

definition fs_query :: "'a fs \<Rightarrow> fat12 \<Rightarrow> ('a option \<times> fat12) option" where
  "fs_query m s = map_option (\<lambda>(r, s). (case r of Inl _ \<Rightarrow> None | Inr x \<Rightarrow> Some x, s)) (fat_locked m s)"

definition fat12_file_exists :: "str \<Rightarrow> fat12 \<Rightarrow> (bool \<times> fat12) option" where
  "fat12_file_exists filename s = map_option (\<lambda>(r, s). (r \<noteq> None, s)) (fs_query (find_entry_unlocked filename) s)"

definition fat12_get_file_size :: "str \<Rightarrow> fat12 \<Rightarrow> (32 word option \<times> fat12) option" where
  "fat12_get_file_size filename s = map_option (\<lambda>(r, s). (map_option d_file_size r, s)) (fs_query (find_entry_unlocked filename) s)"

definition fat12_get_attributes :: "str \<Rightarrow> fat12 \<Rightarrow> (byte option \<times> fat12) option" where
  "fat12_get_attributes filename s = map_option (\<lambda>(r, s). (map_option d_attributes r, s)) (fs_query (find_entry_unlocked filename) s)"

definition fat12_stat :: "(nat \<times> nat) fs" where
  "fat12_stat = fat_locked (\<lambda>s.
     let total_sectors = (if total_sectors_16 (BPB s) \<noteq> 0 then unat (total_sectors_16 (BPB s)) else unat (total_sectors_32 (BPB s)))
     in map_option (\<lambda>free. (Inr (total_sectors * SECTOR_SIZE, free * cluster_sectors s * SECTOR_SIZE), s))
          (count_free_clusters (FAT_CACHE s)))"

end
