(* ===== verification/FatTable.thy ===== *)
theory FatTable
  imports Fat12
begin

text \<open>
  The file allocation table of a FAT12 volume: the packed 12-bit entries are a map from clusters to entries, and the routines that
  allocate, link and free clusters are described by what they do to that map.
\<close>

section \<open>Definitions\<close>

definition valid_cluster :: "16 word \<Rightarrow> bool" where
  "valid_cluster c \<longleftrightarrow> 2 \<le> c \<and> c < FAT12_BAD_CLUSTER"

fun is_chain :: "byte list \<Rightarrow> 16 word list \<Rightarrow> bool" where
  "is_chain cache [] = False"
| "is_chain cache [c] = (valid_cluster c \<and> (case get_fat_entry cache c of None \<Rightarrow> False | Some v \<Rightarrow> FAT12_EOF \<le> v))"
| "is_chain cache (c # d # cs) = (valid_cluster c \<and> get_fat_entry cache c = Some d \<and> is_chain cache (d # cs))"

definition free_set :: "byte list \<Rightarrow> 16 word set" where
  "free_set cache = {c \<in> set all_clusters. get_fat_entry cache c = Some 0}"

definition table_closed :: "byte list \<Rightarrow> bool" where
  "table_closed cache \<longleftrightarrow> (\<forall>c v. get_fat_entry cache c = Some v \<longrightarrow> valid_cluster v \<longrightarrow> get_fat_entry cache v \<noteq> None)"

definition used_clusters :: "byte list \<Rightarrow> 16 word set" where
  "used_clusters cache = {c. valid_cluster c \<and> (\<exists>v. get_fat_entry cache c = Some v \<and> v \<noteq> 0)}"

section \<open>The table as a map\<close>

text \<open>Even and odd clusters share the middle byte of three.\<close>

lemma cluster_parity:
  fixes c :: "16 word"
  shows "c AND 1 = 0 \<longleftrightarrow> even (unat c)"
  by (simp add: and_one_eq word_unat_eq_iff unat_mod even_iff_mod_2_eq_zero)

lemma fat_offset_even: "even c \<Longrightarrow> c * 3 div 2 = 3 * (c div 2)" for c :: nat
  by (auto elim!: evenE)

lemma fat_offset_odd: "odd c \<Longrightarrow> c * 3 div 2 = 3 * (c div 2) + 1" for c :: nat
  by (auto elim!: oddE)

lemma set_fat_entry_length: "set_fat_entry c v cache = Some cache' \<Longrightarrow> length cache' = length cache"
  by (auto simp: set_fat_entry_def Let_def split: if_splits)

lemma word16_eqI:
  fixes x y :: "16 word"
  assumes "\<forall>n\<in>{0,1,2,3,4,5,6,7,8,9,10,11,12,13,14,15}. bit x n = bit y n"
  shows "x = y"
proof (rule bit_word_eqI)
  fix n assume "n < LENGTH(16)"
  then have "n \<in> {0,1,2,3,4,5,6,7,8,9,10,11,12,13,14,15}" by simp presburger
  then show "bit x n = bit y n" using assms by blast
qed

lemma fat_even_value:
  fixes b :: byte and v :: "16 word"
  shows "(ucast (ucast (v AND 0xFF) :: byte) OR push_bit 8 (ucast ((b AND 0xF0) OR ucast (drop_bit 8 v AND 0x0F)))) AND 0x0FFF = v AND 0x0FFF"
  by (rule word16_eqI) (simp add: bit_simps)

lemma fat_odd_value:
  fixes b :: byte and v :: "16 word"
  shows "drop_bit 4 (ucast ((b AND 0x0F) OR ucast (push_bit 4 (v AND 0x0F))) OR push_bit 8 (ucast (ucast (drop_bit 4 v AND 0xFF) :: byte)))
    = v AND 0x0FFF"
  by (rule word16_eqI) (simp add: bit_simps)

lemma fat_even_keeps:
  fixes b c :: byte and v :: "16 word"
  shows "drop_bit 4 (ucast ((b AND 0xF0) OR ucast (drop_bit 8 v AND 0x0F)) OR push_bit 8 (ucast c))
    = drop_bit 4 (ucast b OR push_bit 8 (ucast c) :: 16 word)"
  by (rule word16_eqI) (simp add: bit_simps impossible_bit)

lemma fat_odd_keeps:
  fixes b c :: byte and v :: "16 word"
  shows "(ucast c OR push_bit 8 (ucast ((b AND 0x0F) OR ucast (push_bit 4 (v AND 0x0F))))) AND 0x0FFF
    = (ucast c OR push_bit 8 (ucast b) :: 16 word) AND 0x0FFF"
  by (rule word16_eqI) (simp add: bit_simps impossible_bit)


lemma set_fat_entry_defined: "set_fat_entry c v cache \<noteq> None \<longleftrightarrow> get_fat_entry cache c \<noteq> None"
  by (simp add: set_fat_entry_def get_fat_entry_def Let_def)

lemma get_fat_entry_defined: "get_fat_entry cache c \<noteq> None \<longleftrightarrow> unat c * 3 div 2 + 1 < length cache"
  by (simp add: get_fat_entry_def Let_def)

lemma set_fat_entry_same:
  assumes "set_fat_entry c v cache = Some cache'"
  shows "get_fat_entry cache' c = Some (v AND 0x0FFF)"
  using assms fat_even_value [of v] fat_odd_value [of _ v]
  by (auto simp: set_fat_entry_def get_fat_entry_def Let_def u16_le_def split: if_splits)

lemma set_fat_entry_other:
  assumes "set_fat_entry c v cache = Some cache'" "c' \<noteq> c"
  shows "get_fat_entry cache' c' = get_fat_entry cache c'"
proof -
  let ?k = "unat c div 2" and ?k' = "unat c' div 2"
  have ne: "unat c \<noteq> unat c'" using assms(2) by (simp add: word_unat_eq_iff)
  have at: "even (unat c) = even (unat c') \<Longrightarrow> ?k \<noteq> ?k'"
    using ne by (metis div_mult_mod_eq even_iff_mod_2_eq_zero odd_iff_mod_2_eq_one)
  show ?thesis
  proof (cases "even (unat c)")
    case True
    then show ?thesis
      using assms(1) at fat_even_keeps
      by (cases "even (unat c')"; cases "?k' = ?k")
        (auto simp: set_fat_entry_def get_fat_entry_def Let_def u16_le_def cluster_parity fat_offset_even fat_offset_odd
          nth_list_update split: if_splits)
  next
    case False
    then show ?thesis
      using assms(1) at fat_odd_keeps
      by (cases "even (unat c')"; cases "?k' = ?k")
        (auto simp: set_fat_entry_def get_fat_entry_def Let_def u16_le_def cluster_parity fat_offset_even fat_offset_odd
          nth_list_update split: if_splits)
  qed
qed

text \<open>What the routines rely on: a write of an entry is an update of the map from clusters to entries.\<close>

lemma fat_set:
  assumes "get_fat_entry cache c = Some w" "v < 0x1000"
  obtains cache' where "set_fat_entry c v cache = Some cache'" "get_fat_entry cache' = (get_fat_entry cache)(c \<mapsto> v)"
    "length cache' = length cache"
proof -
  obtain cache' where s: "set_fat_entry c v cache = Some cache'"
    using assms(1) set_fat_entry_defined by (metis option.distinct(1) option.exhaust)
  have "v AND 0x0FFF = v AND mask 12" by (simp add: mask_eq_exp_minus_1)
  also have "\<dots> = v" using assms(2) by (simp add: word_unat_eq_iff unat_mod unsigned_take_bit_eq take_bit_eq_mod word_less_nat_alt flip: take_bit_eq_mask)
  finally have "get_fat_entry cache' = (get_fat_entry cache)(c \<mapsto> v)"
    using set_fat_entry_same [OF s] set_fat_entry_other [OF s] by (auto simp: fun_eq_iff)
  then show ?thesis using s set_fat_entry_length [OF s] that by blast
qed

section \<open>Chains of clusters\<close>

lemma is_chain_valid: "is_chain cache cs \<Longrightarrow> c \<in> set cs \<Longrightarrow> valid_cluster c"
  by (induction cache cs rule: is_chain.induct) auto

lemma is_chain_used: "is_chain cache cs \<Longrightarrow> c \<in> set cs \<Longrightarrow> \<exists>v. get_fat_entry cache c = Some v \<and> v \<noteq> 0"
  by (induction cache cs rule: is_chain.induct)
    (auto simp: FAT12_EOF_def valid_cluster_def split: option.splits dest: is_chain_valid)

lemma is_chain_cong:
  "is_chain cache cs \<Longrightarrow> (\<And>c. c \<in> set cs \<Longrightarrow> get_fat_entry cache' c = get_fat_entry cache c) \<Longrightarrow> is_chain cache' cs"
  by (induction cache cs rule: is_chain.induct) auto

lemma set_all_clusters: "set all_clusters = of_nat ` {2..<0xFF0}"
  unfolding all_clusters_def set_map set_upt ..

lemma all_clusters_valid: "c \<in> set all_clusters \<Longrightarrow> valid_cluster c \<and> c < 0x1000"
proof -
  assume "c \<in> set all_clusters"
  then obtain n where n: "2 \<le> n" "n < 0xFF0" "c = of_nat n" by (auto simp: set_all_clusters)
  then have "unat c = n" by (simp add: unat_of_nat)
  then show "valid_cluster c \<and> c < 0x1000"
    using n(1,2) by (simp add: valid_cluster_def FAT12_BAD_CLUSTER_def word_le_nat_alt word_less_nat_alt)
qed

lemma free_cluster_chain_ok:
  assumes "is_chain cache cs" "distinct cs"
  shows "\<exists>cache'. free_cluster_chain (hd cs) cache = Some cache' \<and> length cache' = length cache
    \<and> get_fat_entry cache' = (\<lambda>c. if c \<in> set cs then Some 0 else get_fat_entry cache c)"
  using assms
proof (induction cs arbitrary: cache)
  case Nil
  then show ?case by simp
next
  case (Cons c cs)
  have v: "valid_cluster c" by (rule is_chain_valid [OF Cons.prems(1)]) simp
  obtain w where w: "get_fat_entry cache c = Some w" using is_chain_used [OF Cons.prems(1), of c] by auto
  obtain ca where ca: "set_fat_entry c 0 cache = Some ca" "get_fat_entry ca = (get_fat_entry cache)(c \<mapsto> 0)"
    "length ca = length cache" using fat_set [OF w, of 0] by auto
  show ?case
  proof (cases cs)
    case Nil
    then show ?thesis
      using Cons.prems(1) v w ca
      by (subst free_cluster_chain.simps) (auto simp: valid_cluster_def FAT12_FREE_CLUSTER_def fun_eq_iff)
  next
    case cs: (Cons d ds)
    then have w': "w = d" and ch: "is_chain cache cs" using Cons.prems(1) w cs by auto
    then have "\<not> FAT12_EOF \<le> w"
      using is_chain_valid [OF ch, of d] cs by (auto simp: valid_cluster_def FAT12_EOF_def FAT12_BAD_CLUSTER_def word_le_nat_alt word_less_nat_alt)
    moreover have "is_chain ca cs" using ch Cons.prems(2) ca(2) by (auto intro: is_chain_cong)
    ultimately show ?thesis
      using Cons.IH [of ca] Cons.prems(2) v w w' ca cs
      by (subst free_cluster_chain.simps) (auto simp: valid_cluster_def FAT12_FREE_CLUSTER_def fun_eq_iff)
  qed
qed

text \<open>
  C8. \<open>free_cluster_chain\<close> ends on every table whose entries stay inside of it, whatever they are, cycles included:
  every step frees a cluster in use, or meets a free one. Afterwards the first cluster is free, and an entry is the
  old one or free.
\<close>

theorem free_chain_ends:
  assumes "table_closed cache" "valid_cluster c \<Longrightarrow> get_fat_entry cache c \<noteq> None"
  shows "\<exists>cache'. free_cluster_chain c cache = Some cache' \<and> length cache' = length cache
    \<and> (\<forall>x. get_fat_entry cache' x = get_fat_entry cache x \<or> get_fat_entry cache' x = Some 0)
    \<and> (valid_cluster c \<longrightarrow> get_fat_entry cache' c = Some 0)"
  using assms
proof (induction "card (used_clusters cache)" arbitrary: cache c rule: less_induct)
  case less
  show ?case
  proof (cases "valid_cluster c")
    case False
    then show ?thesis by (subst free_cluster_chain.simps) (auto simp: valid_cluster_def)
  next
    case True
    then obtain v where v: "get_fat_entry cache c = Some v" using less.prems(2) by auto
    obtain ca where ca: "set_fat_entry c 0 cache = Some ca" "get_fat_entry ca = (get_fat_entry cache)(c \<mapsto> 0)"
      "length ca = length cache" using fat_set [OF v, of 0] by auto
    have step: "free_cluster_chain c cache = (if FAT12_EOF \<le> v then Some ca else free_cluster_chain v ca)"
      using True v ca(1) by (subst free_cluster_chain.simps) (auto simp: valid_cluster_def FAT12_FREE_CLUSTER_def)
    show ?thesis
    proof (cases "valid_cluster v")
      case False
      then have "free_cluster_chain v ca = Some ca" by (subst free_cluster_chain.simps) (auto simp: valid_cluster_def)
      then show ?thesis using step ca by auto
    next
      case v': True
      then have "v \<noteq> 0" by (auto simp: valid_cluster_def)
      then have "used_clusters ca = used_clusters cache - {c}" "c \<in> used_clusters cache"
        using True v ca(2) by (auto simp: used_clusters_def)
      then have "card (used_clusters ca) < card (used_clusters cache)"
        using card_Diff1_less [of "used_clusters cache" c] by (simp add: finite)
      moreover have "table_closed ca" using less.prems(1) ca(2) by (auto simp: table_closed_def valid_cluster_def)
      moreover have "get_fat_entry ca v \<noteq> None" using less.prems(1) v v' ca(2) by (auto simp: table_closed_def)
      ultimately show ?thesis using less.hyps [of ca v] step ca by auto metis+
    qed
  qed
qed

subsection \<open>Allocation\<close>

lemma get_fat_entry_mono:
  assumes "get_fat_entry cache c \<noteq> None" "b \<le> c"
  shows "get_fat_entry cache b \<noteq> None"
proof -
  have "unat b * 3 div 2 \<le> unat c * 3 div 2" using assms(2) by (simp add: div_le_mono word_le_nat_alt)
  then show ?thesis using assms(1) by (simp only: get_fat_entry_defined)
qed

lemma scan_free_ok:
  assumes "sorted cs" "c \<in> set cs" "get_fat_entry (FAT_CACHE s) c = Some 0"
  shows "\<exists>c cache'. scan_free cs s = Some (Inr c, s\<lparr>FAT_CACHE := cache'\<rparr>) \<and> c \<in> set cs \<and> get_fat_entry (FAT_CACHE s) c = Some 0
    \<and> length cache' = length (FAT_CACHE s) \<and> get_fat_entry cache' = (get_fat_entry (FAT_CACHE s))(c \<mapsto> FAT12_EOF)"
  using assms
proof (induction cs)
  case Nil
  then show ?case by simp
next
  case (Cons b cs)
  then have "get_fat_entry (FAT_CACHE s) b \<noteq> None" using get_fat_entry_mono [of "FAT_CACHE s" c b] by auto
  then obtain v where v: "get_fat_entry (FAT_CACHE s) b = Some v" by auto
  show ?case
  proof (cases "v = 0")
    case True
    have "FAT12_EOF < 0x1000" by (simp add: FAT12_EOF_def)
    then obtain ca where ca: "set_fat_entry b FAT12_EOF (FAT_CACHE s) = Some ca"
      "get_fat_entry ca = (get_fat_entry (FAT_CACHE s))(b \<mapsto> FAT12_EOF)" "length ca = length (FAT_CACHE s)"
      using fat_set [OF v] by blast
    then have "scan_free (b # cs) s = Some (Inr b, s\<lparr>FAT_CACHE := ca\<rparr>)"
      using v True by (simp add: fat_entry_def fs_bind_def fs_get_def fs_cache_def fs_ok_def FAT12_FREE_CLUSTER_def)
    then show ?thesis using ca v True by (intro exI [of _ b] exI [of _ ca]) simp
  next
    case False
    then have "c \<in> set cs" using Cons.prems v by auto
    moreover have "scan_free (b # cs) s = scan_free cs s"
      using v False by (simp add: fat_entry_def fs_bind_def fs_get_def FAT12_FREE_CLUSTER_def)
    ultimately show ?thesis using Cons.IH Cons.prems by fastforce
  qed
qed

lemma sorted_map_of_nat: "n \<le> 2 ^ 16 \<Longrightarrow> sorted (map (of_nat :: nat \<Rightarrow> 16 word) [m..<n])"
  by (induction n) (auto simp: sorted_append word_le_nat_alt unat_of_nat)

lemma sorted_all_clusters: "sorted all_clusters"
  unfolding all_clusters_def by (rule sorted_map_of_nat) simp

lemma allocate_clusters_ok:
  assumes "n \<le> card (free_set (FAT_CACHE s))"
  shows "\<exists>cs cache'. allocate_clusters n s = Some (Inr cs, s\<lparr>FAT_CACHE := cache'\<rparr>) \<and> length cs = n \<and> distinct cs
    \<and> set cs \<subseteq> free_set (FAT_CACHE s) \<and> length cache' = length (FAT_CACHE s)
    \<and> get_fat_entry cache' = (\<lambda>c. if c \<in> set cs then Some FAT12_EOF else get_fat_entry (FAT_CACHE s) c)"
  using assms
proof (induction n arbitrary: s)
  case 0
  then show ?case by (intro exI [of _ "[]"] exI [of _ "FAT_CACHE s"]) (simp add: fs_ok_def)
next
  case (Suc n)
  have "free_set (FAT_CACHE s) \<noteq> {}" using Suc.prems by auto
  then obtain c0 where "c0 \<in> set all_clusters" "get_fat_entry (FAT_CACHE s) c0 = Some 0" by (auto simp: free_set_def)
  then obtain c ca where c: "allocate_cluster s = Some (Inr c, s\<lparr>FAT_CACHE := ca\<rparr>)" "c \<in> free_set (FAT_CACHE s)"
    "length ca = length (FAT_CACHE s)" "get_fat_entry ca = (get_fat_entry (FAT_CACHE s))(c \<mapsto> FAT12_EOF)"
    using scan_free_ok [OF sorted_all_clusters] unfolding allocate_cluster_def free_set_def by blast
  then have fs: "free_set ca = free_set (FAT_CACHE s) - {c}" by (auto simp: free_set_def FAT12_EOF_def)
  then have "n \<le> card (free_set ca)" using Suc.prems c(2) by (simp add: card_Diff_singleton)
  then have "\<exists>cs cb. allocate_clusters n (s\<lparr>FAT_CACHE := ca\<rparr>) = Some (Inr cs, s\<lparr>FAT_CACHE := cb\<rparr>) \<and> length cs = n \<and>
    distinct cs \<and> set cs \<subseteq> free_set ca \<and> length cb = length ca
    \<and> get_fat_entry cb = (\<lambda>c. if c \<in> set cs then Some FAT12_EOF else get_fat_entry ca c)"
    using Suc.IH [of "s\<lparr>FAT_CACHE := ca\<rparr>"] by (simp cong: if_cong)
  then obtain cs cb where cs: "allocate_clusters n (s\<lparr>FAT_CACHE := ca\<rparr>) = Some (Inr cs, s\<lparr>FAT_CACHE := cb\<rparr>)" "length cs = n"
    "distinct cs" "set cs \<subseteq> free_set ca" "length cb = length ca"
    "get_fat_entry cb = (\<lambda>c. if c \<in> set cs then Some FAT12_EOF else get_fat_entry ca c)"
    by blast
  then have "allocate_clusters (Suc n) s = Some (Inr (c # cs), s\<lparr>FAT_CACHE := cb\<rparr>)"
    using c(1) by (simp add: fs_bind_def fs_ok_def)
  then show ?case using c cs fs by (intro exI [of _ "c # cs"] exI [of _ cb]) (auto simp: fun_eq_iff)
qed

lemma link_chain_ok:
  assumes "cs \<noteq> []" "distinct cs" "\<And>c. c \<in> set cs \<Longrightarrow> valid_cluster c \<and> get_fat_entry cache c \<noteq> None"
  shows "\<exists>cache'. link_chain cs cache = Some cache' \<and> length cache' = length cache \<and> is_chain cache' cs
    \<and> (\<forall>c. c \<notin> set cs \<longrightarrow> get_fat_entry cache' c = get_fat_entry cache c)"
  using assms
proof (induction cs cache rule: link_chain.induct)
  case (1 cache)
  then show ?case by simp
next
  case (2 c cache)
  then obtain w where w: "get_fat_entry cache c = Some w" by auto
  have "FAT12_EOF < 0x1000" by (simp add: FAT12_EOF_def)
  then obtain ca where "set_fat_entry c FAT12_EOF cache = Some ca"
    "get_fat_entry ca = (get_fat_entry cache)(c \<mapsto> FAT12_EOF)" "length ca = length cache"
    using fat_set [OF w] by blast
  then show ?case using "2.prems" by auto
next
  case (3 c d cs cache)
  obtain w where w: "get_fat_entry cache c = Some w" using "3.prems"(3) [of c] by auto
  have "d < 0x1000"
    using "3.prems"(3) [of d] by (auto simp: valid_cluster_def FAT12_BAD_CLUSTER_def word_le_nat_alt word_less_nat_alt)
  then obtain ca where ca: "set_fat_entry c d cache = Some ca" "get_fat_entry ca = (get_fat_entry cache)(c \<mapsto> d)"
    "length ca = length cache" using fat_set [OF w] by blast
  have "valid_cluster x \<and> get_fat_entry ca x \<noteq> None" if "x \<in> set (d # cs)" for x
    using "3.prems"(3) [of x] that ca(2) by auto
  moreover have "d # cs \<noteq> []" "distinct (d # cs)" using "3.prems"(2) by auto
  ultimately obtain cb where cb: "link_chain (d # cs) ca = Some cb" "length cb = length ca" "is_chain cb (d # cs)"
    "\<forall>x. x \<notin> set (d # cs) \<longrightarrow> get_fat_entry cb x = get_fat_entry ca x"
    using "3.IH" [OF ca(1)] by blast
  then have "get_fat_entry cb c = Some d" using ca(2) "3.prems"(2) by auto
  then show ?case using "3.prems"(3) [of c] ca cb by (intro exI [of _ cb]) auto
qed

text \<open>A table in which the clusters 2 and 3 follow each other for ever.\<close>

definition ring_table :: "byte list" where
  "ring_table = [0xF8, 0xFF, 0xFF, 0x03, 0x20, 0x00]"

lemma ring_table_entries:
  assumes "get_fat_entry ring_table c = Some v"
  shows "c \<in> {0, 1, 2, 3} \<and> v \<in> {0xFF8, 0xFFF, 3, 2}"
proof -
  have "unat c * 3 div 2 + 1 < 6" using assms get_fat_entry_defined [of ring_table c] by (simp add: ring_table_def)
  then have "unat c < 4" by presburger
  then consider "unat c = 0" | "unat c = 1" | "unat c = 2" | "unat c = 3" by linarith
  then have "c \<in> {0, 1, 2, 3}" by cases (simp_all add: word_unat_eq_iff)
  then show ?thesis using assms by (auto simp: get_fat_entry_def ring_table_def u16_le_def Let_def)
qed

theorem free_chain_ends_witness:
  "get_fat_entry ring_table 2 = Some 3 \<and> get_fat_entry ring_table 3 = Some 2
    \<and> (\<exists>cache'. free_cluster_chain 2 ring_table = Some cache' \<and> get_fat_entry cache' 2 = Some 0)"
proof -
  have e: "get_fat_entry ring_table 2 = Some 3" "get_fat_entry ring_table 3 = Some 2"
    by (simp_all add: get_fat_entry_def ring_table_def u16_le_def Let_def)
  have "get_fat_entry ring_table v \<noteq> None" if "get_fat_entry ring_table c = Some v" "valid_cluster v" for c v
    using ring_table_entries [OF that(1)] that(2) e by (auto simp: valid_cluster_def FAT12_BAD_CLUSTER_def)
  then have "table_closed ring_table" by (simp add: table_closed_def)
  then show ?thesis using free_chain_ends [of ring_table 2] e by (auto simp: valid_cluster_def FAT12_BAD_CLUSTER_def)
qed

text \<open>
  C9. Writing a 12-bit entry of a cluster inside of the table is an update of the map from clusters to
  entries: the entry reads back as written, and every other entry, in particular the one that shares a byte with it, is
  unchanged.
\<close>

theorem set_fat_entry_updates:
  assumes "get_fat_entry cache c \<noteq> None" "v < 0x1000"
  shows "\<exists>cache'. set_fat_entry c v cache = Some cache' \<and> get_fat_entry cache' = (get_fat_entry cache)(c \<mapsto> v)
    \<and> length cache' = length cache"
  using assms fat_set by (metis not_None_eq)

theorem set_fat_entry_updates_witness:
  "\<exists>cache'. set_fat_entry 2 0xFF8 ring_table = Some cache' \<and> get_fat_entry cache' 2 = Some 0xFF8 \<and> get_fat_entry cache' 3 = Some 2"
proof -
  have "get_fat_entry ring_table 2 \<noteq> None" "get_fat_entry ring_table 3 = Some 2"
    by (simp_all add: get_fat_entry_def ring_table_def u16_le_def Let_def)
  then show ?thesis using set_fat_entry_updates [of ring_table 2 "0xFF8"] by auto
qed

end
