(* ===== verification/FatDisk.thy ===== *)
theory FatDisk
  imports FatTable
begin

text \<open>
  The sectors behind a FAT12 volume: runs of sectors, clusters, the chains of clusters that hold a file and the entries
  of the root directory, with what a write changes and what it leaves alone.
\<close>

section \<open>Definitions\<close>

text \<open>The bytes of a run of sectors, and a drive after such a run was overwritten.\<close>

definition region :: "ide \<Rightarrow> nat \<Rightarrow> nat \<Rightarrow> nat \<Rightarrow> byte list" where
  "region d drive start n = concat (map (sectors d drive) [start..<start + n])"

definition put_region :: "ide \<Rightarrow> nat \<Rightarrow> nat \<Rightarrow> nat \<Rightarrow> byte list \<Rightarrow> ide" where
  "put_region d drive start n bs = d\<lparr>sectors := (sectors d)(drive := (\<lambda>lba.
     if start \<le> lba \<and> lba < start + n then slice ((lba - start) * SECTOR_SIZE) SECTOR_SIZE bs else sectors d drive lba))\<rparr>"

text \<open>A drive whose sectors all answer.\<close>

definition drive_ok :: "ide \<Rightarrow> nat \<Rightarrow> bool" where
  "drive_ok d drive \<longleftrightarrow>
     (\<forall>lba. length (sectors d drive lba) = SECTOR_SIZE \<and> \<not> read_fails d drive lba \<and> \<not> write_fails d drive lba)"

definition cluster_bytes :: "fat12 \<Rightarrow> 16 word \<Rightarrow> byte list" where
  "cluster_bytes s c = region (ide_of s) (FAT_DRIVE s) (DATA_START_SECTOR s + (unat c - 2) * cluster_sectors s) (cluster_sectors s)"

text \<open>Two states of a volume that differ only in the clusters of a set.\<close>

definition same_elsewhere :: "fat12 \<Rightarrow> fat12 \<Rightarrow> 16 word set \<Rightarrow> bool" where
  "same_elsewhere s s' C \<longleftrightarrow> drive_ok (ide_of s') (FAT_DRIVE s)
     \<and> (\<forall>a m. a + m \<le> DATA_START_SECTOR s \<longrightarrow> region (ide_of s') (FAT_DRIVE s) a m = region (ide_of s) (FAT_DRIVE s) a m)
     \<and> (\<forall>c. valid_cluster c \<longrightarrow> c \<notin> C \<longrightarrow> cluster_bytes (s\<lparr>ide_of := ide_of s'\<rparr>) c = cluster_bytes s c)"

section \<open>Runs of sectors\<close>

lemma region_Suc: "region d drive start (Suc n) = sectors d drive start @ region d drive (start + 1) n"
  by (simp add: region_def upt_conv_Cons del: upt_Suc)

lemma read_run_region: "drive_ok d drive \<Longrightarrow> read_run d drive start n = Some (region d drive start n)"
  by (induction n arbitrary: start) (auto simp: region_Suc drive_ok_def, simp add: region_def)

lemma concat_sectors_length:
  "(\<And>x. x \<in> set xs \<Longrightarrow> length (f x) = k) \<Longrightarrow> length (concat (map f xs)) = length xs * k"
  by (induction xs) auto

lemma region_length: "drive_ok d drive \<Longrightarrow> length (region d drive start n) = n * SECTOR_SIZE"
  by (simp add: region_def drive_ok_def concat_sectors_length)

lemma slices_concat:
  "n * SECTOR_SIZE \<le> length bs \<Longrightarrow> concat (map (\<lambda>i. slice (i * SECTOR_SIZE) SECTOR_SIZE bs) [0..<n]) = take (n * SECTOR_SIZE) bs"
  by (induction n) (auto simp: slice_def add.commute simp flip: take_add)

lemma region_put_same:
  assumes "n * SECTOR_SIZE \<le> length bs"
  shows "region (put_region d drive start n bs) drive start n = take (n * SECTOR_SIZE) bs"
proof -
  have "map (sectors (put_region d drive start n bs) drive) [start..<start + n]
      = map (\<lambda>i. slice (i * SECTOR_SIZE) SECTOR_SIZE bs) [0..<n]"
    by (rule nth_equalityI) (auto simp: put_region_def)
  then show ?thesis using slices_concat [OF assms] by (simp add: region_def)
qed

lemma region_put_other:
  assumes "a + m \<le> start \<or> start + n \<le> a"
  shows "region (put_region d drive start n bs) drive a m = region d drive a m"
  using assms by (auto simp: region_def put_region_def intro!: arg_cong [where f = concat])

lemma drive_ok_put:
  assumes "drive_ok d drive" "n * SECTOR_SIZE \<le> length bs"
  shows "drive_ok (put_region d drive start n bs) drive"
proof -
  have "length (slice ((lba - start) * SECTOR_SIZE) SECTOR_SIZE bs) = SECTOR_SIZE" if "start \<le> lba" "lba < start + n" for lba
  proof -
    have "Suc (lba - start) * SECTOR_SIZE \<le> n * SECTOR_SIZE" using that by (intro mult_right_mono) auto
    then show ?thesis using assms(2) by (simp add: slice_def)
  qed
  then show ?thesis using assms(1) by (auto simp: drive_ok_def put_region_def)
qed

lemma write_run_slices:
  assumes "\<And>lba. \<not> write_fails d drive lba"
  shows "write_run d drive start cs = (d\<lparr>sectors := (sectors d)(drive := (\<lambda>lba.
     if start \<le> lba \<and> lba < start + length cs then cs ! (lba - start) else sectors d drive lba))\<rparr>, True)"
  using assms
proof (induction cs arbitrary: d start)
  case Nil
  then show ?case by (auto simp: fun_eq_iff intro!: ide.equality)
next
  case (Cons c cs)
  have "\<not> write_fails (write_sector d drive start c) drive lba" for lba using Cons.prems by (simp add: write_sector_def)
  note ih = Cons.IH [of "write_sector d drive start c" "start + 1", OF this]
  show ?case
    using Cons.prems ih
    by (auto simp: write_sector_def fun_eq_iff nth_Cons' intro!: ide.equality)
qed

lemma fs_write_ok:
  assumes "drive_ok (ide_of s) (FAT_DRIVE s)" "n * SECTOR_SIZE \<le> length bs"
  shows "fs_write msg start n bs s = Some (Inr (), s\<lparr>ide_of := put_region (ide_of s) (FAT_DRIVE s) start n bs\<rparr>)"
proof -
  let ?cs = "map (\<lambda>i. slice (i * SECTOR_SIZE) SECTOR_SIZE bs) [0..<n]"
  have "\<not> write_fails (ide_of s) (FAT_DRIVE s) lba" for lba using assms(1) by (simp add: drive_ok_def)
  note w = write_run_slices [OF this, of start ?cs]
  have "(\<lambda>lba. if start \<le> lba \<and> lba < start + n then ?cs ! (lba - start) else sectors (ide_of s) (FAT_DRIVE s) lba)
      = (\<lambda>lba. if start \<le> lba \<and> lba < start + n then slice ((lba - start) * SECTOR_SIZE) SECTOR_SIZE bs
           else sectors (ide_of s) (FAT_DRIVE s) lba)" by (auto simp: fun_eq_iff)
  then show ?thesis using assms(2) w by (simp add: fs_write_def sector_slices_def put_region_def)
qed

lemma fs_read_ok:
  assumes "drive_ok (ide_of s) (FAT_DRIVE s)"
  shows "fs_read msg start n s = Some (Inr (region (ide_of s) (FAT_DRIVE s) start n), s)"
  by (simp add: fs_read_def read_run_region [OF assms])

section \<open>Clusters\<close>

lemma read_cluster_ok:
  assumes "drive_ok (ide_of s) (FAT_DRIVE s)" "valid_cluster c"
  shows "read_cluster_unlocked c s = Some (Inr (cluster_bytes s c), s)"
  using assms
  by (simp add: read_cluster_unlocked_def fs_bind_def fs_get_def cluster_to_sector_def valid_cluster_def fs_read_ok
      cluster_bytes_def not_less)

lemma write_cluster_ok:
  assumes "drive_ok (ide_of s) (FAT_DRIVE s)" "valid_cluster c"
  shows "write_cluster_unlocked c bs s = Some (Inr (), s\<lparr>ide_of := put_region (ide_of s) (FAT_DRIVE s)
    (DATA_START_SECTOR s + (unat c - 2) * cluster_sectors s) (cluster_sectors s)
    (take (cluster_size s) (bs @ replicate (cluster_size s) 0))\<rparr>)"
proof -
  have "take (min (length bs) (cluster_size s)) bs @ replicate (cluster_size s - min (length bs) (cluster_size s)) 0
      = take (cluster_size s) (bs @ replicate (cluster_size s) 0)"
    by (simp add: min_def)
  then show ?thesis
    using assms
    by (simp add: write_cluster_unlocked_def fs_bind_def fs_get_def cluster_to_sector_def valid_cluster_def Let_def not_less
        fs_write_ok cluster_size_def)
qed

lemma read_chain_ok:
  assumes "drive_ok (ide_of s) (FAT_DRIVE s)" "is_chain (FAT_CACHE s) cs"
  shows "read_chain s (hd cs) bs = Some (Inr (bs @ concat (map (cluster_bytes s) cs)))"
  using assms(2)
proof (induction cs arbitrary: bs)
  case Nil
  then show ?case by simp
next
  case (Cons c cs)
  have v: "valid_cluster c" by (rule is_chain_valid [OF Cons.prems]) simp
  then have rd: "read_cluster_data c s = Some (Inr (cluster_bytes s c))"
    by (simp add: read_cluster_data_def read_cluster_ok [OF assms(1)])
  show ?case
  proof (cases cs)
    case Nil
    then show ?thesis
      using Cons.prems v rd by (subst read_chain.simps) (auto simp: valid_cluster_def split: option.splits)
  next
    case cs: (Cons d ds)
    then have "valid_cluster d" using is_chain_valid [OF Cons.prems, of d] by simp
    then have "\<not> FAT12_EOF \<le> d"
      by (auto simp: valid_cluster_def FAT12_EOF_def FAT12_BAD_CLUSTER_def word_le_nat_alt word_less_nat_alt)
    then show ?thesis
      using Cons cs v rd by (subst read_chain.simps) (auto simp: valid_cluster_def)
  qed
qed

lemma cluster_bytes_length: "drive_ok (ide_of s) (FAT_DRIVE s) \<Longrightarrow> length (cluster_bytes s c) = cluster_size s"
  by (simp add: cluster_bytes_def region_length cluster_size_def)

lemma cluster_disjoint:
  assumes "valid_cluster c" "valid_cluster c'" "c \<noteq> c'"
  shows "D + (unat c - 2) * k + k \<le> D + (unat c' - 2) * k \<or> D + (unat c' - 2) * k + k \<le> D + (unat c - 2) * k"
proof -
  have "unat c - 2 \<noteq> unat c' - 2"
    using assms by (auto simp: valid_cluster_def word_le_nat_alt word_unat_eq_iff)
  then consider "Suc (unat c - 2) \<le> unat c' - 2" | "Suc (unat c' - 2) \<le> unat c - 2" by linarith
  then show ?thesis
  proof cases
    case 1
    then show ?thesis using mult_le_mono1 [OF 1, of k] by simp
  next
    case 2
    then show ?thesis using mult_le_mono1 [OF 2, of k] by simp
  qed
qed

lemma write_cluster_elsewhere:
  assumes "drive_ok (ide_of s) (FAT_DRIVE s)" "valid_cluster c"
  shows "\<exists>d. write_cluster_unlocked c bs s = Some (Inr (), s\<lparr>ide_of := d\<rparr>) \<and> same_elsewhere s (s\<lparr>ide_of := d\<rparr>) {c}
    \<and> cluster_bytes (s\<lparr>ide_of := d\<rparr>) c = take (cluster_size s) (bs @ replicate (cluster_size s) 0)"
proof -
  let ?a = "\<lambda>c. DATA_START_SECTOR s + (unat c - 2) * cluster_sectors s"
  let ?b = "take (cluster_size s) (bs @ replicate (cluster_size s) 0)"
  let ?d = "put_region (ide_of s) (FAT_DRIVE s) (?a c) (cluster_sectors s) ?b"
  have len: "cluster_sectors s * SECTOR_SIZE \<le> length ?b" by (simp add: cluster_size_def)
  have other: "cluster_bytes (s\<lparr>ide_of := ?d\<rparr>) c' = cluster_bytes s c'" if "valid_cluster c'" "c' \<noteq> c" for c'
    using region_put_other [of "?a c'" "cluster_sectors s" "?a c" "cluster_sectors s"] cluster_disjoint [OF assms(2) that(1)] that(2)
    by (auto simp: cluster_bytes_def cluster_sectors_def)
  have "cluster_bytes (s\<lparr>ide_of := ?d\<rparr>) c = ?b"
    using region_put_same [OF len] by (simp add: cluster_bytes_def cluster_size_def cluster_sectors_def)
  then show ?thesis
    using other write_cluster_ok [OF assms] drive_ok_put [OF assms(1) len]
    by (intro exI [of _ ?d]) (auto simp: same_elsewhere_def intro!: region_put_other)
qed

lemma same_elsewhere_trans:
  assumes "same_elsewhere s (s\<lparr>ide_of := d\<rparr>) C" "same_elsewhere (s\<lparr>ide_of := d\<rparr>) (s\<lparr>ide_of := d'\<rparr>) C'"
  shows "same_elsewhere s (s\<lparr>ide_of := d'\<rparr>) (C \<union> C')"
  using assms by (auto simp: same_elsewhere_def)

lemma write_chain_ok:
  assumes "drive_ok (ide_of s) (FAT_DRIVE s)" "distinct cs" "\<And>c. c \<in> set cs \<Longrightarrow> valid_cluster c"
    "length bs \<le> length cs * cluster_size s"
  shows "\<exists>d. write_chain cs bs s = Some (Inr (), s\<lparr>ide_of := d\<rparr>) \<and> same_elsewhere s (s\<lparr>ide_of := d\<rparr>) (set cs)
    \<and> take (length bs) (concat (map (cluster_bytes (s\<lparr>ide_of := d\<rparr>)) cs)) = bs"
  using assms
proof (induction cs arbitrary: bs s)
  case Nil
  then show ?case by (intro exI [of _ "ide_of s"]) (simp add: fs_ok_def same_elsewhere_def)
next
  case (Cons c cs)
  let ?n = "cluster_size s"
  obtain d where d: "write_cluster_unlocked c (take ?n bs) s = Some (Inr (), s\<lparr>ide_of := d\<rparr>)"
    "same_elsewhere s (s\<lparr>ide_of := d\<rparr>) {c}"
    "cluster_bytes (s\<lparr>ide_of := d\<rparr>) c = take ?n (take ?n bs @ replicate ?n 0)"
    using write_cluster_elsewhere [OF Cons.prems(1), of c] Cons.prems(3) by fastforce
  let ?s = "s\<lparr>ide_of := d\<rparr>"
  have size: "cluster_size ?s = ?n" by (simp add: cluster_size_def cluster_sectors_def)
  have "drive_ok (ide_of ?s) (FAT_DRIVE ?s)" using d(2) by (simp add: same_elsewhere_def)
  moreover have "length (drop ?n bs) \<le> length cs * cluster_size ?s" using Cons.prems(4) size by simp
  moreover have "distinct cs" "\<And>c. c \<in> set cs \<Longrightarrow> valid_cluster c" using Cons.prems by auto
  ultimately obtain d' where d': "write_chain cs (drop ?n bs) ?s = Some (Inr (), ?s\<lparr>ide_of := d'\<rparr>)"
    "same_elsewhere ?s (?s\<lparr>ide_of := d'\<rparr>) (set cs)"
    "take (length (drop ?n bs)) (concat (map (cluster_bytes (?s\<lparr>ide_of := d'\<rparr>)) cs)) = drop ?n bs"
    using Cons.IH [of ?s "drop ?n bs"] by blast
  have same: "cluster_bytes (s\<lparr>ide_of := d'\<rparr>) c = take ?n (take ?n bs @ replicate ?n 0)"
    using d'(2) d(3) Cons.prems(2,3) by (auto simp: same_elsewhere_def)
  have "take (length bs) (concat (map (cluster_bytes (s\<lparr>ide_of := d'\<rparr>)) (c # cs))) = bs"
  proof (cases "length bs \<le> ?n")
    case True
    then show ?thesis using same by simp
  next
    case False
    then have "take (length bs) (concat (map (cluster_bytes (s\<lparr>ide_of := d'\<rparr>)) (c # cs)))
      = take ?n bs @ take (length bs - ?n) (concat (map (cluster_bytes (s\<lparr>ide_of := d'\<rparr>)) cs))"
      using same by simp
    also have "\<dots> = take ?n bs @ drop ?n bs" using d'(3) by simp
    finally show ?thesis by simp
  qed
  moreover have "write_chain (c # cs) bs s = Some (Inr (), s\<lparr>ide_of := d'\<rparr>)"
    using d(1) d'(1) by (simp add: fs_bind_def)
  moreover have "same_elsewhere s (s\<lparr>ide_of := d'\<rparr>) (set (c # cs))"
    using same_elsewhere_trans [OF d(2)] d'(2) by simp
  ultimately show ?case by blast
qed

section \<open>Directory entries\<close>

lemma u16_le_le_u16: "ucast (ucast w :: byte) OR push_bit 8 (ucast (ucast (drop_bit 8 w) :: byte)) = w" for w :: "16 word"
  by (rule word16_eqI) (simp add: bit_simps)

lemma u32_le_le_u32:
  fixes w :: "32 word"
  shows "ucast (ucast w :: byte) OR push_bit 8 (ucast (ucast (drop_bit 8 w) :: byte)) OR
    push_bit 16 (ucast (ucast (drop_bit 16 w) :: byte)) OR push_bit 24 (ucast (ucast (drop_bit 24 w) :: byte)) = w" (is "?l = _")
proof (rule bit_word_eqI)
  fix n assume "n < LENGTH(32)"
  then consider "n < 8" | "8 \<le> n" "n < 16" | "16 \<le> n" "n < 24" | "24 \<le> n" "n < 32" by force
  then show "bit ?l n = bit w n"
    by cases (auto simp: bit_simps)
qed

lemma bytes_of_entry_length: "length (d_name e) = 11 \<Longrightarrow> length (bytes_of_entry e) = 32"
  by (simp add: bytes_of_entry_def le_u16_def le_u32_def)

lemma entry_of_bytes_of_entry:
  assumes "length (d_name e) = 11"
  shows "entry_of_bytes (bytes_of_entry e) = e"
  by (rule directory_entry.equality)
    (simp_all add: entry_of_bytes_def bytes_of_entry_def le_u16_def le_u32_def u16_le_def u32_le_def slice_def nth_append assms
      u16_le_le_u16 u32_le_le_u32)

lemma concat_slice:
  assumes "\<And>x. x \<in> set xs \<Longrightarrow> length (f x) = k" "i < length xs"
  shows "slice (i * k) k (concat (map f xs) @ ys) = f (xs ! i)"
  using assms
proof (induction xs arbitrary: i)
  case Nil
  then show ?case by simp
next
  case (Cons x xs)
  have "length (f x) = k" using Cons.prems(1) by simp
  then show ?case
    using Cons by (cases i) (auto simp: slice_def)
qed

text \<open>A directory that is written and read again has lost the entries that are not visible, and nothing else.\<close>

lemma collect_placed:
  assumes "place_entries size' es = Some bs" "\<And>e. e \<in> set es \<Longrightarrow> length (d_name e) = 11 \<and> \<not> entry_is_empty e" "(i + n) * 32 \<le> size'"
  shows "\<exists>b. collect_entries bs i n = Some (filter is_visible (take n (drop i es)), b)"
  using assms(3)
proof (induction n arbitrary: i)
  case 0
  then show ?case by auto
next
  case (Suc n)
  have bs: "bs = concat (map bytes_of_entry es) @ replicate (size' - length es * 32) 0" "length es * 32 \<le> size'"
    using assms(1) by (auto simp: place_entries_def split: if_splits)
  have len: "length (concat (map bytes_of_entry es)) = length es * 32"
    by (rule concat_sectors_length) (simp add: bytes_of_entry_length assms(2))
  then have lbs: "length bs = size'" using bs by simp
  show ?case
  proof (cases "i < length es")
    case True
    have "slice (i * 32) 32 bs = bytes_of_entry (es ! i)"
      using concat_slice [of es bytes_of_entry 32 i] True bs(1) assms(2) by (simp add: bytes_of_entry_length)
    then have "entry_of_bytes (slice (i * 32) 32 bs) = es ! i" "\<not> entry_is_empty (es ! i)"
      using assms(2) [of "es ! i"] True by (simp_all add: entry_of_bytes_of_entry)
    moreover have "drop i es = es ! i # drop (Suc i) es" using True by (simp add: Cons_nth_drop_Suc)
    moreover obtain b where "collect_entries bs (i + 1) n = Some (filter is_visible (take n (drop (i + 1) es)), b)"
      using Suc.IH [of "i + 1"] Suc.prems by auto
    ultimately show ?thesis using lbs Suc.prems by (simp add: Let_def)
  next
    case False
    then have "slice (i * 32) 32 bs = replicate 32 0"
      using bs len Suc.prems by (simp add: slice_def min_def)
    then have "entry_is_empty (entry_of_bytes (slice (i * 32) 32 bs))"
      by (simp add: entry_is_empty_def entry_of_bytes_def slice_def DIR_ENTRY_END_def)
    then show ?thesis using False lbs Suc.prems by (auto simp: Let_def)
  qed
qed

lemma collect_entries_entries:
  assumes "collect_entries bs i n = Some (es, b)" "e \<in> set es"
  shows "length (d_name e) = 11 \<and> \<not> entry_is_empty e \<and> is_visible e"
  using assms
proof (induction n arbitrary: i es b)
  case 0
  then show ?case by simp
next
  case (Suc n)
  let ?e = "entry_of_bytes (slice (i * 32) 32 bs)"
  have len: "\<not> length bs < (i + 1) * 32" using Suc.prems(1) by (auto split: if_splits)
  then have name: "length (d_name ?e) = 11" by (simp add: entry_of_bytes_def slice_def)
  show ?case
  proof (cases "entry_is_empty ?e")
    case True
    then show ?thesis using Suc.prems len by (simp add: Let_def)
  next
    case False
    then obtain es' b' where r: "collect_entries bs (i + 1) n = Some (es', b')" "es = (if is_visible ?e then ?e # es' else es')"
      using Suc.prems(1) len by (auto simp: Let_def)
    show ?thesis
      using Suc.IH [OF r(1)] Suc.prems(2) r(2) name False by (auto split: if_splits)
  qed
qed

end
