(* ===== verification/FileStore.thy ===== *)
theory FileStore
  imports Fat12
begin

text \<open>
  The contract of a file system driver as the virtual file system uses it: behind the state of the driver there is a map from
  names, compared without case, to contents, and the operations read and change that map. What follows from the contract
  alone is proved here once; the FAT12 driver and the RAM file system are shown to keep it.
\<close>

section \<open>Names without case\<close>

definition name_key :: "str \<Rightarrow> str" where
  "name_key name = map to_ascii_lowercase name"

text \<open>Overwriting part of a file, with zeros in a gap between its end and the place.\<close>

definition splice :: "nat \<Rightarrow> byte list \<Rightarrow> byte list \<Rightarrow> byte list" where
  "splice pos bs old =
     (let old = (if pos + length bs > length old then old @ replicate (pos + length bs - length old) 0 else old)
      in take pos old @ bs @ drop (pos + length bs) old)"

lemma splice_nth:
  "i < max (length old) (pos + length bs) \<Longrightarrow>
    splice pos bs old ! i = (if pos \<le> i \<and> i < pos + length bs then bs ! (i - pos) else if i < length old then old ! i else 0)"
  by (auto simp: splice_def Let_def nth_append min_def)

lemma splice_length: "length (splice pos bs old) = max (length old) (pos + length bs)"
  by (simp add: splice_def Let_def)

section \<open>The contract\<close>

locale file_store =
  fixes rep :: "'s \<Rightarrow> (str \<rightharpoonup> byte list) \<Rightarrow> bool"
    and room :: "'s \<Rightarrow> byte list \<Rightarrow> bool"
    and fresh :: "'s \<Rightarrow> str \<Rightarrow> byte list \<Rightarrow> bool"
    and rd :: "str \<Rightarrow> 's \<Rightarrow> ((string + byte list) \<times> 's) option"
    and cr :: "str \<Rightarrow> byte list \<Rightarrow> 's \<Rightarrow> ((string + unit) \<times> 's) option"
    and wr :: "str \<Rightarrow> byte list \<Rightarrow> 's \<Rightarrow> ((string + unit) \<times> 's) option"
    and del :: "str \<Rightarrow> 's \<Rightarrow> ((string + unit) \<times> 's) option"
    and sz :: "str \<Rightarrow> 's \<Rightarrow> (32 word option \<times> 's) option"
    and ex :: "str \<Rightarrow> 's \<Rightarrow> (bool \<times> 's) option"
  assumes rd_law: "rep s m \<Longrightarrow>
      rd name s = Some (case m (name_key name) of None \<Rightarrow> Inl ''File not found'' | Some bs \<Rightarrow> Inr bs, s)"
    and cr_law: "rep s m \<Longrightarrow> m (name_key name) = None \<Longrightarrow> fresh s name bs \<Longrightarrow>
      \<exists>s'. cr name bs s = Some (Inr (), s') \<and> rep s' (m(name_key name \<mapsto> bs))"
    and wr_law: "rep s m \<Longrightarrow> m (name_key name) = Some old \<Longrightarrow> room s bs \<Longrightarrow>
      \<exists>s'. wr name bs s = Some (Inr (), s') \<and> rep s' (m(name_key name \<mapsto> bs))"
    and wr_none: "rep s m \<Longrightarrow> m (name_key name) = None \<Longrightarrow> wr name bs s = Some (Inl ''File not found'', s)"
    and del_law: "rep s m \<Longrightarrow> m (name_key name) = Some old \<Longrightarrow>
      \<exists>s'. del name s = Some (Inr (), s') \<and> rep s' (m(name_key name := None))"
    and del_none: "rep s m \<Longrightarrow> m (name_key name) = None \<Longrightarrow> del name s = Some (Inl ''File not found'', s)"
    and sz_law: "rep s m \<Longrightarrow> sz name s = Some (map_option (\<lambda>bs. of_nat (length bs)) (m (name_key name)), s)"
    and ex_law: "rep s m \<Longrightarrow> ex name s = Some (m (name_key name) \<noteq> None, s)"
begin

lemma create_then_read:
  assumes "rep s m" "m (name_key name) = None" "fresh s name bs"
  shows "\<exists>s'. cr name bs s = Some (Inr (), s') \<and> rd name s' = Some (Inr bs, s')
    \<and> (\<forall>other. name_key other \<noteq> name_key name \<longrightarrow> map_option fst (rd other s') = map_option fst (rd other s))"
  using cr_law [OF assms] rd_law [OF assms(1)] by (fastforce simp: rd_law)

lemma write_then_read:
  assumes "rep s m" "m (name_key name) = Some old" "room s bs"
  shows "\<exists>s'. wr name bs s = Some (Inr (), s') \<and> rd name s' = Some (Inr bs, s')
    \<and> (\<forall>other. name_key other \<noteq> name_key name \<longrightarrow> map_option fst (rd other s') = map_option fst (rd other s))"
  using wr_law [OF assms] rd_law [OF assms(1)] by (fastforce simp: rd_law)

lemma delete_then_gone:
  assumes "rep s m" "m (name_key name) = Some old"
  shows "\<exists>s'. del name s = Some (Inr (), s') \<and> ex name s' = Some (False, s') \<and> rd name s' = Some (Inl ''File not found'', s')
    \<and> (\<forall>other. name_key other \<noteq> name_key name \<longrightarrow> map_option fst (rd other s') = map_option fst (rd other s))"
  using del_law [OF assms] rd_law [OF assms(1)] by (fastforce simp: rd_law ex_law)

text \<open>A read, a change of the bytes and a write back.\<close>

lemma read_modify_write:
  assumes "rep s m" "m (name_key name) = Some old" "room s (splice pos bs old)"
  shows "rd name s = Some (Inr old, s)"
    "\<exists>s'. wr name (splice pos bs old) s = Some (Inr (), s') \<and> rep s' (m(name_key name \<mapsto> splice pos bs old))"
  using assms rd_law wr_law by simp_all

end

end
