(* ===== verification/FatFiles.thy ===== *)
theory FatFiles
  imports FatDisk FileStore
begin

text \<open>
  The FAT12 driver implements a map from file names to contents. The invariant of a volume says that every entry of the root
  directory owns a chain of clusters of its own; reading, creating, overwriting and deleting a file are the operations
  of the map.
\<close>

section \<open>Definitions\<close>

text \<open>
  The names that the driver finds again under the name they were created with: printable ASCII without a space, up to eight bytes,
  and up to three after a dot, if there is one.
\<close>

definition valid_name :: "str \<Rightarrow> bool" where
  "valid_name name \<longleftrightarrow>
     (let parts = split_on 46 name in
      (length parts = 1 \<or> length parts = 2 \<and> parts ! 1 \<noteq> [] \<and> length (parts ! 1) \<le> 3) \<and> length (parts ! 0) \<le> 8
      \<and> list_all (\<lambda>b. 33 \<le> b \<and> b < 127) name)"

definition entry_key :: "directory_entry \<Rightarrow> str" where
  "entry_key e = (case get_name e of Inl _ \<Rightarrow> [] | Inr name \<Rightarrow> name_key name)"

text \<open>The parts of a volume on its drive.\<close>

definition fat_sectors :: "fat12 \<Rightarrow> nat" where
  "fat_sectors s = unat (fat_size_16 (BPB s))"

definition fat_copies :: "fat12 \<Rightarrow> nat" where
  "fat_copies s = unat (num_fats (BPB s))"

definition max_entries :: "fat12 \<Rightarrow> nat" where
  "max_entries s = unat (root_entry_count (BPB s))"

definition root_bytes :: "fat12 \<Rightarrow> byte list" where
  "root_bytes s = region (ide_of s) (FAT_DRIVE s) (ROOT_DIR_START_SECTOR s) (ROOT_DIR_SECTORS s)"

definition root_entries :: "fat12 \<Rightarrow> directory_entry list \<Rightarrow> bool" where
  "root_entries s es \<longleftrightarrow> map_option fst (collect_entries (root_bytes s) 0 (max_entries s)) = Some es"

text \<open>A mounted volume: its drive answers, and the tables, the root directory and the data area follow each other.\<close>

definition volume :: "fat12 \<Rightarrow> bool" where
  "volume s \<longleftrightarrow> drive_ok (ide_of s) (FAT_DRIVE s) \<and> FAT_INITIALIZED s \<and> 0 < cluster_sectors s \<and> 0 < fat_copies s
     \<and> length (FAT_CACHE s) = fat_sectors s * SECTOR_SIZE
     \<and> FAT_START_SECTOR s + fat_copies s * fat_sectors s \<le> ROOT_DIR_START_SECTOR s
     \<and> ROOT_DIR_START_SECTOR s + ROOT_DIR_SECTORS s \<le> DATA_START_SECTOR s
     \<and> max_entries s * 32 \<le> ROOT_DIR_SECTORS s * SECTOR_SIZE"

text \<open>All copies of the table on the drive are the cached one.\<close>

definition synced :: "fat12 \<Rightarrow> bool" where
  "synced s \<longleftrightarrow> (\<forall>k<fat_copies s. region (ide_of s) (FAT_DRIVE s) (FAT_START_SECTOR s + k * fat_sectors s) (fat_sectors s) = FAT_CACHE s)"

text \<open>The chain of an entry, and the bytes of the file.\<close>

definition holds :: "fat12 \<Rightarrow> directory_entry \<Rightarrow> 16 word list \<Rightarrow> bool" where
  "holds s e cs \<longleftrightarrow> cs = [] \<and> d_first_cluster e = 0 \<and> d_file_size e = 0
     \<or> is_chain (FAT_CACHE s) cs \<and> hd cs = d_first_cluster e \<and> unat (d_file_size e) \<le> length cs * cluster_size s"

definition content :: "fat12 \<Rightarrow> directory_entry \<Rightarrow> 16 word list \<Rightarrow> byte list" where
  "content s e cs = take (unat (d_file_size e)) (concat (map (cluster_bytes s) cs))"

definition fat_inv :: "fat12 \<Rightarrow> directory_entry list \<Rightarrow> 16 word list list \<Rightarrow> bool" where
  "fat_inv s es css \<longleftrightarrow> volume s \<and> root_entries s es \<and> list_all2 (holds s) es css
     \<and> distinct (concat css) \<and> distinct (map entry_key es)"

definition files :: "fat12 \<Rightarrow> directory_entry list \<Rightarrow> 16 word list list \<Rightarrow> (str \<times> byte list) list" where
  "files s es css = map (\<lambda>(e, cs). (entry_key e, content s e cs)) (zip es css)"

text \<open>The abstract file system behind a volume: a map from names without case to contents.\<close>

definition represents :: "fat12 \<Rightarrow> (str \<rightharpoonup> byte list) \<Rightarrow> bool" where
  "represents s m \<longleftrightarrow> (\<exists>es css. fat_inv s es css \<and> m = map_of (files s es css))"

text \<open>What the driver needs of a volume to store bytes, and to add an entry.\<close>

definition fat_room :: "fat12 \<Rightarrow> byte list \<Rightarrow> bool" where
  "fat_room s bs \<longleftrightarrow> length bs < 2 ^ 32 \<and>
     (length bs + cluster_size s - 1) div cluster_size s \<le> card (free_set (FAT_CACHE s))"

definition root_room :: "fat12 \<Rightarrow> bool" where
  "root_room s = (case collect_entries (root_bytes s) 0 (max_entries s) of None \<Rightarrow> False | Some (es, _) \<Rightarrow> length es < max_entries s)"

definition fat_fresh :: "fat12 \<Rightarrow> str \<Rightarrow> byte list \<Rightarrow> bool" where
  "fat_fresh s name bs \<longleftrightarrow> fat_room s bs \<and> bs \<noteq> [] \<and> valid_name name \<and> root_room s"

definition fat_rep :: "fat12 \<Rightarrow> (str \<rightharpoonup> byte list) \<Rightarrow> bool" where
  "fat_rep s m \<longleftrightarrow> represents s m \<and> \<not> FAT_LOCK s"

section \<open>Names\<close>

lemma split_on_not_Nil: "split_on d bs \<noteq> []"
  by (induction bs) (auto split: list.splits)

lemma split_on_join: "split_on d bs = p # ps \<Longrightarrow> bs = p @ concat (map ((#) d) ps)"
proof (induction bs arbitrary: p ps)
  case (Cons b bs)
  obtain q qs where q: "split_on d bs = q # qs" using split_on_not_Nil by (meson neq_Nil_conv)
  then have bs: "bs = q @ concat (map ((#) d) qs)" by (rule Cons.IH)
  have "p = [] \<and> ps = q # qs \<and> b = d \<or> p = b # q \<and> ps = qs" using Cons.prems q by (auto split: if_splits)
  then show ?case by (elim disjE conjE; simp add: bs)
qed simp

lemma uppercase_printable:
  assumes "33 \<le> b" "b < 127"
  shows "33 \<le> to_ascii_uppercase b" "to_ascii_uppercase b < 127"
  using assms by (auto simp: to_ascii_uppercase_def word_le_nat_alt word_less_nat_alt unat_sub)

lemma lowercase_uppercase: "to_ascii_lowercase (to_ascii_uppercase b) = to_ascii_lowercase b"
  by (auto simp: to_ascii_lowercase_def to_ascii_uppercase_def word_le_nat_alt unat_sub)

lemma printable_utf8: "b < 127 \<Longrightarrow> char_utf8 b = [b]"
  by (auto simp: char_utf8_def word_less_nat_alt)

lemma printable_word:
  "list_all (\<lambda>b. 33 \<le> b \<and> b < 127) n \<Longrightarrow> concat (map char_utf8 (map to_ascii_uppercase n)) = map to_ascii_uppercase n"
  by (induction n) (simp_all add: printable_utf8 uppercase_printable)

lemma uppercase_no_space:
  assumes "list_all (\<lambda>b. 33 \<le> b \<and> b < 127) n" "b \<in> set n"
  shows "to_ascii_uppercase b \<noteq> 32" "to_ascii_uppercase b \<noteq> 0" "to_ascii_uppercase b \<noteq> 0xE5"
proof -
  have "33 \<le> to_ascii_uppercase b" "to_ascii_uppercase b < 127" using assms by (auto simp: list_all_iff uppercase_printable)
  then show "to_ascii_uppercase b \<noteq> 32" "to_ascii_uppercase b \<noteq> 0" "to_ascii_uppercase b \<noteq> 0xE5" by auto
qed

lemma takeWhile_padded:
  "list_all (\<lambda>b. 33 \<le> b \<and> b < 127) n \<Longrightarrow> takeWhile (\<lambda>b. b \<noteq> 32) (pad_name k n) = map to_ascii_uppercase n"
  by (simp add: pad_name_def takeWhile_append takeWhile_replicate uppercase_no_space)

lemma filter_padded:
  "list_all (\<lambda>b. 33 \<le> b \<and> b < 127) n \<Longrightarrow> filter (\<lambda>b. b \<noteq> 32) (pad_name k n) = map to_ascii_uppercase n"
  by (auto simp: pad_name_def filter_id_conv uppercase_no_space)

lemma pad_name_length: "length n \<le> k \<Longrightarrow> length (pad_name k n) = k"
  by (simp add: pad_name_def)

lemma get_padded_name:
  assumes "list_all (\<lambda>b. 33 \<le> b \<and> b < 127) (n @ x)" "length n \<le> 8" "length x \<le> 3"
    "\<not> is_lfn e" "\<not> is_volume_id e" "d_name e = pad_name 8 n @ pad_name 3 x"
  shows "get_name e = Inr (map to_ascii_uppercase (n @ (if x = [] then [] else 46 # x)))" "\<not> entry_is_empty e" "\<not> is_deleted e"
proof -
  have ok: "list_all (\<lambda>b. 33 \<le> b \<and> b < 127) n" "list_all (\<lambda>b. 33 \<le> b \<and> b < 127) x" using assms(1) by simp_all
  have fst: "d_name e ! 0 \<noteq> 0 \<and> d_name e ! 0 \<noteq> 0xE5"
    using uppercase_no_space [OF ok(1)] assms(6) by (cases n) (auto simp: pad_name_def nth_append)
  then show ne: "\<not> entry_is_empty e" "\<not> is_deleted e"
    by (simp_all add: entry_is_empty_def is_deleted_def DIR_ENTRY_END_def DIR_ENTRY_DELETED_def)
  have "slice 0 8 (d_name e) = pad_name 8 n" "slice 8 3 (d_name e) = pad_name 3 x"
    using assms(2,3,6) by (simp_all add: slice_def pad_name_length)
  then show "get_name e = Inr (map to_ascii_uppercase (n @ (if x = [] then [] else 46 # x)))"
    using ne assms(4,5) ok printable_word [OF ok(1)] printable_word [OF ok(2)]
    by (simp add: get_name_def takeWhile_padded filter_padded to_ascii_uppercase_def)
qed

lemma valid_name_parts:
  assumes "valid_name name"
  obtains n x where "name = n @ (if x = [] then [] else 46 # x)" "list_all (\<lambda>b. 33 \<le> b \<and> b < 127) (n @ x)"
    "length n \<le> 8" "length x \<le> 3" "set_name e name = Inr (e\<lparr>d_name := pad_name 8 n @ pad_name 3 x\<rparr>)"
proof -
  obtain p ps where sp: "split_on 46 name = p # ps" using split_on_not_Nil by (meson neq_Nil_conv)
  note j = split_on_join [OF sp]
  show ?thesis
  proof (cases ps)
    case Nil
    then show ?thesis using that [of p "[]"] j sp assms by (simp add: valid_name_def set_name_def Let_def)
  next
    case (Cons x qs)
    then have "qs = []" "x \<noteq> []" "length x \<le> 3" using assms sp by (auto simp: valid_name_def Let_def)
    then show ?thesis using Cons that [of p x] j sp assms by (simp add: valid_name_def set_name_def Let_def)
  qed
qed

text \<open>An entry given a valid name answers to it, in any case.\<close>

lemma set_name_finds:
  assumes "valid_name name" "\<not> is_lfn e" "\<not> is_volume_id e"
  obtains e' where "set_name e name = Inr e'" "e' = e\<lparr>d_name := d_name e'\<rparr>" "length (d_name e') = 11" "\<not> entry_is_empty e'"
    "is_visible e'" "get_name e' = Inr (map to_ascii_uppercase name)" "entry_key e' = name_key name"
proof -
  obtain n x where nx: "name = n @ (if x = [] then [] else 46 # x)" "list_all (\<lambda>b. 33 \<le> b \<and> b < 127) (n @ x)"
    "length n \<le> 8" "length x \<le> 3" "set_name e name = Inr (e\<lparr>d_name := pad_name 8 n @ pad_name 3 x\<rparr>)"
    using valid_name_parts [OF assms(1)] by blast
  let ?e = "e\<lparr>d_name := pad_name 8 n @ pad_name 3 x\<rparr>"
  have attr: "\<not> is_lfn ?e" "\<not> is_volume_id ?e" using assms(2,3) by (simp_all add: is_lfn_def is_volume_id_def)
  note g = get_padded_name [OF nx(2-4) attr, simplified]
  have "entry_key ?e = name_key name"
    using g(1) nx(1) by (auto simp: entry_key_def name_key_def lowercase_uppercase o_def)
  then show ?thesis
    using that [OF nx(5)] g nx(1,3,4) attr by (auto simp: is_visible_def pad_name_length)
qed

lemma has_name_key: "has_name name e \<longleftrightarrow> (\<exists>n. get_name e = Inr n) \<and> entry_key e = name_key name"
  by (auto simp: has_name_def entry_key_def eq_ignore_ascii_case_def name_key_def split: sum.splits)

lemma visible_has_name: "\<not> entry_is_empty e \<Longrightarrow> is_visible e \<Longrightarrow> has_name name e \<longleftrightarrow> entry_key e = name_key name"
  by (auto simp: has_name_key get_name_def is_visible_def Let_def)

section \<open>Writing the root directory and the tables\<close>

lemmas geometry_defs = cluster_size_def cluster_sectors_def fat_sectors_def fat_copies_def max_entries_def

lemma cluster_bytes_cache [simp]: "cluster_bytes (s\<lparr>FAT_CACHE := c\<rparr>) = cluster_bytes s"
  by (simp add: fun_eq_iff cluster_bytes_def cluster_sectors_def)

lemma cluster_bytes_lock [simp]: "cluster_bytes (s\<lparr>FAT_LOCK := b\<rparr>) = cluster_bytes s"
  by (simp add: fun_eq_iff cluster_bytes_def cluster_sectors_def)

lemma cluster_bytes_frame:
  assumes "\<And>a m. DATA_START_SECTOR s \<le> a \<Longrightarrow> region d (FAT_DRIVE s) a m = region (ide_of s) (FAT_DRIVE s) a m"
  shows "cluster_bytes (s\<lparr>ide_of := d\<rparr>) = cluster_bytes s"
  by (simp add: fun_eq_iff cluster_bytes_def cluster_sectors_def assms)

lemma write_root_ok:
  assumes "volume s" "length es \<le> max_entries s" "\<And>e. e \<in> set es \<Longrightarrow> length (d_name e) = 11 \<and> \<not> entry_is_empty e"
  shows "\<exists>d. write_root_directory_unlocked es s = Some (Inr (), s\<lparr>ide_of := d\<rparr>) \<and> volume (s\<lparr>ide_of := d\<rparr>)
    \<and> root_entries (s\<lparr>ide_of := d\<rparr>) (filter is_visible es) \<and> cluster_bytes (s\<lparr>ide_of := d\<rparr>) = cluster_bytes s"
proof -
  have v: "drive_ok (ide_of s) (FAT_DRIVE s)" "ROOT_DIR_START_SECTOR s + ROOT_DIR_SECTORS s \<le> DATA_START_SECTOR s"
    "max_entries s * 32 \<le> ROOT_DIR_SECTORS s * SECTOR_SIZE" using assms(1) by (auto simp: volume_def)
  have fit: "length es * 32 \<le> ROOT_DIR_SECTORS s * SECTOR_SIZE" using assms(2) v(3) by linarith
  then obtain bs where bs: "place_entries (ROOT_DIR_SECTORS s * SECTOR_SIZE) es = Some bs" by (auto simp: place_entries_def)
  have "length (concat (map bytes_of_entry es)) = length es * 32"
    by (rule concat_sectors_length) (simp add: bytes_of_entry_length assms(3))
  then have len: "length bs = ROOT_DIR_SECTORS s * SECTOR_SIZE"
    using bs fit by (auto simp: place_entries_def split: if_splits)
  let ?d = "put_region (ide_of s) (FAT_DRIVE s) (ROOT_DIR_START_SECTOR s) (ROOT_DIR_SECTORS s) bs"
  have "root_bytes (s\<lparr>ide_of := ?d\<rparr>) = bs" using len by (simp add: root_bytes_def region_put_same)
  then have "root_entries (s\<lparr>ide_of := ?d\<rparr>) (filter is_visible es)"
    using collect_placed [OF bs assms(3), of 0 "max_entries s"] v(3) assms(2) by (auto simp: root_entries_def max_entries_def)
  moreover have "write_root_directory_unlocked es s = Some (Inr (), s\<lparr>ide_of := ?d\<rparr>)"
    using bs len v(1) by (simp add: write_root_directory_unlocked_def fs_bind_def fs_get_def fs_write_ok)
  moreover have "drive_ok ?d (FAT_DRIVE s)" using drive_ok_put [OF v(1)] len by simp
  then have "volume (s\<lparr>ide_of := ?d\<rparr>)" using assms(1) by (simp add: volume_def geometry_defs)
  moreover have "cluster_bytes (s\<lparr>ide_of := ?d\<rparr>) = cluster_bytes s"
    by (rule cluster_bytes_frame, rule region_put_other) (use v(2) in simp)
  ultimately show ?thesis by blast
qed

lemma flush_copies_ok:
  assumes "drive_ok (ide_of s) (FAT_DRIVE s)" "length (FAT_CACHE s) = fat_sectors s * SECTOR_SIZE"
  shows "\<exists>d. flush_copies j k s = Some (Inr (), s\<lparr>ide_of := d\<rparr>) \<and> drive_ok d (FAT_DRIVE s)
    \<and> (\<forall>i. j \<le> i \<longrightarrow> i < j + k \<longrightarrow> region d (FAT_DRIVE s) (FAT_START_SECTOR s + i * fat_sectors s) (fat_sectors s) = FAT_CACHE s)
    \<and> (\<forall>a m. a + m \<le> FAT_START_SECTOR s + j * fat_sectors s \<or> FAT_START_SECTOR s + (j + k) * fat_sectors s \<le> a \<longrightarrow>
         region d (FAT_DRIVE s) a m = region (ide_of s) (FAT_DRIVE s) a m)"
  using assms
proof (induction k arbitrary: j s)
  case 0
  then show ?case by (intro exI [of _ "ide_of s"]) (simp add: fs_ok_def)
next
  case (Suc k)
  let ?d = "put_region (ide_of s) (FAT_DRIVE s) (FAT_START_SECTOR s + j * fat_sectors s) (fat_sectors s) (FAT_CACHE s)"
  let ?s = "s\<lparr>ide_of := ?d\<rparr>"
  have w: "fs_write ''Failed to write backup FAT'' (FAT_START_SECTOR s + j * unat (fat_size_16 (BPB s)))
      (unat (fat_size_16 (BPB s))) (FAT_CACHE s) s = Some (Inr (), ?s)"
    using Suc.prems by (simp add: fs_write_ok flip: fat_sectors_def)
  have "drive_ok ?d (FAT_DRIVE s)" using drive_ok_put Suc.prems by simp
  then obtain d where d: "flush_copies (j + 1) k ?s = Some (Inr (), s\<lparr>ide_of := d\<rparr>)" "drive_ok d (FAT_DRIVE s)"
    "\<And>i. j + 1 \<le> i \<Longrightarrow> i < j + 1 + k \<Longrightarrow>
       region d (FAT_DRIVE s) (FAT_START_SECTOR s + i * fat_sectors s) (fat_sectors s) = FAT_CACHE s"
    "\<And>a m. a + m \<le> FAT_START_SECTOR s + (j + 1) * fat_sectors s \<or> FAT_START_SECTOR s + (j + 1 + k) * fat_sectors s \<le> a \<Longrightarrow>
       region d (FAT_DRIVE s) a m = region ?d (FAT_DRIVE s) a m"
    using Suc.IH [of ?s "j + 1"] Suc.prems by (simp add: fat_sectors_def) blast
  have "region d (FAT_DRIVE s) (FAT_START_SECTOR s + i * fat_sectors s) (fat_sectors s) = FAT_CACHE s"
    if "j \<le> i" "i < j + Suc k" for i
  proof (cases "i = j")
    case True
    then show ?thesis using d(4) [of "FAT_START_SECTOR s + j * fat_sectors s" "fat_sectors s"] Suc.prems(2)
      by (simp add: region_put_same)
  qed (use d(3) that in simp)
  moreover have "region d (FAT_DRIVE s) a m = region (ide_of s) (FAT_DRIVE s) a m"
    if "a + m \<le> FAT_START_SECTOR s + j * fat_sectors s \<or> FAT_START_SECTOR s + (j + Suc k) * fat_sectors s \<le> a" for a m
    using d(4) [of a m] that by (auto simp: region_put_other algebra_simps)
  moreover have "flush_copies j (Suc k) s = Some (Inr (), s\<lparr>ide_of := d\<rparr>)"
    using w d(1) by (simp add: fs_bind_def)
  ultimately show ?case using d(2) by blast
qed

lemma flush_ok:
  assumes "volume s" "root_entries s es"
  shows "\<exists>d. flush_fat_unlocked s = Some (Inr (), s\<lparr>ide_of := d\<rparr>) \<and> volume (s\<lparr>ide_of := d\<rparr>) \<and> synced (s\<lparr>ide_of := d\<rparr>)
    \<and> root_entries (s\<lparr>ide_of := d\<rparr>) es \<and> cluster_bytes (s\<lparr>ide_of := d\<rparr>) = cluster_bytes s"
proof -
  have v: "drive_ok (ide_of s) (FAT_DRIVE s)" "length (FAT_CACHE s) = fat_sectors s * SECTOR_SIZE" "0 < fat_copies s"
    "FAT_START_SECTOR s + fat_copies s * fat_sectors s \<le> ROOT_DIR_START_SECTOR s"
    "ROOT_DIR_START_SECTOR s + ROOT_DIR_SECTORS s \<le> DATA_START_SECTOR s" using assms(1) by (auto simp: volume_def)
  have "flush_fat_unlocked s = flush_copies 0 (Suc (fat_copies s - 1)) s"
    using v(1,2) by (simp add: flush_fat_unlocked_def fs_bind_def fs_write_ok fat_copies_def flip: fat_sectors_def)
  then obtain d where d: "flush_fat_unlocked s = Some (Inr (), s\<lparr>ide_of := d\<rparr>)" "drive_ok d (FAT_DRIVE s)"
    "\<And>i. i < fat_copies s \<Longrightarrow> region d (FAT_DRIVE s) (FAT_START_SECTOR s + i * fat_sectors s) (fat_sectors s) = FAT_CACHE s"
    "\<And>a m. FAT_START_SECTOR s + fat_copies s * fat_sectors s \<le> a \<Longrightarrow>
       region d (FAT_DRIVE s) a m = region (ide_of s) (FAT_DRIVE s) a m"
    using flush_copies_ok [OF v(1,2), of 0 "Suc (fat_copies s - 1)"] v(3) by (simp del: flush_copies.simps) blast
  have "volume (s\<lparr>ide_of := d\<rparr>)" using assms(1) d(2) by (simp add: volume_def geometry_defs)
  moreover have "synced (s\<lparr>ide_of := d\<rparr>)" using d(3) by (simp add: synced_def geometry_defs)
  moreover have "root_entries (s\<lparr>ide_of := d\<rparr>) es"
    using assms(2) d(4) [OF v(4)] by (simp add: root_entries_def root_bytes_def geometry_defs)
  moreover have "cluster_bytes (s\<lparr>ide_of := d\<rparr>) = cluster_bytes s"
    by (rule cluster_bytes_frame) (use d(4) v(4,5) in simp)
  ultimately show ?thesis using d(1) by blast
qed

lemma commit_ok:
  assumes "volume s" "length es \<le> max_entries s" "\<And>e. e \<in> set es \<Longrightarrow> length (d_name e) = 11 \<and> \<not> entry_is_empty e"
  shows "\<exists>d. fs_bind (write_root_directory_unlocked es) (\<lambda>_. flush_fat_unlocked) s = Some (Inr (), s\<lparr>ide_of := d\<rparr>)
    \<and> volume (s\<lparr>ide_of := d\<rparr>) \<and> synced (s\<lparr>ide_of := d\<rparr>) \<and> root_entries (s\<lparr>ide_of := d\<rparr>) (filter is_visible es)
    \<and> cluster_bytes (s\<lparr>ide_of := d\<rparr>) = cluster_bytes s"
proof -
  obtain d where d: "write_root_directory_unlocked es s = Some (Inr (), s\<lparr>ide_of := d\<rparr>)" "volume (s\<lparr>ide_of := d\<rparr>)"
    "root_entries (s\<lparr>ide_of := d\<rparr>) (filter is_visible es)" "cluster_bytes (s\<lparr>ide_of := d\<rparr>) = cluster_bytes s"
    using write_root_ok [OF assms] by blast
  then show ?thesis using flush_ok [OF d(2,3)] by (auto simp: fs_bind_def)
qed

section \<open>Storing data\<close>

lemma needed_clusters:
  fixes n k :: nat
  assumes "0 < k"
  shows "n \<le> (n + k - 1) div k * k" "0 < n \<Longrightarrow> 0 < (n + k - 1) div k"
proof -
  have "(n + k - 1) div k * k + (n + k - 1) mod k = n + k - 1" "(n + k - 1) mod k < k" using assms by simp_all
  then show "n \<le> (n + k - 1) div k * k" by linarith
  show "0 < (n + k - 1) div k" if "0 < n" using that assms by (simp add: div_greater_zero_iff)
qed

lemma allocate_and_write_chain_ok:
  assumes "volume s" "bs \<noteq> []" "(length bs + cluster_size s - 1) div cluster_size s \<le> card (free_set (FAT_CACHE s))"
  shows "\<exists>cs d c. allocate_and_write_chain bs s = Some (Inr cs, s\<lparr>ide_of := d, FAT_CACHE := c\<rparr>)
    \<and> length cs = (length bs + cluster_size s - 1) div cluster_size s \<and> distinct cs \<and> set cs \<subseteq> free_set (FAT_CACHE s)
    \<and> is_chain c cs \<and> length c = length (FAT_CACHE s) \<and> (\<forall>x. x \<notin> set cs \<longrightarrow> get_fat_entry c x = get_fat_entry (FAT_CACHE s) x)
    \<and> same_elsewhere s (s\<lparr>ide_of := d\<rparr>) (set cs) \<and> take (length bs) (concat (map (cluster_bytes (s\<lparr>ide_of := d\<rparr>)) cs)) = bs"
proof -
  let ?n = "(length bs + cluster_size s - 1) div cluster_size s"
  have v: "drive_ok (ide_of s) (FAT_DRIVE s)" and k: "0 < cluster_size s" using assms(1) by (auto simp: volume_def cluster_size_def SECTOR_SIZE_def)
  obtain cs c0 where cs: "allocate_clusters ?n s = Some (Inr cs, s\<lparr>FAT_CACHE := c0\<rparr>)" "length cs = ?n" "distinct cs"
    "set cs \<subseteq> free_set (FAT_CACHE s)" "length c0 = length (FAT_CACHE s)"
    "get_fat_entry c0 = (\<lambda>x. if x \<in> set cs then Some FAT12_EOF else get_fat_entry (FAT_CACHE s) x)"
    using allocate_clusters_ok [OF assms(3)] by blast
  have ne: "cs \<noteq> []" using needed_clusters(2) [OF k, of "length bs"] cs(2) assms(2) by auto
  have valid: "valid_cluster x" if "x \<in> set cs" for x
    using that cs(4) all_clusters_valid by (auto simp: free_set_def)
  obtain c where c: "link_chain cs c0 = Some c" "length c = length c0" "is_chain c cs"
    "\<forall>x. x \<notin> set cs \<longrightarrow> get_fat_entry c x = get_fat_entry c0 x"
    using link_chain_ok [OF ne cs(3), of c0] valid cs(6) by auto
  let ?s = "s\<lparr>FAT_CACHE := c\<rparr>"
  have sz: "cluster_size ?s = cluster_size s" by (simp add: geometry_defs)
  have "length bs \<le> length cs * cluster_size ?s" using needed_clusters(1) [OF k] cs(2) sz by simp
  then obtain d where d: "write_chain cs bs ?s = Some (Inr (), ?s\<lparr>ide_of := d\<rparr>)" "same_elsewhere ?s (?s\<lparr>ide_of := d\<rparr>) (set cs)"
    "take (length bs) (concat (map (cluster_bytes (?s\<lparr>ide_of := d\<rparr>)) cs)) = bs"
    using write_chain_ok [of ?s cs bs] cs(3) valid v by auto
  have up: "?s\<lparr>ide_of := d\<rparr> = s\<lparr>ide_of := d, FAT_CACHE := c\<rparr>" by simp
  have "same_elsewhere s (s\<lparr>ide_of := d\<rparr>) (set cs)" "take (length bs) (concat (map (cluster_bytes (s\<lparr>ide_of := d\<rparr>)) cs)) = bs"
    using d(2,3) by (simp_all add: up same_elsewhere_def)
  moreover have "allocate_and_write_chain bs s = Some (Inr cs, s\<lparr>ide_of := d, FAT_CACHE := c\<rparr>)"
    using cs(1) c(1) d(1) k by (simp add: allocate_and_write_chain_def fs_bind_def fs_cache_def fs_ok_def)
  ultimately show ?thesis using cs c by (intro exI [of _ cs] exI [of _ d] exI [of _ c]) auto
qed

section \<open>The invariant\<close>

lemma root_entriesD:
  assumes "root_entries s es" "e \<in> set es"
  shows "length (d_name e) = 11" "\<not> entry_is_empty e" "is_visible e"
  using assms collect_entries_entries by (auto simp: root_entries_def)

lemma collect_entries_length: "collect_entries bs i n = Some (es, b) \<Longrightarrow> length es \<le> n"
proof (induction n arbitrary: i es b)
  case (Suc n)
  then show ?case by (fastforce simp: Let_def split: if_splits)
qed simp

lemma root_entries_length: "root_entries s es \<Longrightarrow> length es \<le> max_entries s"
  by (auto simp: root_entries_def dest: collect_entries_length)

lemma read_root_ok:
  assumes "volume s" "root_entries s es"
  shows "read_root_directory_unlocked s = Some (Inr es, s)"
  using assms
  by (auto simp: volume_def root_entries_def read_root_directory_unlocked_def fs_bind_def fs_get_def fs_read_ok root_bytes_def
      max_entries_def)

lemma holds_frame:
  assumes "holds s e cs" "\<And>c. c \<in> set cs \<Longrightarrow> get_fat_entry (FAT_CACHE s') c = get_fat_entry (FAT_CACHE s) c"
    "cluster_size s' = cluster_size s"
  shows "holds s' e cs"
  using assms is_chain_cong [of "FAT_CACHE s" cs "FAT_CACHE s'"] by (auto simp: holds_def)

lemma holds_used:
  assumes "holds s e cs" "c \<in> set cs"
  shows "valid_cluster c" "c \<notin> free_set (FAT_CACHE s)"
  using assms is_chain_valid is_chain_used [of "FAT_CACHE s" cs c] by (auto simp: holds_def free_set_def)

lemma content_frame: "(\<And>c. c \<in> set cs \<Longrightarrow> cluster_bytes s' c = cluster_bytes s c) \<Longrightarrow> content s' e cs = content s e cs"
  by (simp add: content_def cong: map_cong)

text \<open>
  A change of the volume that leaves the clusters of some entries alone keeps what they hold.
\<close>

lemma list_all2_frame:
  assumes "list_all2 (holds s) es css"
    "\<And>c. c \<in> set (concat css) \<Longrightarrow> get_fat_entry (FAT_CACHE s') c = get_fat_entry (FAT_CACHE s) c \<and> cluster_bytes s' c = cluster_bytes s c"
    "cluster_size s' = cluster_size s"
  shows "list_all2 (holds s') es css \<and> files s' es css = files s es css"
proof -
  have "holds s' e cs \<and> content s' e cs = content s e cs" if "(e, cs) \<in> set (zip es css)" for e cs
  proof -
    have "cs \<in> set css" "holds s e cs" using that assms(1) by (auto simp: list_all2_iff dest: set_zip_rightD)
    then show ?thesis using assms(2,3) holds_frame [of s e cs s'] content_frame [of cs s' s e] by auto
  qed
  then show ?thesis using assms(1) by (auto simp: list_all2_iff files_def)
qed

lemma used_clusters_of:
  assumes "list_all2 (holds s) es css" "c \<in> set (concat css)"
  shows "valid_cluster c" "c \<notin> free_set (FAT_CACHE s)"
proof -
  obtain cs where "cs \<in> set css" "c \<in> set cs" using assms(2) by auto
  then obtain i where "i < length css" "c \<in> set (css ! i)" by (metis in_set_conv_nth)
  moreover from this have "holds s (es ! i) (css ! i)" using assms(1) by (auto simp: list_all2_conv_all_nth)
  ultimately show "valid_cluster c" "c \<notin> free_set (FAT_CACHE s)" using holds_used by blast+
qed

lemma keys_of_files: "length es = length css \<Longrightarrow> map fst (files s es css) = map entry_key es"
  by (induction es css rule: list_induct2) (auto simp: files_def)

lemma files_append: "length es = length css \<Longrightarrow> files s (es @ es') (css @ css') = files s es css @ files s es' css'"
  by (simp add: files_def)

lemma files_Cons: "files s (e # es) (cs # css) = (entry_key e, content s e cs) # files s es css"
  by (simp add: files_def)

text \<open>The entry of a name.\<close>

lemma find_none:
  assumes "root_entries s es" "length es = length css" "map_of (files s es css) (name_key name) = None"
  shows "find (has_name name) es = None" "find_index i name es = None" "\<not> list_ex (has_name name) es"
proof -
  have "name_key name \<notin> set (map entry_key es)"
    using assms(2,3) keys_of_files [of es css s] by (metis map_of_eq_None_iff list.set_map)
  then have no: "\<not> has_name name e" if "e \<in> set es" for e
    using that root_entriesD [OF assms(1)] visible_has_name by force
  then show "find (has_name name) es = None" "\<not> list_ex (has_name name) es" by (auto simp: find_None_iff list_ex_iff)
  show "find_index i name es = None" using no by (induction es arbitrary: i) auto
qed

lemma find_some:
  assumes "root_entries s es" "list_all2 (holds s) es css" "distinct (map entry_key es)"
    "map_of (files s es css) (name_key name) = Some bs"
  obtains es1 e es2 css1 cs css2 where "es = es1 @ e # es2" "css = css1 @ cs # css2" "length es1 = length css1" "holds s e cs"
    "list_all2 (holds s) es1 css1" "list_all2 (holds s) es2 css2" "entry_key e = name_key name" "bs = content s e cs"
    "find (has_name name) es = Some e" "find_index 0 name es = Some (length es1, e)" "list_ex (has_name name) es"
proof -
  have len: "length es = length css" using assms(2) by (rule list_all2_lengthD)
  have "(name_key name, bs) \<in> set (files s es css)" using assms(4) by (rule map_of_SomeD)
  then obtain e cs where ec: "(e, cs) \<in> set (zip es css)" "entry_key e = name_key name" "bs = content s e cs"
    by (auto simp: files_def)
  then obtain i where i: "i < length es" "es ! i = e" "css ! i = cs" using len by (auto simp: set_zip)
  define es1 es2 css1 css2 where "es1 = take i es" "es2 = drop (Suc i) es" "css1 = take i css" "css2 = drop (Suc i) css"
  note parts = es1_es2_css1_css2_def
  have sp: "es = es1 @ e # es2" "css = css1 @ cs # css2" using id_take_nth_drop [of i es] id_take_nth_drop [of i css] i len by (simp_all add: parts)
  have l1: "length es1 = length css1" using len by (simp add: parts)
  have h: "list_all2 (holds s) es1 css1" "holds s e cs" "list_all2 (holds s) es2 css2"
    using assms(2) l1 unfolding sp by (simp_all add: list_all2_append)
  have hit: "has_name name e" using root_entriesD [OF assms(1)] visible_has_name ec(2) sp(1) by auto
  have no: "\<not> has_name name x" if "x \<in> set es1" for x
  proof -
    have "name_key name \<notin> entry_key ` set es1" using assms(3) ec(2) sp(1) by auto
    then show ?thesis using that by (metis has_name_key image_eqI)
  qed
  have "find (has_name name) (es1 @ e # es2) = Some e" using no hit by (induction es1) auto
  moreover have "list_ex (has_name name) es" using hit sp(1) by simp
  moreover have "find_index j name (es1 @ e # es2) = Some (j + length es1, e)" for j
    using no hit by (induction es1 arbitrary: j) auto
  ultimately show ?thesis using that [OF sp l1 h(2,1,3) ec(2,3)] sp(1) by simp
qed

section \<open>The operations on the map\<close>

lemma lock_frame [simp]:
  "volume (s\<lparr>FAT_LOCK := b\<rparr>) = volume s" "root_entries (s\<lparr>FAT_LOCK := b\<rparr>) = root_entries s"
  "holds (s\<lparr>FAT_LOCK := b\<rparr>) = holds s" "content (s\<lparr>FAT_LOCK := b\<rparr>) = content s" "synced (s\<lparr>FAT_LOCK := b\<rparr>) = synced s"
  "max_entries (s\<lparr>FAT_LOCK := b\<rparr>) = max_entries s" "cluster_size (s\<lparr>FAT_LOCK := b\<rparr>) = cluster_size s"
  by (auto simp: fun_eq_iff volume_def root_entries_def root_bytes_def holds_def content_def synced_def geometry_defs)

lemma fat_inv_lock [simp]: "fat_inv (s\<lparr>FAT_LOCK := b\<rparr>) = fat_inv s" "files (s\<lparr>FAT_LOCK := b\<rparr>) = files s"
  by (auto simp: fun_eq_iff fat_inv_def files_def)

lemma represents_lock [simp]: "represents (s\<lparr>FAT_LOCK := b\<rparr>) = represents s"
  by (simp add: fun_eq_iff represents_def)

lemma unlocked_id: "\<not> FAT_LOCK s \<Longrightarrow> s\<lparr>FAT_LOCK := False\<rparr> = s"
  by (rule fat12.equality) simp_all

lemma fat_lockedI:
  assumes "\<not> FAT_LOCK s" "m (s\<lparr>FAT_LOCK := True\<rparr>) = Some (r, t)"
  shows "fat_locked m s = Some (r, t\<lparr>FAT_LOCK := False\<rparr>)"
  using assms by (simp add: fat_locked_def)

text \<open>The number of entries is the number of files.\<close>

lemma fat_inv_card:
  assumes "fat_inv s es css"
  shows "card (dom (map_of (files s es css))) = length es"
proof -
  have "length es = length css" using assms by (auto simp: fat_inv_def list_all2_lengthD)
  then have "dom (map_of (files s es css)) = set (map entry_key es)" using keys_of_files [of es css s] by (metis dom_map_of_conv_image_fst list.set_map)
  then show ?thesis using assms distinct_card [of "map entry_key es"] by (simp add: fat_inv_def)
qed

lemma read_file_ok:
  assumes "represents s m" "\<not> FAT_LOCK s"
  shows "fat12_read_file name s = Some (case m (name_key name) of None \<Rightarrow> Inl ''File not found'' | Some bs \<Rightarrow> Inr bs, s)"
proof -
  obtain es css where inv: "fat_inv s es css" and m: "m = map_of (files s es css)" using assms(1) by (auto simp: represents_def)
  let ?s = "s\<lparr>FAT_LOCK := True\<rparr>"
  have v: "volume s" "root_entries s es" "list_all2 (holds s) es css" "distinct (map entry_key es)"
    using inv by (auto simp: fat_inv_def)
  have rd: "read_root_directory_unlocked ?s = Some (Inr es, ?s)" using read_root_ok [of ?s es] v by simp
  show ?thesis
  proof (cases "m (name_key name)")
    case None
    then have "find (has_name name) es = None" using find_none(1) v(2) list_all2_lengthD [OF v(3)] m by blast
    then have "find_entry_unlocked name ?s = Some (Inl ''File not found'', ?s)"
      using rd by (simp add: find_entry_unlocked_def fs_bind_def fs_err_def)
    then show ?thesis
      using None assms(2) by (simp add: fat12_read_file_def fat_locked_def fs_bind_def unlocked_id)
  next
    case (Some bs)
    obtain e cs where e: "find (has_name name) es = Some e" "holds s e cs" "bs = content s e cs"
      using find_some [OF v(2,3,4)] Some m by metis
    have f: "find_entry_unlocked name ?s = Some (Inr e, ?s)"
      using rd e(1) by (simp add: find_entry_unlocked_def fs_bind_def fs_ok_def)
    show ?thesis
    proof (cases "d_file_size e = 0")
      case True
      then show ?thesis
        using Some f e(3) assms(2) by (simp add: fat12_read_file_def fat_locked_def fs_bind_def fs_ok_def unlocked_id content_def)
    next
      case False
      then have "is_chain (FAT_CACHE ?s) cs" "hd cs = d_first_cluster e" using e(2) by (auto simp: holds_def)
      then have "read_chain ?s (d_first_cluster e) [] = Some (Inr (concat (map (cluster_bytes s) cs)))"
        using read_chain_ok [of ?s cs "[]"] v(1) by (simp add: volume_def)
      then show ?thesis
        using Some f e(3) False assms(2) by (simp add: fat12_read_file_def fat_locked_def fs_bind_def unlocked_id content_def)
    qed
  qed
qed

lemma store_ok:
  assumes "volume s" "bs \<noteq> []" "length bs < 2 ^ 32"
    "(length bs + cluster_size s - 1) div cluster_size s \<le> card (free_set (FAT_CACHE s))"
  obtains cs s1 where "allocate_and_write_chain bs s = Some (Inr cs, s1)" "cs \<noteq> []" "distinct cs"
    "set cs \<subseteq> free_set (FAT_CACHE s)" "volume s1" "\<And>es. root_entries s es \<Longrightarrow> root_entries s1 es"
    "\<And>es css. list_all2 (holds s) es css \<Longrightarrow> list_all2 (holds s1) es css \<and> files s1 es css = files s es css"
    "\<And>e. d_first_cluster e = cs ! 0 \<Longrightarrow> d_file_size e = of_nat (length bs) \<Longrightarrow> holds s1 e cs \<and> content s1 e cs = bs"
    "FAT_LOCK s1 = FAT_LOCK s" "max_entries s1 = max_entries s"
proof -
  obtain cs d c where r: "allocate_and_write_chain bs s = Some (Inr cs, s\<lparr>ide_of := d, FAT_CACHE := c\<rparr>)"
    "length cs = (length bs + cluster_size s - 1) div cluster_size s" "distinct cs" "set cs \<subseteq> free_set (FAT_CACHE s)"
    "is_chain c cs" "length c = length (FAT_CACHE s)" "\<forall>x. x \<notin> set cs \<longrightarrow> get_fat_entry c x = get_fat_entry (FAT_CACHE s) x"
    "same_elsewhere s (s\<lparr>ide_of := d\<rparr>) (set cs)" "take (length bs) (concat (map (cluster_bytes (s\<lparr>ide_of := d\<rparr>)) cs)) = bs"
    using allocate_and_write_chain_ok [OF assms(1,2,4)] by blast
  let ?s = "s\<lparr>ide_of := d, FAT_CACHE := c\<rparr>"
  have cl: "cluster_bytes ?s = cluster_bytes (s\<lparr>ide_of := d\<rparr>)" by simp
  have sz: "cluster_size ?s = cluster_size s" by (simp add: geometry_defs)
  have k: "0 < cluster_size s" and lay: "ROOT_DIR_START_SECTOR s + ROOT_DIR_SECTORS s \<le> DATA_START_SECTOR s"
    using assms(1) by (auto simp: volume_def cluster_size_def SECTOR_SIZE_def)
  have ne: "cs \<noteq> []" using needed_clusters(2) [OF k, of "length bs"] r(2) assms(2) by auto
  have vol: "volume ?s" using assms(1) r(6,8) by (simp add: volume_def geometry_defs same_elsewhere_def)
  have root: "root_entries ?s es" if "root_entries s es" for es
    using that r(8) lay by (simp add: root_entries_def root_bytes_def geometry_defs same_elsewhere_def)
  have old: "list_all2 (holds ?s) es css \<and> files ?s es css = files s es css" if h: "list_all2 (holds s) es css" for es css
  proof (rule list_all2_frame [OF h _ sz])
    fix x assume "x \<in> set (concat css)"
    then have "valid_cluster x" "x \<notin> set cs" using used_clusters_of [OF h] r(4) by auto
    then show "get_fat_entry (FAT_CACHE ?s) x = get_fat_entry (FAT_CACHE s) x \<and> cluster_bytes ?s x = cluster_bytes s x"
      using r(7,8) by (simp add: same_elsewhere_def)
  qed
  have new: "holds ?s e cs \<and> content ?s e cs = bs" if "d_first_cluster e = cs ! 0" "d_file_size e = of_nat (length bs)" for e
  proof -
    have "unat (d_file_size e) = length bs" using that(2) assms(3) by (simp add: unat_of_nat)
    moreover have "hd cs = cs ! 0" using ne by (simp add: hd_conv_nth)
    moreover have "length bs \<le> length cs * cluster_size ?s" using needed_clusters(1) [OF k] r(2) sz by simp
    ultimately show ?thesis using that r(5,9) by (simp add: holds_def content_def)
  qed
  show ?thesis by (rule that [OF r(1) ne r(3,4) vol root old new]) (simp_all add: geometry_defs)
qed

lemma finish_ok:
  assumes "volume s" "list_all2 (holds s) es css" "distinct (concat css)" "distinct (map entry_key es)"
    "length es' \<le> max_entries s" "\<And>e. e \<in> set es' \<Longrightarrow> length (d_name e) = 11 \<and> \<not> entry_is_empty e" "filter is_visible es' = es"
  obtains s' where "fs_bind (write_root_directory_unlocked es') (\<lambda>_. flush_fat_unlocked) s = Some (Inr (), s')" "fat_inv s' es css"
    "files s' es css = files s es css" "synced s'" "FAT_LOCK s' = FAT_LOCK s"
proof -
  obtain d where d: "fs_bind (write_root_directory_unlocked es') (\<lambda>_. flush_fat_unlocked) s = Some (Inr (), s\<lparr>ide_of := d\<rparr>)"
    "volume (s\<lparr>ide_of := d\<rparr>)" "synced (s\<lparr>ide_of := d\<rparr>)" "root_entries (s\<lparr>ide_of := d\<rparr>) es"
    "cluster_bytes (s\<lparr>ide_of := d\<rparr>) = cluster_bytes s"
    using commit_ok [OF assms(1,5,6)] assms(7) by blast
  have "list_all2 (holds (s\<lparr>ide_of := d\<rparr>)) es css \<and> files (s\<lparr>ide_of := d\<rparr>) es css = files s es css"
    by (rule list_all2_frame [OF assms(2)]) (simp_all add: d(5) geometry_defs)
  then show ?thesis using that [OF d(1)] d assms(3,4) by (simp add: fat_inv_def)
qed

lemma append_entry_ok:
  assumes "fat_inv s es css" "volume s1" "list_all2 (holds s1) es css \<and> files s1 es css = files s es css"
    "holds s1 e cs \<and> content s1 e cs = bs" "distinct cs" "set cs \<inter> set (concat css) = {}"
    "length (d_name e) = 11" "\<not> entry_is_empty e" "is_visible e" "entry_key e \<notin> set (map entry_key es)" "length es < max_entries s1"
  obtains s2 where "fs_bind (write_root_directory_unlocked (es @ [e])) (\<lambda>_. flush_fat_unlocked) s1 = Some (Inr (), s2)"
    "represents s2 ((map_of (files s es css))(entry_key e \<mapsto> bs))" "synced s2"
proof -
  have v: "root_entries s es" "distinct (concat css)" "distinct (map entry_key es)" and len: "length es = length css"
    using assms(1) by (auto simp: fat_inv_def list_all2_lengthD)
  have "list_all2 (holds s1) (es @ [e]) (css @ [cs])" "distinct (concat (css @ [cs]))" "distinct (map entry_key (es @ [e]))"
    "length (es @ [e]) \<le> max_entries s1"
    using assms v len by (auto simp: list_all2_append)
  moreover have "length (d_name x) = 11 \<and> \<not> entry_is_empty x" "is_visible x" if "x \<in> set (es @ [e])" for x
    using that assms(7-9) root_entriesD [OF v(1)] by auto
  ultimately obtain s2 where f: "fs_bind (write_root_directory_unlocked (es @ [e])) (\<lambda>_. flush_fat_unlocked) s1 = Some (Inr (), s2)"
    "fat_inv s2 (es @ [e]) (css @ [cs])" "files s2 (es @ [e]) (css @ [cs]) = files s1 (es @ [e]) (css @ [cs])" "synced s2"
    using finish_ok [OF assms(2), of "es @ [e]" "css @ [cs]" "es @ [e]"] by (metis filter_True)
  have "files s1 (es @ [e]) (css @ [cs]) = files s es css @ [(entry_key e, bs)]"
    using assms(3,4) len by (simp add: files_append files_Cons) (simp add: files_def)
  moreover have "map_of (files s es css) (entry_key e) = None"
    using assms(10) keys_of_files [OF len, of s] by (metis map_of_eq_None_iff list.set_map)
  ultimately have "represents s2 ((map_of (files s es css))(entry_key e \<mapsto> bs))"
    unfolding represents_def using f(2,3)
    by (intro exI [of _ "es @ [e]"] exI [of _ "css @ [cs]"]) (auto simp: map_add_def fun_eq_iff split: option.splits)
  then show ?thesis using that f(1,4) by blast
qed

lemma new_file_ok:
  assumes "valid_name name"
  obtains e where "new_file name c n = Inr e" "d_first_cluster e = c" "d_file_size e = n" "length (d_name e) = 11" "\<not> entry_is_empty e"
    "is_visible e" "entry_key e = name_key name"
proof -
  have attr: "\<not> is_lfn (blank_entry ATTR_ARCHIVE c n)" "\<not> is_volume_id (blank_entry ATTR_ARCHIVE c n)"
    by (simp_all add: is_lfn_def is_volume_id_def blank_entry_def ATTR_ARCHIVE_def ATTR_LFN_def ATTR_VOLUME_ID_def)
  obtain e where e: "set_name (blank_entry ATTR_ARCHIVE c n) name = Inr e"
    "e = (blank_entry ATTR_ARCHIVE c n)\<lparr>d_name := d_name e\<rparr>" "length (d_name e) = 11" "\<not> entry_is_empty e"
    "is_visible e" "entry_key e = name_key name"
    using set_name_finds [OF assms attr] by metis
  have "d_first_cluster e = c" "d_file_size e = n" by (subst e(2), simp add: blank_entry_def)+
  then show ?thesis using that e by (simp add: new_file_def)
qed

lemma create_file_ok:
  assumes "represents s m" "\<not> FAT_LOCK s" "valid_name name" "bs \<noteq> []" "length bs < 2 ^ 32" "m (name_key name) = None"
    "(length bs + cluster_size s - 1) div cluster_size s \<le> card (free_set (FAT_CACHE s))" "card (dom m) < max_entries s"
  shows "\<exists>s'. fat12_create_file name bs s = Some (Inr (), s') \<and> represents s' (m(name_key name \<mapsto> bs)) \<and> synced s' \<and> \<not> FAT_LOCK s'"
proof -
  obtain es css where inv: "fat_inv s es css" and m: "m = map_of (files s es css)" using assms(1) by (auto simp: represents_def)
  let ?s = "s\<lparr>FAT_LOCK := True\<rparr>"
  have v: "volume s" "root_entries s es" "list_all2 (holds s) es css" using inv by (auto simp: fat_inv_def)
  have len: "length es = length css" using v(3) by (rule list_all2_lengthD)
  obtain cs s1 where a: "allocate_and_write_chain bs ?s = Some (Inr cs, s1)" "cs \<noteq> []" "distinct cs"
    "set cs \<subseteq> free_set (FAT_CACHE s)" "volume s1" "\<And>es. root_entries s es \<Longrightarrow> root_entries s1 es"
    "\<And>es css. list_all2 (holds s) es css \<Longrightarrow> list_all2 (holds s1) es css \<and> files s1 es css = files s es css"
    "\<And>e. d_first_cluster e = cs ! 0 \<Longrightarrow> d_file_size e = of_nat (length bs) \<Longrightarrow> holds s1 e cs \<and> content s1 e cs = bs"
    "FAT_LOCK s1 = FAT_LOCK ?s" "max_entries s1 = max_entries s"
    using store_ok [of ?s bs] v(1) assms(4,5,7) by auto
  obtain e where e: "new_file name (cs ! 0) (of_nat (length bs)) = Inr e" "d_first_cluster e = cs ! 0"
    "d_file_size e = of_nat (length bs)" "length (d_name e) = 11" "\<not> entry_is_empty e" "is_visible e" "entry_key e = name_key name"
    using new_file_ok [OF assms(3)] by metis
  have "set cs \<inter> set (concat css) = {}" using a(4) used_clusters_of(2) [OF v(3)] by auto
  moreover have "entry_key e \<notin> set (map entry_key es)"
    using e(7) assms(6) m keys_of_files [OF len, of s] by (metis map_of_eq_None_iff list.set_map)
  moreover have "length es < max_entries s1" using fat_inv_card [OF inv] assms(8) m a(10) by simp
  ultimately obtain s2 where f: "fs_bind (write_root_directory_unlocked (es @ [e])) (\<lambda>_. flush_fat_unlocked) s1 = Some (Inr (), s2)"
    "represents s2 (m(name_key name \<mapsto> bs))" "synced s2"
    using append_entry_ok [OF inv a(5) a(7) [OF v(3)] a(8) [OF e(2,3)] a(3) _ e(4-6)] e(7) m by metis
  have "FAT_INITIALIZED ?s" using v(1) by (simp add: volume_def)
  moreover have "\<not> list_ex (has_name name) es" using find_none(3) [OF v(2) len] assms(6) m by blast
  moreover have "read_root_directory_unlocked s1 = Some (Inr es, s1)" using read_root_ok a(5,6) v(2) by blast
  ultimately have "fat12_create_file name bs s = Some (Inr (), s2\<lparr>FAT_LOCK := False\<rparr>)"
    unfolding fat12_create_file_def using a(1) e(1) f(1) assms(4)
    by (intro fat_lockedI [OF assms(2)]) (simp add: fs_bind_def fs_initialized_def fs_unless_def fs_ok_def fs_lift_def)
  then show ?thesis using f(2,3) by (intro exI [of _ "s2\<lparr>FAT_LOCK := False\<rparr>"]) simp
qed

lemma release_ok:
  assumes "volume s" "holds s e cs" "distinct cs"
  obtains s1 where "fs_cache (free_cluster_chain (d_first_cluster e)) s = Some (Inr (), s1)" "volume s1"
    "\<And>es. root_entries s es \<Longrightarrow> root_entries s1 es"
    "\<And>es css. list_all2 (holds s) es css \<Longrightarrow> set cs \<inter> set (concat css) = {} \<Longrightarrow>
       list_all2 (holds s1) es css \<and> files s1 es css = files s es css"
    "free_set (FAT_CACHE s) \<subseteq> free_set (FAT_CACHE s1)" "FAT_LOCK s1 = FAT_LOCK s" "max_entries s1 = max_entries s"
    "cluster_size s1 = cluster_size s"
proof -
  have "\<exists>c. free_cluster_chain (d_first_cluster e) (FAT_CACHE s) = Some c \<and> length c = length (FAT_CACHE s)
    \<and> get_fat_entry c = (\<lambda>x. if x \<in> set cs then Some 0 else get_fat_entry (FAT_CACHE s) x)"
  proof (cases "cs = []")
    case True
    then have "d_first_cluster e = 0" using assms(2) by (auto simp: holds_def)
    then have "free_cluster_chain (d_first_cluster e) (FAT_CACHE s) = Some (FAT_CACHE s)"
      by (subst free_cluster_chain.simps) simp
    then show ?thesis using True by simp
  next
    case False
    then show ?thesis using assms(2) free_cluster_chain_ok [OF _ assms(3), of "FAT_CACHE s"] by (auto simp: holds_def)
  qed
  then obtain c where c: "free_cluster_chain (d_first_cluster e) (FAT_CACHE s) = Some c" "length c = length (FAT_CACHE s)"
    "get_fat_entry c = (\<lambda>x. if x \<in> set cs then Some 0 else get_fat_entry (FAT_CACHE s) x)" by blast
  let ?s = "s\<lparr>FAT_CACHE := c\<rparr>"
  have sz: "cluster_size ?s = cluster_size s" by (simp add: geometry_defs)
  have others: "list_all2 (holds ?s) es css \<and> files ?s es css = files s es css"
    if "list_all2 (holds s) es css" "set cs \<inter> set (concat css) = {}" for es css
    by (rule list_all2_frame [OF that(1) _ sz]) (use c(3) that(2) in auto)
  show ?thesis
  proof (rule that [of ?s])
    show "fs_cache (free_cluster_chain (d_first_cluster e)) s = Some (Inr (), ?s)" using c(1) by (simp add: fs_cache_def)
    show "volume ?s" using assms(1) c(2) by (simp add: volume_def geometry_defs)
    show "free_set (FAT_CACHE s) \<subseteq> free_set (FAT_CACHE ?s)" using c(3) by (auto simp: free_set_def)
  qed (simp_all add: others sz root_entries_def root_bytes_def geometry_defs)
qed

lemma map_of_replace:
  assumes "distinct (map fst (xs @ (k, v) # ys))"
  shows "map_of (xs @ (k, w) # ys) = (map_of (xs @ (k, v) # ys))(k \<mapsto> w)" "map_of (xs @ ys) = (map_of (xs @ (k, v) # ys))(k := None)"
proof -
  have "map_of xs k = None" "map_of ys k = None" using assms by (simp_all add: map_of_eq_None_iff)
  then show "map_of (xs @ (k, w) # ys) = (map_of (xs @ (k, v) # ys))(k \<mapsto> w)"
    "map_of (xs @ ys) = (map_of (xs @ (k, v) # ys))(k := None)"
    by (simp_all add: fun_eq_iff map_add_def split: option.splits)
qed

lemma files_split:
  "length es1 = length css1 \<Longrightarrow>
    files s (es1 @ e # es2) (css1 @ cs # css2) = files s es1 css1 @ (entry_key e, content s e cs) # files s es2 css2"
  by (simp add: files_append files_Cons)

lemma fat_inv_split:
  assumes "fat_inv s (es1 @ e # es2) (css1 @ cs # css2)" "length es1 = length css1"
  shows "distinct (map fst (files s es1 css1 @ (entry_key e, content s e cs) # files s es2 css2))"
    "distinct (concat (css1 @ css2))" "distinct cs" "set cs \<inter> set (concat css1) = {}" "set cs \<inter> set (concat css2) = {}"
proof -
  have "length (es1 @ e # es2) = length (css1 @ cs # css2)" using assms(1) list_all2_lengthD unfolding fat_inv_def by blast
  from keys_of_files [OF this, of s]
  show "distinct (map fst (files s es1 css1 @ (entry_key e, content s e cs) # files s es2 css2))"
    using assms(1) by (simp only: files_split [OF assms(2)] fat_inv_def)
qed (use assms(1) in \<open>auto simp: fat_inv_def\<close>)

lemma replace_entry_ok:
  assumes "fat_inv s (es1 @ e # es2) (css1 @ cs # css2)" "length es1 = length css1" "volume s1"
    "list_all2 (holds s1) es1 css1 \<and> files s1 es1 css1 = files s es1 css1"
    "list_all2 (holds s1) es2 css2 \<and> files s1 es2 css2 = files s es2 css2"
    "holds s1 e' cs' \<and> content s1 e' cs' = bs" "distinct cs'" "set cs' \<inter> set (concat (css1 @ css2)) = {}"
    "d_name e' = d_name e" "d_attributes e' = d_attributes e" "max_entries s1 = max_entries s"
  obtains s2 where "fs_bind (write_root_directory_unlocked (es1 @ e' # es2)) (\<lambda>_. flush_fat_unlocked) s1 = Some (Inr (), s2)"
    "represents s2 ((map_of (files s (es1 @ e # es2) (css1 @ cs # css2)))(entry_key e \<mapsto> bs))" "synced s2"
proof -
  note sp = fat_inv_split [OF assms(1,2)]
  have v: "root_entries s (es1 @ e # es2)" "distinct (map entry_key (es1 @ e # es2))" using assms(1) by (auto simp: fat_inv_def)
  have same: "entry_key e' = entry_key e" "entry_is_empty e' = entry_is_empty e" "is_visible e' = is_visible e"
    using assms(9,10) by (simp_all add: entry_key_def get_name_def entry_is_empty_def is_visible_def is_deleted_def is_lfn_def is_volume_id_def)
  have "length (d_name x) = 11 \<and> \<not> entry_is_empty x" "is_visible x" if "x \<in> set (es1 @ e' # es2)" for x
    using that root_entriesD [OF v(1)] same assms(9) by auto
  moreover have "list_all2 (holds s1) (es1 @ e' # es2) (css1 @ cs' # css2)"
    using assms(2,4-6) by (simp add: list_all2_append)
  moreover have "distinct (concat (css1 @ cs' # css2))" using sp(2) assms(7,8) by auto
  moreover have "distinct (map entry_key (es1 @ e' # es2))" using v(2) same(1) by simp
  moreover have "length (es1 @ e' # es2) \<le> max_entries s1" using root_entries_length [OF v(1)] assms(11) by simp
  ultimately obtain s2 where f: "fs_bind (write_root_directory_unlocked (es1 @ e' # es2)) (\<lambda>_. flush_fat_unlocked) s1 = Some (Inr (), s2)"
    "fat_inv s2 (es1 @ e' # es2) (css1 @ cs' # css2)"
    "files s2 (es1 @ e' # es2) (css1 @ cs' # css2) = files s1 (es1 @ e' # es2) (css1 @ cs' # css2)" "synced s2"
    using finish_ok [OF assms(3), of "es1 @ e' # es2" "css1 @ cs' # css2" "es1 @ e' # es2"] by (metis filter_True)
  have "files s2 (es1 @ e' # es2) (css1 @ cs' # css2) = files s es1 css1 @ (entry_key e, bs) # files s es2 css2"
    using f(3) assms(2,4-6) same(1) by (simp add: files_split)
  then have "represents s2 ((map_of (files s (es1 @ e # es2) (css1 @ cs # css2)))(entry_key e \<mapsto> bs))"
    unfolding represents_def using f(2) map_of_replace(1) [OF sp(1), of bs] files_split [OF assms(2), of s e es2 cs css2]
    by (metis (no_types, lifting))
  then show ?thesis using that f(1,4) by blast
qed

lemma find_with_index_ok:
  assumes "volume s" "root_entries s es" "find_index 0 name es = Some (i, e)"
  shows "find_entry_with_index_unlocked name s = Some (Inr (i, e), s)"
  using read_root_ok [OF assms(1,2)] assms(3) by (simp add: find_entry_with_index_unlocked_def fs_bind_def fs_ok_def)

text \<open>After the old chain was released: the new contents get a chain of their own, or none when there are none.\<close>

lemma store_entry_ok:
  assumes "fat_inv s (es1 @ e # es2) (css1 @ cs # css2)" "length es1 = length css1" "volume s1"
    "list_all2 (holds s1) es1 css1 \<and> files s1 es1 css1 = files s es1 css1"
    "list_all2 (holds s1) es2 css2 \<and> files s1 es2 css2 = files s es2 css2"
    "max_entries s1 = max_entries s" "bs \<noteq> []" "length bs < 2 ^ 32"
    "(length bs + cluster_size s1 - 1) div cluster_size s1 \<le> card (free_set (FAT_CACHE s1))"
  obtains cs' s2 s3 where "allocate_and_write_chain bs s1 = Some (Inr cs', s2)"
    "fs_bind (write_root_directory_unlocked (es1 @ e\<lparr>d_first_cluster := cs' ! 0, d_file_size := of_nat (length bs)\<rparr> # es2))
       (\<lambda>_. flush_fat_unlocked) s2 = Some (Inr (), s3)"
    "represents s3 ((map_of (files s (es1 @ e # es2) (css1 @ cs # css2)))(entry_key e \<mapsto> bs))" "synced s3"
proof -
  obtain cs' s2 where a: "allocate_and_write_chain bs s1 = Some (Inr cs', s2)" "cs' \<noteq> []" "distinct cs'"
    "set cs' \<subseteq> free_set (FAT_CACHE s1)" "volume s2" "\<And>es. root_entries s1 es \<Longrightarrow> root_entries s2 es"
    "\<And>es css. list_all2 (holds s1) es css \<Longrightarrow> list_all2 (holds s2) es css \<and> files s2 es css = files s1 es css"
    "\<And>e. d_first_cluster e = cs' ! 0 \<Longrightarrow> d_file_size e = of_nat (length bs) \<Longrightarrow> holds s2 e cs' \<and> content s2 e cs' = bs"
    "max_entries s2 = max_entries s1"
    using store_ok [OF assms(3,7,8,9)] by metis
  let ?e = "e\<lparr>d_first_cluster := cs' ! 0, d_file_size := of_nat (length bs)\<rparr>"
  have "x \<notin> set (concat css1)" "x \<notin> set (concat css2)" if "x \<in> set cs'" for x
    using that a(4) used_clusters_of(2) [of s1 es1 css1] used_clusters_of(2) [of s1 es2 css2] assms(4,5) by blast+
  then have dj: "set cs' \<inter> set (concat (css1 @ css2)) = {}" by auto
  have keep: "list_all2 (holds s2) es1 css1 \<and> files s2 es1 css1 = files s es1 css1"
    "list_all2 (holds s2) es2 css2 \<and> files s2 es2 css2 = files s es2 css2" using a(7) assms(4,5) by auto
  have new: "holds s2 ?e cs' \<and> content s2 ?e cs' = bs" by (rule a(8)) simp_all
  show ?thesis
    by (rule replace_entry_ok [OF assms(1,2) a(5) keep new a(3) dj]) (use a(9) assms(6) that [OF a(1)] in simp_all)
qed

text \<open>The state between releasing an entry's chain and writing its new contents.\<close>

lemma release_entry_ok:
  assumes "represents s m" "m (name_key name) = Some old"
  obtains es1 e es2 css1 cs css2 s1 where "fat_inv s (es1 @ e # es2) (css1 @ cs # css2)" "length es1 = length css1"
    "m = map_of (files s (es1 @ e # es2) (css1 @ cs # css2))" "entry_key e = name_key name"
    "find_entry_with_index_unlocked name s = Some (Inr (length es1, e), s)" "old = content s e cs"
    "fs_cache (free_cluster_chain (d_first_cluster e)) s = Some (Inr (), s1)" "volume s1"
    "read_root_directory_unlocked s1 = Some (Inr (es1 @ e # es2), s1)"
    "list_all2 (holds s1) es1 css1 \<and> files s1 es1 css1 = files s es1 css1"
    "list_all2 (holds s1) es2 css2 \<and> files s1 es2 css2 = files s es2 css2"
    "card (free_set (FAT_CACHE s)) \<le> card (free_set (FAT_CACHE s1))" "max_entries s1 = max_entries s"
    "cluster_size s1 = cluster_size s"
proof -
  obtain es css where inv: "fat_inv s es css" and m: "m = map_of (files s es css)" using assms(1) by (auto simp: represents_def)
  have v: "volume s" "root_entries s es" "list_all2 (holds s) es css" "distinct (map entry_key es)" using inv by (auto simp: fat_inv_def)
  obtain es1 e es2 css1 cs css2 where sp: "es = es1 @ e # es2" "css = css1 @ cs # css2" "length es1 = length css1" "holds s e cs"
    "list_all2 (holds s) es1 css1" "list_all2 (holds s) es2 css2" "entry_key e = name_key name" "old = content s e cs"
    "find (has_name name) es = Some e" "find_index 0 name es = Some (length es1, e)" "list_ex (has_name name) es"
    by (rule find_some [OF v(2-4), of name old]) (use assms(2) m in simp_all)
  note inv' = inv [unfolded sp(1,2)]
  note dj = fat_inv_split [OF inv' sp(3)]
  obtain s1 where r: "fs_cache (free_cluster_chain (d_first_cluster e)) s = Some (Inr (), s1)" "volume s1"
    "\<And>es. root_entries s es \<Longrightarrow> root_entries s1 es"
    "\<And>es css. list_all2 (holds s) es css \<Longrightarrow> set cs \<inter> set (concat css) = {} \<Longrightarrow>
       list_all2 (holds s1) es css \<and> files s1 es css = files s es css"
    "free_set (FAT_CACHE s) \<subseteq> free_set (FAT_CACHE s1)" "max_entries s1 = max_entries s" "cluster_size s1 = cluster_size s"
    by (rule release_ok [OF v(1) sp(4) dj(3)]) simp_all
  have "read_root_directory_unlocked s1 = Some (Inr (es1 @ e # es2), s1)" using read_root_ok r(2,3) v(2) sp(1) by blast
  moreover have "card (free_set (FAT_CACHE s)) \<le> card (free_set (FAT_CACHE s1))"
    by (rule card_mono [OF _ r(5)]) (simp add: free_set_def)
  moreover have "m = map_of (files s (es1 @ e # es2) (css1 @ cs # css2))" using m sp(1,2) by simp
  ultimately show ?thesis
    using that [OF inv' sp(3) _ sp(7) find_with_index_ok [OF v(1,2) sp(10)] sp(8) r(1,2) _ r(4) [OF sp(5) dj(4)] r(4) [OF sp(6) dj(5)]]
      r(6,7) by blast
qed

lemma write_file_ok:
  assumes "represents s m" "\<not> FAT_LOCK s" "length bs < 2 ^ 32" "m (name_key name) = Some old"
    "(length bs + cluster_size s - 1) div cluster_size s \<le> card (free_set (FAT_CACHE s))"
  shows "\<exists>s'. fat12_write_file name bs s = Some (Inr (), s') \<and> represents s' (m(name_key name \<mapsto> bs)) \<and> synced s' \<and> \<not> FAT_LOCK s'"
proof -
  let ?s = "s\<lparr>FAT_LOCK := True\<rparr>"
  have rep: "represents ?s m" using assms(1) by simp
  obtain es1 e es2 css1 cs css2 s1 where r: "fat_inv ?s (es1 @ e # es2) (css1 @ cs # css2)" "length es1 = length css1"
    "m = map_of (files ?s (es1 @ e # es2) (css1 @ cs # css2))" "entry_key e = name_key name"
    "find_entry_with_index_unlocked name ?s = Some (Inr (length es1, e), ?s)"
    "fs_cache (free_cluster_chain (d_first_cluster e)) ?s = Some (Inr (), s1)" "volume s1"
    "read_root_directory_unlocked s1 = Some (Inr (es1 @ e # es2), s1)"
    "list_all2 (holds s1) es1 css1 \<and> files s1 es1 css1 = files ?s es1 css1"
    "list_all2 (holds s1) es2 css2 \<and> files s1 es2 css2 = files ?s es2 css2"
    "card (free_set (FAT_CACHE ?s)) \<le> card (free_set (FAT_CACHE s1))" "max_entries s1 = max_entries ?s"
    "cluster_size s1 = cluster_size ?s"
    by (rule release_entry_ok [OF rep assms(4)])
  have init: "FAT_INITIALIZED ?s" using r(1) by (simp add: fat_inv_def volume_def)
  have "\<exists>s2. fat12_write_file name bs s = Some (Inr (), s2\<lparr>FAT_LOCK := False\<rparr>) \<and> represents s2 (m(name_key name \<mapsto> bs)) \<and> synced s2"
  proof (cases "bs = []")
    case True
    let ?e = "e\<lparr>d_first_cluster := 0, d_file_size := 0\<rparr>"
    obtain s2 where f: "fs_bind (write_root_directory_unlocked (es1 @ ?e # es2)) (\<lambda>_. flush_fat_unlocked) s1 = Some (Inr (), s2)"
      "represents s2 (m(name_key name \<mapsto> bs))" "synced s2"
      by (rule replace_entry_ok [OF r(1,2,7,9,10), of ?e "[]" "[]"])
        (use True r(3,4,12) in \<open>simp_all add: holds_def content_def\<close>)
    then have "fat12_write_file name bs s = Some (Inr (), s2\<lparr>FAT_LOCK := False\<rparr>)"
      unfolding fat12_write_file_def using r(5,6,8) init True
      by (intro fat_lockedI [OF assms(2)]) (simp add: fs_bind_def fs_initialized_def fs_ok_def)
    then show ?thesis using f(2,3) by blast
  next
    case False
    have "(length bs + cluster_size s1 - 1) div cluster_size s1 \<le> card (free_set (FAT_CACHE s1))" using assms(5) r(11,13) by simp
    then obtain cs' s2 s3 where a: "allocate_and_write_chain bs s1 = Some (Inr cs', s2)"
      "fs_bind (write_root_directory_unlocked (es1 @ e\<lparr>d_first_cluster := cs' ! 0, d_file_size := of_nat (length bs)\<rparr> # es2))
         (\<lambda>_. flush_fat_unlocked) s2 = Some (Inr (), s3)"
      "represents s3 (m(name_key name \<mapsto> bs))" "synced s3"
      using store_entry_ok [OF r(1,2,7,9,10,12) False assms(3)] r(3,4) by metis
    then have "fat12_write_file name bs s = Some (Inr (), s3\<lparr>FAT_LOCK := False\<rparr>)"
      unfolding fat12_write_file_def using r(5,6,8) init False
      by (intro fat_lockedI [OF assms(2)]) (simp add: fs_bind_def fs_initialized_def fs_ok_def)
    then show ?thesis using a(3,4) by blast
  qed
  then show ?thesis by auto
qed

lemma delete_file_ok:
  assumes "represents s m" "\<not> FAT_LOCK s" "m (name_key name) = Some old"
  shows "\<exists>s'. fat12_delete_file name s = Some (Inr (), s') \<and> represents s' (m(name_key name := None)) \<and> synced s' \<and> \<not> FAT_LOCK s'"
proof -
  let ?s = "s\<lparr>FAT_LOCK := True\<rparr>"
  have rep: "represents ?s m" using assms(1) by simp
  obtain es1 e es2 css1 cs css2 s1 where r: "fat_inv ?s (es1 @ e # es2) (css1 @ cs # css2)" "length es1 = length css1"
    "m = map_of (files ?s (es1 @ e # es2) (css1 @ cs # css2))" "entry_key e = name_key name"
    "find_entry_with_index_unlocked name ?s = Some (Inr (length es1, e), ?s)"
    "fs_cache (free_cluster_chain (d_first_cluster e)) ?s = Some (Inr (), s1)" "volume s1"
    "read_root_directory_unlocked s1 = Some (Inr (es1 @ e # es2), s1)"
    "list_all2 (holds s1) es1 css1 \<and> files s1 es1 css1 = files ?s es1 css1"
    "list_all2 (holds s1) es2 css2 \<and> files s1 es2 css2 = files ?s es2 css2" "max_entries s1 = max_entries ?s"
    by (rule release_entry_ok [OF rep assms(3)])
  note sp = fat_inv_split [OF r(1,2)]
  have v: "root_entries ?s (es1 @ e # es2)" "distinct (map entry_key (es1 @ e # es2))" using r(1) by (auto simp: fat_inv_def)
  let ?e = "e\<lparr>d_name := (d_name e)[0 := DIR_ENTRY_DELETED]\<rparr>"
  have e: "length (d_name ?e) = 11" "is_deleted ?e" "\<not> entry_is_empty ?e"
    using root_entriesD(1) [OF v(1), of e] by (auto simp: is_deleted_def entry_is_empty_def DIR_ENTRY_DELETED_def DIR_ENTRY_END_def)
  have ok: "length (d_name x) = 11 \<and> \<not> entry_is_empty x" "x \<noteq> ?e \<Longrightarrow> is_visible x" if "x \<in> set (es1 @ ?e # es2)" for x
    using that root_entriesD [OF v(1)] e by auto
  have "x \<noteq> ?e" if "x \<in> set (es1 @ es2)" for x
    using that root_entriesD(3) [OF v(1), of x] e(2) by (auto simp: is_visible_def)
  then have "filter is_visible (es1 @ ?e # es2) = es1 @ es2"
    using ok(2) e(2) by (auto simp: is_visible_def [of ?e] intro!: filter_True)
  moreover have "list_all2 (holds s1) (es1 @ es2) (css1 @ css2)" using r(2,9,10) by (simp add: list_all2_append)
  moreover have "distinct (map entry_key (es1 @ es2))" using v(2) by auto
  moreover have "length (es1 @ ?e # es2) \<le> max_entries s1" using root_entries_length [OF v(1)] r(11) by simp
  ultimately obtain s2 where f: "fs_bind (write_root_directory_unlocked (es1 @ ?e # es2)) (\<lambda>_. flush_fat_unlocked) s1 = Some (Inr (), s2)"
    "fat_inv s2 (es1 @ es2) (css1 @ css2)" "files s2 (es1 @ es2) (css1 @ css2) = files s1 (es1 @ es2) (css1 @ css2)" "synced s2"
    using finish_ok [OF r(7), of "es1 @ es2" "css1 @ css2" "es1 @ ?e # es2"] sp(2) ok(1) by metis
  have "files s2 (es1 @ es2) (css1 @ css2) = files ?s es1 css1 @ files ?s es2 css2" using f(3) r(2,9,10) by (simp add: files_append)
  then have "represents s2 (m(name_key name := None))"
    unfolding represents_def using f(2) map_of_replace(2) [OF sp(1)] r(3,4) files_split [OF r(2), of ?s e es2 cs css2]
    by (metis (no_types, lifting))
  moreover have "fat12_delete_file name s = Some (Inr (), s2\<lparr>FAT_LOCK := False\<rparr>)"
    unfolding fat12_delete_file_def remove_entry_def using r(5,6,8) f(1)
    by (intro fat_lockedI [OF assms(2)]) (simp add: fs_bind_def)
  ultimately show ?thesis using f(4) by (intro exI [of _ "s2\<lparr>FAT_LOCK := False\<rparr>"]) simp
qed

section \<open>The contract of a file store\<close>

lemma root_room_card:
  assumes "represents s m" "root_room s"
  shows "card (dom m) < max_entries s"
proof -
  obtain es css where inv: "fat_inv s es css" "m = map_of (files s es css)" using assms(1) by (auto simp: represents_def)
  then have "root_entries s es" by (simp add: fat_inv_def)
  then have "length es < max_entries s" using assms(2) by (auto simp: root_entries_def root_room_def)
  then show ?thesis using fat_inv_card [OF inv(1)] inv(2) by simp
qed

lemma find_index_missing:
  assumes "represents s m" "m (name_key name) = None"
  shows "find_entry_with_index_unlocked name s = Some (Inl ''File not found'', s)" "FAT_INITIALIZED s"
proof -
  obtain es css where inv: "fat_inv s es css" "m = map_of (files s es css)" using assms(1) by (auto simp: represents_def)
  then have v: "volume s" "root_entries s es" "length es = length css" by (auto simp: fat_inv_def list_all2_lengthD)
  show "find_entry_with_index_unlocked name s = Some (Inl ''File not found'', s)"
    using read_root_ok [OF v(1,2)] find_none(2) [OF v(2,3)] assms(2) inv(2)
    by (simp add: find_entry_with_index_unlocked_def fs_bind_def fs_err_def)
  show "FAT_INITIALIZED s" using v(1) by (simp add: volume_def)
qed

lemma write_file_missing:
  assumes "represents s m" "\<not> FAT_LOCK s" "m (name_key name) = None"
  shows "fat12_write_file name bs s = Some (Inl ''File not found'', s)"
proof -
  have "represents (s\<lparr>FAT_LOCK := True\<rparr>) m" using assms(1) by simp
  note f = find_index_missing [OF this assms(3)]
  show ?thesis
    using fat_lockedI [OF assms(2)] f assms(2)
    by (simp add: fat12_write_file_def fat_locked_def fs_bind_def fs_initialized_def fs_ok_def unlocked_id)
qed

lemma delete_file_missing:
  assumes "represents s m" "\<not> FAT_LOCK s" "m (name_key name) = None"
  shows "fat12_delete_file name s = Some (Inl ''File not found'', s)"
proof -
  have "represents (s\<lparr>FAT_LOCK := True\<rparr>) m" using assms(1) by simp
  note f = find_index_missing [OF this assms(3)]
  show ?thesis using f assms(2) by (simp add: fat12_delete_file_def fat_locked_def fs_bind_def unlocked_id)
qed

lemma find_entry_ok:
  assumes "represents s m"
  shows "\<exists>e. find_entry_unlocked name s = Some (case m (name_key name) of None \<Rightarrow> Inl ''File not found'' | Some _ \<Rightarrow> Inr e, s)
    \<and> (\<forall>bs. m (name_key name) = Some bs \<longrightarrow> unat (d_file_size e) = length bs)"
proof -
  obtain es css where inv: "fat_inv s es css" "m = map_of (files s es css)" using assms by (auto simp: represents_def)
  have v: "volume s" "root_entries s es" "list_all2 (holds s) es css" "distinct (map entry_key es)"
    using inv(1) by (auto simp: fat_inv_def)
  note rd = read_root_ok [OF v(1,2)]
  show ?thesis
  proof (cases "m (name_key name)")
    case None
    then have "find (has_name name) es = None" using find_none(1) [OF v(2)] list_all2_lengthD [OF v(3)] inv(2) by blast
    then show ?thesis using rd None by (simp add: find_entry_unlocked_def fs_bind_def fs_err_def)
  next
    case (Some bs)
    obtain e cs where e: "find (has_name name) es = Some e" "holds s e cs" "bs = content s e cs"
      using find_some [OF v(2,3,4)] Some inv(2) by metis
    have "length (concat (map (cluster_bytes s) cs)) = length cs * cluster_size s"
      by (rule concat_sectors_length) (use v(1) in \<open>simp add: volume_def cluster_bytes_length\<close>)
    then have "length bs = unat (d_file_size e)" using e(2,3) by (auto simp: holds_def content_def)
    then show ?thesis using rd e(1) Some by (intro exI [of _ e]) (simp add: find_entry_unlocked_def fs_bind_def fs_ok_def)
  qed
qed

lemma query_ok:
  assumes "represents s m" "\<not> FAT_LOCK s"
  shows "fat12_file_exists name s = Some (m (name_key name) \<noteq> None, s)"
    "fat12_get_file_size name s = Some (map_option (\<lambda>bs. of_nat (length bs)) (m (name_key name)), s)"
proof -
  have "represents (s\<lparr>FAT_LOCK := True\<rparr>) m" using assms(1) by simp
  then obtain e where e: "find_entry_unlocked name (s\<lparr>FAT_LOCK := True\<rparr>) =
      Some (case m (name_key name) of None \<Rightarrow> Inl ''File not found'' | Some _ \<Rightarrow> Inr e, s\<lparr>FAT_LOCK := True\<rparr>)"
    "\<forall>bs. m (name_key name) = Some bs \<longrightarrow> unat (d_file_size e) = length bs"
    using find_entry_ok by blast
  then show "fat12_file_exists name s = Some (m (name_key name) \<noteq> None, s)"
    using assms(2) by (simp add: fat12_file_exists_def fs_query_def fat_locked_def unlocked_id split: option.splits)
  have "d_file_size e = of_nat (length bs)" if "m (name_key name) = Some bs" for bs
  proof -
    have "of_nat (unat (d_file_size e)) = d_file_size e" by simp
    then show ?thesis using e(2) that by simp
  qed
  then show "fat12_get_file_size name s = Some (map_option (\<lambda>bs. of_nat (length bs)) (m (name_key name)), s)"
    using e(1) assms(2) by (simp add: fat12_get_file_size_def fs_query_def fat_locked_def unlocked_id split: option.splits)
qed

interpretation fat: file_store fat_rep fat_room fat_fresh fat12_read_file fat12_create_file fat12_write_file fat12_delete_file
  fat12_get_file_size fat12_file_exists
proof
  fix s m name bs old
  assume r: "fat_rep s m"
  then have rep: "represents s m" "\<not> FAT_LOCK s" by (auto simp: fat_rep_def)
  show "fat12_read_file name s = Some (case m (name_key name) of None \<Rightarrow> Inl ''File not found'' | Some bs \<Rightarrow> Inr bs, s)"
    by (rule read_file_ok [OF rep])
  show "\<exists>s'. fat12_create_file name bs s = Some (Inr (), s') \<and> fat_rep s' (m(name_key name \<mapsto> bs))"
    if "m (name_key name) = None" "fat_fresh s name bs"
    using create_file_ok [OF rep _ _ _ that(1)] that(2) root_room_card [OF rep(1)] by (auto simp: fat_fresh_def fat_room_def fat_rep_def)
  show "\<exists>s'. fat12_write_file name bs s = Some (Inr (), s') \<and> fat_rep s' (m(name_key name \<mapsto> bs))"
    if "m (name_key name) = Some old" "fat_room s bs"
    using write_file_ok [OF rep _ that(1)] that(2) by (auto simp: fat_room_def fat_rep_def)
  show "\<exists>s'. fat12_delete_file name s = Some (Inr (), s') \<and> fat_rep s' (m(name_key name := None))"
    if "m (name_key name) = Some old"
    using delete_file_ok [OF rep that] by (auto simp: fat_rep_def)
qed (auto simp: fat_rep_def write_file_missing delete_file_missing query_ok)

text \<open>
  C10. Creating a file under a name that exists fails with an error and leaves every file as it was, but the
  clusters were allocated and written before the check and stay allocated: the number of free clusters drops by the
  clusters of the rejected data.
\<close>

theorem create_existing_leaks:
  assumes "represents s m" "\<not> FAT_LOCK s" "bs \<noteq> []" "fat_room s bs" "m (name_key name) = Some old"
  shows "\<exists>s'. fat12_create_file name bs s = Some (Inl ''File already exists'', s') \<and> represents s' m \<and> \<not> FAT_LOCK s'
    \<and> card (free_set (FAT_CACHE s')) + (length bs + cluster_size s - 1) div cluster_size s = card (free_set (FAT_CACHE s))"
proof -
  obtain es css where inv: "fat_inv s es css" and m: "m = map_of (files s es css)" using assms(1) by (auto simp: represents_def)
  let ?s = "s\<lparr>FAT_LOCK := True\<rparr>" and ?n = "(length bs + cluster_size s - 1) div cluster_size s"
  have v: "volume s" "root_entries s es" "list_all2 (holds s) es css" "distinct (map entry_key es)" "distinct (concat css)"
    using inv by (auto simp: fat_inv_def)
  have room: "length bs < 2 ^ 32" "?n \<le> card (free_set (FAT_CACHE s))" using assms(4) by (auto simp: fat_room_def)
  obtain cs s1 where a: "allocate_and_write_chain bs ?s = Some (Inr cs, s1)" "cs \<noteq> []" "distinct cs"
    "set cs \<subseteq> free_set (FAT_CACHE s)" "volume s1" "\<And>es. root_entries s es \<Longrightarrow> root_entries s1 es"
    "\<And>es css. list_all2 (holds s) es css \<Longrightarrow> list_all2 (holds s1) es css \<and> files s1 es css = files s es css"
    "\<And>e. d_first_cluster e = cs ! 0 \<Longrightarrow> d_file_size e = of_nat (length bs) \<Longrightarrow> holds s1 e cs \<and> content s1 e cs = bs"
    "FAT_LOCK s1 = FAT_LOCK ?s" "max_entries s1 = max_entries s"
    using store_ok [of ?s bs] v(1) assms(3) room by auto
  have ch: "length cs = ?n" "is_chain (FAT_CACHE s1) cs" "\<And>x. x \<notin> set cs \<Longrightarrow> get_fat_entry (FAT_CACHE s1) x = get_fat_entry (FAT_CACHE s) x"
    using allocate_and_write_chain_ok [of ?s bs] v(1) assms(3) room(2) a(1) by auto
  have nz: "get_fat_entry (FAT_CACHE s1) x \<noteq> Some 0" if "x \<in> set cs" for x using is_chain_used [OF ch(2) that] by auto
  have "x \<in> free_set (FAT_CACHE s1) \<longleftrightarrow> x \<in> free_set (FAT_CACHE s) \<and> x \<notin> set cs" for x
    using nz [of x] ch(3) [of x] a(4) unfolding free_set_def by (cases "x \<in> set cs") auto
  then have "free_set (FAT_CACHE s1) = free_set (FAT_CACHE s) - set cs" by blast
  then have card: "card (free_set (FAT_CACHE s1)) + ?n = card (free_set (FAT_CACHE s))"
    using a(3,4) room(2) ch(1) by (simp add: card_Diff_subset distinct_card)
  have "fat_inv s1 es css" using a(5-7) v by (simp add: fat_inv_def)
  then have rep: "represents s1 m" using a(7) [OF v(3)] m unfolding represents_def by metis
  have "list_ex (has_name name) es" using find_some [OF v(2,3,4), of name old] assms(5) m by metis
  moreover have "read_root_directory_unlocked s1 = Some (Inr es, s1)" using read_root_ok a(5,6) v(2) by blast
  moreover have "FAT_INITIALIZED ?s" using v(1) by (simp add: volume_def)
  ultimately have "fat12_create_file name bs s = Some (Inl ''File already exists'', s1\<lparr>FAT_LOCK := False\<rparr>)"
    unfolding fat12_create_file_def using a(1) assms(3)
    by (intro fat_lockedI [OF assms(2)]) (simp add: fs_bind_def fs_initialized_def fs_unless_def fs_ok_def fs_err_def)
  then show ?thesis using rep card by (intro exI [of _ "s1\<lparr>FAT_LOCK := False\<rparr>"]) simp
qed

text \<open>A chain that reaches itself is read for ever.\<close>

lemma read_chain_cycle:
  assumes "drive_ok (ide_of s) (FAT_DRIVE s)" "valid_cluster c" "get_fat_entry (FAT_CACHE s) c = Some c"
  shows "read_chain s c bs = None"
proof -
  have c: "\<not> FAT12_EOF \<le> c" "\<not> (c < 2 \<or> FAT12_BAD_CLUSTER \<le> c)"
    using assms(2) by (auto simp: valid_cluster_def FAT12_EOF_def FAT12_BAD_CLUSTER_def word_le_nat_alt word_less_nat_alt)
  have rd: "read_cluster_data c s = Some (Inr (cluster_bytes s c))"
    by (simp add: read_cluster_data_def read_cluster_ok assms(1,2))
  have "\<not> (s = s \<and> c = c)" if "read_chain s c bs = Some y" for y
  proof (rule read_chain.raw_induct [where P = "\<lambda>s' c' _ _. \<not> (s' = s \<and> c' = c)", OF _ that])
    fix rc s' c' bs' y
    assume "\<And>s' c' bs' y. rc s' c' bs' = Some y \<Longrightarrow> \<not> (s' = s \<and> c' = c)"
      and "(if c' < 2 \<or> FAT12_BAD_CLUSTER \<le> c' then Some (Inr bs')
        else do {
          r \<leftarrow> read_cluster_data c' s';
          if isl r then Some (Inl (projl r))
          else do {
            nx \<leftarrow> get_fat_entry (FAT_CACHE s') c';
            if FAT12_EOF \<le> nx then Some (Inr (bs' @ projr r)) else rc s' nx (bs' @ projr r) } }) = Some y"
    then show "\<not> (s' = s \<and> c' = c)" using c rd assms(3) by (auto, blast)
  qed
  then show ?thesis by (cases "read_chain s c bs") auto
qed

lemma append_file_ok:
  assumes "represents s m" "\<not> FAT_LOCK s" "m (name_key name) = Some old" "fat_room s (old @ bs)"
  shows "\<exists>s'. fat12_append_file name bs s = Some (Inr (), s') \<and> represents s' (m(name_key name \<mapsto> old @ bs)) \<and> synced s' \<and> \<not> FAT_LOCK s'"
  using read_file_ok [OF assms(1,2), of name] write_file_ok [OF assms(1,2) _ assms(3), of "old @ bs"] assms(3,4)
  by (simp add: fat12_append_file_def fs_bind_def fat_room_def)

lemma map_of_rekey:
  assumes "distinct (map fst (xs @ (k, v) # ys))" "map_of (xs @ (k, v) # ys) k' = None"
  shows "map_of (xs @ (k', v) # ys) = ((map_of (xs @ (k, v) # ys))(k := None))(k' \<mapsto> v)"
proof -
  have "map_of xs k = None" "map_of ys k = None" using assms(1) by (simp_all add: map_of_eq_None_iff)
  moreover have "map_of xs k' = None" "map_of ys k' = None" "k \<noteq> k'"
    using assms(2) by (auto simp: map_add_def split: option.splits if_splits)
  ultimately show ?thesis by (auto simp: fun_eq_iff map_add_def split: option.splits)
qed

lemma rename_file_ok:
  assumes "represents s m" "\<not> FAT_LOCK s" "m (name_key old) = Some bs" "m (name_key new) = None" "valid_name new"
  shows "\<exists>s'. fat12_rename_file old new s = Some (Inr (), s') \<and> represents s' (m(name_key old := None, name_key new \<mapsto> bs)) \<and> \<not> FAT_LOCK s'"
proof -
  obtain es css where inv: "fat_inv s es css" and m: "m = map_of (files s es css)" using assms(1) by (auto simp: represents_def)
  let ?s = "s\<lparr>FAT_LOCK := True\<rparr>"
  have v: "volume s" "root_entries s es" "list_all2 (holds s) es css" "distinct (map entry_key es)" "distinct (concat css)"
    using inv by (auto simp: fat_inv_def)
  obtain es1 e es2 css1 cs css2 where sp: "es = es1 @ e # es2" "css = css1 @ cs # css2" "length es1 = length css1" "holds s e cs"
    "list_all2 (holds s) es1 css1" "list_all2 (holds s) es2 css2" "entry_key e = name_key old" "bs = content s e cs"
    "find (has_name old) es = Some e" "find_index 0 old es = Some (length es1, e)" "list_ex (has_name old) es"
    by (rule find_some [OF v(2-4), of old bs]) (use assms(3) m in simp_all)
  have "is_visible e" using root_entriesD(3) [OF v(2)] sp(1) by simp
  then obtain e' where e': "set_name e new = Inr e'" "e' = e\<lparr>d_name := d_name e'\<rparr>" "length (d_name e') = 11" "\<not> entry_is_empty e'"
    "is_visible e'" "entry_key e' = name_key new"
    using set_name_finds [OF assms(5), of e] by (metis is_visible_def)
  have "d_first_cluster e' = d_first_cluster e" "d_file_size e' = d_file_size e" by (subst e'(2), simp)+
  then have same: "holds t e' = holds t e" "content t e' = content t e" for t by (simp_all add: fun_eq_iff holds_def content_def)
  have wf: "length (d_name x) = 11 \<and> \<not> entry_is_empty x" "is_visible x" if "x \<in> set (es1 @ e' # es2)" for x
    using that root_entriesD [OF v(2)] e'(3-5) sp(1) by auto
  have "length (es1 @ e' # es2) \<le> max_entries ?s" using root_entries_length [OF v(2)] sp(1) by simp
  then obtain d where d: "write_root_directory_unlocked (es1 @ e' # es2) ?s = Some (Inr (), ?s\<lparr>ide_of := d\<rparr>)"
    "volume (?s\<lparr>ide_of := d\<rparr>)" "root_entries (?s\<lparr>ide_of := d\<rparr>) (es1 @ e' # es2)" "cluster_bytes (?s\<lparr>ide_of := d\<rparr>) = cluster_bytes ?s"
    using write_root_ok [of ?s "es1 @ e' # es2"] wf v(1) by (metis filter_True lock_frame(1))
  let ?t = "?s\<lparr>ide_of := d\<rparr>"
  have "list_all2 (holds s) (es1 @ e' # es2) css" using sp(2-6) same by (simp add: list_all2_append)
  then have fr: "list_all2 (holds ?t) (es1 @ e' # es2) css \<and> files ?t (es1 @ e' # es2) css = files s (es1 @ e' # es2) css"
    using list_all2_frame [of s "es1 @ e' # es2" css ?t] d(4) by (simp add: geometry_defs)
  note dk = fat_inv_split(1) [OF inv [unfolded sp(1,2)] sp(3)]
  have new: "map_of (files s es1 css1 @ (entry_key e, content s e cs) # files s es2 css2) (name_key new) = None"
    using assms(4) m sp(1-3) files_split [of es1 css1 s e es2 cs css2] by simp
  have "entry_key e' \<notin> set (map entry_key es)"
    using assms(4) m e'(6) keys_of_files [OF list_all2_lengthD [OF v(3)], of s] by (metis map_of_eq_None_iff list.set_map)
  then have "fat_inv ?t (es1 @ e' # es2) css" using d(2,3) fr v(4,5) sp(1) by (auto simp: fat_inv_def)
  moreover have "map_of (files ?t (es1 @ e' # es2) css) = m(name_key old := None, name_key new \<mapsto> bs)"
    using fr m sp(1-3,7,8) map_of_rekey [OF dk new] e'(6) same by (simp add: files_split)
  ultimately have "represents ?t (m(name_key old := None, name_key new \<mapsto> bs))" unfolding represents_def by metis
  then have "represents (?t\<lparr>FAT_LOCK := False\<rparr>) (m(name_key old := None, name_key new \<mapsto> bs))" by (simp only: represents_lock)
  moreover have "read_root_directory_unlocked ?s = Some (Inr es, ?s)" "find_entry_with_index_unlocked old ?s = Some (Inr (length es1, e), ?s)"
    using read_root_ok [of ?s es] find_with_index_ok [of ?s es] v(1,2) sp(10) by simp_all
  then have "fat12_rename_file old new s = Some (Inr (), ?t\<lparr>FAT_LOCK := False\<rparr>)"
    unfolding fat12_rename_file_def
    using d(1) e'(1) v(1) find_none(3) [OF v(2) list_all2_lengthD [OF v(3)]] assms(4) m sp(1)
    by (intro fat_lockedI [OF assms(2)])
      (simp add: fs_bind_def fs_initialized_def fs_unless_def fs_ok_def fs_lift_def volume_def)
  moreover have "\<not> FAT_LOCK (?t\<lparr>FAT_LOCK := False\<rparr>)" by simp
  ultimately show ?thesis by blast
qed

section \<open>Correctness of the driver\<close>

text \<open>A formatted volume without files: one sector per cluster, one table of one sector, sixteen root entries.\<close>

definition blank_volume :: fat12 where
  "blank_volume = \<lparr>ide_of = \<lparr>sectors = (\<lambda>drive lba. replicate 512 0), read_fails = (\<lambda>drive lba. False), write_fails = (\<lambda>drive lba. False)\<rparr>,
     FAT_LOCK = False, FAT_INITIALIZED = True, FAT_DRIVE = 0,
     BPB = \<lparr>jmp_boot = [], oem_name = [], bytes_per_sector = 512, sectors_per_cluster = 1, reserved_sectors = 1, num_fats = 1,
       root_entry_count = 16, total_sectors_16 = 400, media_type = 0xF8, fat_size_16 = 1, sectors_per_track = 0, num_heads = 0,
       hidden_sectors = 0, total_sectors_32 = 0, drive_number = 0, reserved1 = 0, boot_signature = 0, volume_id = 0,
       volume_label = [], fs_type = []\<rparr>,
     FAT_START_SECTOR = 1, ROOT_DIR_START_SECTOR = 2, DATA_START_SECTOR = 3, ROOT_DIR_SECTORS = 1, FAT_CACHE = replicate 512 0\<rparr>"

lemma collect_zeros: "collect_entries (replicate 512 0) 0 (Suc n) = Some ([], True)"
  by (simp add: entry_of_bytes_def entry_is_empty_def slice_def DIR_ENTRY_END_def Let_def min_def)

lemma blank_volume_empty:
  "represents blank_volume Map.empty" "\<not> FAT_LOCK blank_volume" "root_room blank_volume"
  "cluster_size blank_volume = 512" "1 \<le> card (free_set (FAT_CACHE blank_volume))"
proof -
  have col: "collect_entries (root_bytes blank_volume) 0 (max_entries blank_volume) = Some ([], True)"
  proof -
    have "root_bytes blank_volume = replicate 512 0" "max_entries blank_volume = Suc 15"
      by (simp_all add: root_bytes_def region_def max_entries_def blank_volume_def)
    then show ?thesis by (simp only: collect_zeros)
  qed
  show "root_room blank_volume" using col by (simp add: root_room_def) (simp add: max_entries_def blank_volume_def)
  have "volume blank_volume"
    by (simp add: volume_def drive_ok_def geometry_defs blank_volume_def SECTOR_SIZE_def)
  then have "fat_inv blank_volume [] []" using col by (simp add: fat_inv_def root_entries_def)
  then show "represents blank_volume Map.empty" unfolding represents_def by (intro exI [of _ "[]"]) (simp add: files_def)
  show "\<not> FAT_LOCK blank_volume" "cluster_size blank_volume = 512"
    by (simp_all add: geometry_defs blank_volume_def SECTOR_SIZE_def)
  have "of_nat 2 \<in> set all_clusters" unfolding set_all_clusters by (rule imageI) simp
  then have "2 \<in> free_set (FAT_CACHE blank_volume)"
    by (simp add: free_set_def blank_volume_def get_fat_entry_def Let_def u16_le_def)
  then have "free_set (FAT_CACHE blank_volume) \<noteq> {}" by blast
  then show "1 \<le> card (free_set (FAT_CACHE blank_volume))"
    by (simp add: Suc_le_eq card_gt_0_iff free_set_def)
qed

lemma blank_volume_fresh:
  assumes "bs \<noteq> []" "length bs \<le> 512" "valid_name name"
  shows "fat_fresh blank_volume name bs"
proof -
  have "(length bs + 511) div 512 \<le> 1" using assms(2) by (simp add: div_le_mono [of _ "1023" 512, simplified])
  then show ?thesis using assms blank_volume_empty(3-5) by (simp add: fat_fresh_def fat_room_def)
qed

text \<open>
  C1. On a volume that represents a map from names to contents, \<open>fat12_create_file\<close> with a new valid name, and
  room for the clusters and for the entry, succeeds; the volume then represents the map with the new file, every copy
  of the table on the drive agrees with the cache, the lock is free and the file reads back as it was written.
\<close>

theorem create_file_refines:
  assumes "represents s m" "\<not> FAT_LOCK s" "m (name_key name) = None" "fat_fresh s name bs"
  shows "\<exists>s'. fat12_create_file name bs s = Some (Inr (), s') \<and> represents s' (m(name_key name \<mapsto> bs)) \<and> synced s'
    \<and> \<not> FAT_LOCK s' \<and> fat12_read_file name s' = Some (Inr bs, s')"
proof -
  obtain s' where s': "fat12_create_file name bs s = Some (Inr (), s')" "represents s' (m(name_key name \<mapsto> bs))" "synced s'" "\<not> FAT_LOCK s'"
    using create_file_ok [OF assms(1,2) _ _ _ assms(3)] assms(4) root_room_card [OF assms(1)]
    by (auto simp: fat_fresh_def fat_room_def)
  then show ?thesis using read_file_ok [OF s'(2,4), of name] by auto
qed

theorem create_file_refines_witness:
  "\<exists>s'. fat12_create_file [72, 105] [1, 2, 3] blank_volume = Some (Inr (), s')
    \<and> fat12_read_file [72, 105] s' = Some (Inr [1, 2, 3], s')"
proof -
  have "valid_name [72, 105]" by (simp add: valid_name_def)
  then have "fat_fresh blank_volume [72, 105] [1, 2, 3]" by (simp add: blank_volume_fresh)
  from create_file_refines [OF blank_volume_empty(1,2) _ this] show ?thesis by auto
qed

text \<open>
  C2. Overwriting an existing file replaces its contents in the map and frees the old chain for the new one;
  appending replaces them by the old contents followed by the new bytes; a name that does not exist is an error that
  changes nothing.
\<close>

theorem write_file_refines:
  assumes "represents s m" "\<not> FAT_LOCK s"
  shows "case m (name_key name) of
      None \<Rightarrow> fat12_write_file name bs s = Some (Inl ''File not found'', s) \<and> fat12_append_file name bs s = Some (Inl ''File not found'', s)
    | Some old \<Rightarrow>
        (fat_room s bs \<longrightarrow> (\<exists>s'. fat12_write_file name bs s = Some (Inr (), s')
           \<and> represents s' (m(name_key name \<mapsto> bs)) \<and> synced s' \<and> \<not> FAT_LOCK s'))
      \<and> (fat_room s (old @ bs) \<longrightarrow> (\<exists>s'. fat12_append_file name bs s = Some (Inr (), s')
           \<and> represents s' (m(name_key name \<mapsto> old @ bs)) \<and> synced s' \<and> \<not> FAT_LOCK s'))"
proof (cases "m (name_key name)")
  case None
  then show ?thesis
    using write_file_missing [OF assms] read_file_ok [OF assms, of name] by (simp add: fat12_append_file_def fs_bind_def)
next
  case (Some old)
  then show ?thesis using write_file_ok [OF assms _ Some] append_file_ok [OF assms Some] by (simp add: fat_room_def)
qed

theorem write_file_refines_witness:
  "fat12_write_file [65] [7] blank_volume = Some (Inl ''File not found'', blank_volume)
    \<and> (\<exists>s1 s2. fat12_create_file [65] [1] blank_volume = Some (Inr (), s1) \<and> fat12_write_file [97] [] s1 = Some (Inr (), s2)
        \<and> represents s2 [[97] \<mapsto> []])"
proof -
  have "fat_fresh blank_volume [65] [1]" by (rule blank_volume_fresh) (simp_all add: valid_name_def)
  then obtain s1 where s1: "fat12_create_file [65] [1] blank_volume = Some (Inr (), s1)" "represents s1 [[97] \<mapsto> [1]]" "\<not> FAT_LOCK s1"
    using fat.cr_law [of blank_volume Map.empty "[65]" "[1]"] blank_volume_empty(1,2)
    by (auto simp: fat_rep_def name_key_def to_ascii_lowercase_def)
  have "0 < cluster_size s1" using s1(2) by (auto simp: represents_def fat_inv_def volume_def cluster_size_def SECTOR_SIZE_def)
  then have "fat_room s1 []" by (simp add: fat_room_def)
  moreover have "name_key [97] = [97]" by (simp add: name_key_def to_ascii_lowercase_def)
  ultimately obtain s2 where "fat12_write_file [97] [] s1 = Some (Inr (), s2)" "represents s2 [[97] \<mapsto> []]"
    using write_file_refines [OF s1(2,3), of "[97]" "[]"] by auto
  then show ?thesis using s1(1) write_file_refines [OF blank_volume_empty(1,2), of "[65]" "[7]"] by auto
qed

text \<open>
  C3. Deleting a file removes it from the map and no other, after which its name is free; renaming moves the
  contents to a new valid name; deleting a name that does not exist is an error that changes nothing.
\<close>

theorem delete_file_refines:
  assumes "represents s m" "\<not> FAT_LOCK s"
  shows "case m (name_key name) of
      None \<Rightarrow> fat12_delete_file name s = Some (Inl ''File not found'', s)
    | Some bs \<Rightarrow>
        (\<exists>s'. fat12_delete_file name s = Some (Inr (), s') \<and> represents s' (m(name_key name := None)) \<and> synced s' \<and> \<not> FAT_LOCK s'
           \<and> fat12_file_exists name s' = Some (False, s'))
      \<and> (m (name_key new) = None \<longrightarrow> valid_name new \<longrightarrow> (\<exists>s'. fat12_rename_file name new s = Some (Inr (), s')
           \<and> represents s' (m(name_key name := None, name_key new \<mapsto> bs)) \<and> \<not> FAT_LOCK s'))"
proof (cases "m (name_key name)")
  case None
  then show ?thesis using delete_file_missing [OF assms] by simp
next
  case (Some bs)
  obtain s' where "fat12_delete_file name s = Some (Inr (), s')" "represents s' (m(name_key name := None))" "synced s'" "\<not> FAT_LOCK s'"
    using delete_file_ok [OF assms Some] by blast
  moreover from this have "fat12_file_exists name s' = Some (False, s')" using query_ok(1) [of s' _ name] by fastforce
  ultimately show ?thesis using rename_file_ok [OF assms Some] Some by auto
qed

theorem delete_file_refines_witness:
  "fat12_delete_file [65] blank_volume = Some (Inl ''File not found'', blank_volume)
    \<and> (\<exists>s1 s2. fat12_create_file [65] [1] blank_volume = Some (Inr (), s1) \<and> fat12_delete_file [97] s1 = Some (Inr (), s2)
        \<and> represents s2 Map.empty)"
proof -
  have "fat_fresh blank_volume [65] [1]" by (rule blank_volume_fresh) (simp_all add: valid_name_def)
  then obtain s1 where s1: "fat12_create_file [65] [1] blank_volume = Some (Inr (), s1)" "represents s1 [[97] \<mapsto> [1]]" "\<not> FAT_LOCK s1"
    using fat.cr_law [of blank_volume Map.empty "[65]" "[1]"] blank_volume_empty(1,2)
    by (auto simp: fat_rep_def name_key_def to_ascii_lowercase_def)
  have "name_key [97] = [97]" by (simp add: name_key_def to_ascii_lowercase_def)
  then obtain s2 where "fat12_delete_file [97] s1 = Some (Inr (), s2)" "represents s2 Map.empty"
    using delete_file_refines [OF s1(2,3), of "[97]"] by auto
  then show ?thesis using s1(1) delete_file_refines [OF blank_volume_empty(1,2), of "[65]"] by auto
qed

text \<open>The blank volume with the file \<open>A\<close> of one byte in cluster 2.\<close>

definition one_entry :: directory_entry where
  "one_entry = (blank_entry ATTR_ARCHIVE 2 1)\<lparr>d_name := [65, 32, 32, 32, 32, 32, 32, 32, 32, 32, 32]\<rparr>"

definition one_file :: fat12 where
  "one_file = blank_volume\<lparr>ide_of := (ide_of blank_volume)\<lparr>sectors := (\<lambda>drive lba.
       if lba = 2 then bytes_of_entry one_entry @ replicate 480 0 else if lba = 3 then 1 # replicate 511 0 else replicate 512 0)\<rparr>,
     FAT_CACHE := (replicate 512 0)[3 := 0xF8, 4 := 0x0F]\<rparr>"

lemma one_file_represents:
  "represents one_file [[97] \<mapsto> [1]]" "\<not> FAT_LOCK one_file" "cluster_size one_file = 512" "fat_room one_file [2]"
proof -
  have key: "entry_key one_entry = [97]" "is_visible one_entry" "length (d_name one_entry) = 11 \<and> \<not> entry_is_empty one_entry"
    by (simp_all add: one_entry_def entry_key_def get_name_def entry_is_empty_def is_deleted_def is_lfn_def is_volume_id_def is_visible_def
        blank_entry_def ATTR_ARCHIVE_def ATTR_LFN_def ATTR_VOLUME_ID_def DIR_ENTRY_END_def DIR_ENTRY_DELETED_def slice_def
        char_utf8_def name_key_def to_ascii_lowercase_def)
  have rb: "place_entries 512 [one_entry] = Some (root_bytes one_file)"
    by (simp add: place_entries_def root_bytes_def region_def one_file_def blank_volume_def)
  have "root_entries one_file [one_entry]"
    using collect_placed [OF rb, of 0 16] key(2,3) by (auto simp: root_entries_def max_entries_def one_file_def blank_volume_def)
  moreover have "volume one_file"
    using bytes_of_entry_length [of one_entry] key(3)
    by (auto simp: volume_def drive_ok_def geometry_defs one_file_def blank_volume_def SECTOR_SIZE_def)
  moreover have "get_fat_entry (FAT_CACHE one_file) 2 = Some 0xFF8"
    by (simp add: get_fat_entry_def one_file_def Let_def u16_le_def)
  then have hold: "holds one_file one_entry [2]"
    by (simp add: holds_def valid_cluster_def FAT12_BAD_CLUSTER_def FAT12_EOF_def one_entry_def blank_entry_def geometry_defs
        one_file_def blank_volume_def SECTOR_SIZE_def)
  ultimately have "fat_inv one_file [one_entry] [[2]]" by (simp add: fat_inv_def)
  moreover have "files one_file [one_entry] [[2]] = [([97], [1])]"
    using key(1) by (simp add: files_def content_def cluster_bytes_def region_def geometry_defs one_file_def blank_volume_def
        one_entry_def blank_entry_def)
  ultimately show "represents one_file [[97] \<mapsto> [1]]" unfolding represents_def by (intro exI [of _ "[one_entry]"] exI [of _ "[[2]]"]) simp
  show "\<not> FAT_LOCK one_file" "cluster_size one_file = 512" by (simp_all add: geometry_defs one_file_def blank_volume_def SECTOR_SIZE_def)
  have "of_nat 4 \<in> set all_clusters" unfolding set_all_clusters by (rule imageI) simp
  then have "4 \<in> free_set (FAT_CACHE one_file)"
    by (simp add: free_set_def one_file_def get_fat_entry_def Let_def u16_le_def)
  then have "0 < card (free_set (FAT_CACHE one_file))" by (auto simp: card_gt_0_iff free_set_def)
  then show "fat_room one_file [2]" using \<open>cluster_size one_file = 512\<close> by (simp add: fat_room_def)
qed

theorem create_existing_leaks_witness:
  "\<exists>s'. fat12_create_file [65] [2] one_file = Some (Inl ''File already exists'', s') \<and> represents s' [[97] \<mapsto> [1]]
    \<and> card (free_set (FAT_CACHE s')) + 1 = card (free_set (FAT_CACHE one_file))"
proof -
  have "[[97] \<mapsto> [1]] (name_key [65]) = Some [1]" by (simp add: name_key_def to_ascii_lowercase_def)
  from create_existing_leaks [OF one_file_represents(1,2) _ one_file_represents(4) this]
  show ?thesis using one_file_represents(3) by (auto simp: fun_upd_def)
qed

text \<open>The boot sector on the drive is the one the volume was mounted with.\<close>

definition boot_matches :: "fat12 \<Rightarrow> bool" where
  "boot_matches s \<longleftrightarrow>
     (let boot = sectors (ide_of s) (FAT_DRIVE s) 0; b = BPB s in
      bpb_of_bytes boot = b \<and> boot ! 510 = 0x55 \<and> boot ! 511 = 0xAA \<and> bytes_per_sector b = 512 \<and> sectors_per_cluster b > 0
      \<and> FAT_START_SECTOR s = unat (reserved_sectors b)
      \<and> ROOT_DIR_SECTORS s = (unat (root_entry_count b) * 32 + 511) div 512
      \<and> ROOT_DIR_START_SECTOR s = FAT_START_SECTOR s + fat_copies s * fat_sectors s
      \<and> DATA_START_SECTOR s = ROOT_DIR_START_SECTOR s + ROOT_DIR_SECTORS s)"


text \<open>The blank volume with its boot sector.\<close>

definition boot_sector :: "byte list" where
  "boot_sector = (replicate 512 0)[12 := 2, 13 := 1, 14 := 1, 16 := 1, 17 := 16, 22 := 1, 510 := 0x55, 511 := 0xAA]"

definition boot_volume :: fat12 where
  "boot_volume = blank_volume\<lparr>ide_of := (ide_of blank_volume)\<lparr>sectors := (\<lambda>drive lba. if lba = 0 then boot_sector else replicate 512 0)\<rparr>,
     BPB := bpb_of_bytes boot_sector\<rparr>"


end
