(* ===== verification/Vfs.thy ===== *)
theory Vfs
  imports FatFiles
begin

text \<open>
  The virtual file system of the kernel: the drivers behind the \<open>FileSystem\<close> trait, the table of mounts, the table of open nodes
  and the operations on paths and on nodes. A trait object is a value of the datatype \<open>driver\<close>; the FAT12 driver has
  its state in the statics of the \<open>fat12\<close> crate.
\<close>

section \<open>Definitions\<close>

definition O_RDONLY :: "32 word" where "O_RDONLY = 0x0000"

definition O_WRONLY :: "32 word" where "O_WRONLY = 0x0001"

definition O_RDWR :: "32 word" where "O_RDWR = 0x0002"

definition O_CREAT :: "32 word" where "O_CREAT = 0x0040"

definition O_TRUNC :: "32 word" where "O_TRUNC = 0x0200"

definition O_APPEND :: "32 word" where "O_APPEND = 0x0400"

definition O_EXCL :: "32 word" where "O_EXCL = 0x0800"

definition S_IFREG :: "32 word" where "S_IFREG = 0x1A4"

definition STDIN_NODE_ID :: "32 word" where "STDIN_NODE_ID = 1"

definition STDOUT_NODE_ID :: "32 word" where "STDOUT_NODE_ID = 2"

definition STDERR_NODE_ID :: "32 word" where "STDERR_NODE_ID = 3"

record fs_info =
  total_bytes :: "64 word"
  free_bytes :: "64 word"
  fs_tag :: string

record vfs_dir_entry =
  v_name :: str
  v_is_dir :: bool
  v_size :: "32 word"

datatype node_kind = File_Node | Dir_Node

record vfs_node =
  n_id :: "32 word"
  n_kind :: node_kind
  n_mount :: str
  n_name :: str
  n_size :: "32 word"
  n_cursor :: "32 word"
  n_flags :: "32 word"
  n_mode :: "32 word"

subsection \<open>The RAM file system\<close>

record ram_file =
  f_name :: str
  f_data :: "byte list"

definition ram_hit :: "str \<Rightarrow> ram_file \<Rightarrow> bool" where
  "ram_hit filename f = eq_ignore_ascii_case (f_name f) filename"

text \<open>\<open>iter_mut().find(..).map(..)\<close>: the first file of the name is changed.\<close>

fun ram_update :: "str \<Rightarrow> (ram_file \<Rightarrow> ram_file) \<Rightarrow> ram_file list \<Rightarrow> ram_file list option" where
  "ram_update filename g [] = None"
| "ram_update filename g (f # fs) =
     (if ram_hit filename f then Some (g f # fs) else map_option ((#) f) (ram_update filename g fs))"

type_synonym 'a ram_op = "ram_file list \<Rightarrow> (string + 'a) \<times> ram_file list"

definition ram_change :: "str \<Rightarrow> (ram_file \<Rightarrow> ram_file) \<Rightarrow> unit ram_op" where
  "ram_change filename g fs = (case ram_update filename g fs of None \<Rightarrow> (Inl ''File not found'', fs) | Some fs \<Rightarrow> (Inr (), fs))"

definition ram_read_file :: "str \<Rightarrow> byte list ram_op" where
  "ram_read_file filename fs =
     (case find (ram_hit filename) fs of None \<Rightarrow> Inl ''File not found'' | Some f \<Rightarrow> Inr (f_data f), fs)"

definition ram_create_file :: "str \<Rightarrow> byte list \<Rightarrow> unit ram_op" where
  "ram_create_file filename bs fs =
     (if list_ex (ram_hit filename) fs then (Inl ''File already exists'', fs)
      else (Inr (), fs @ [\<lparr>f_name = filename, f_data = bs\<rparr>]))"

definition ram_write_file :: "str \<Rightarrow> byte list \<Rightarrow> unit ram_op" where
  "ram_write_file filename bs = ram_change filename (\<lambda>f. f\<lparr>f_data := bs\<rparr>)"

definition ram_append_file :: "str \<Rightarrow> byte list \<Rightarrow> unit ram_op" where
  "ram_append_file filename bs = ram_change filename (\<lambda>f. f\<lparr>f_data := f_data f @ bs\<rparr>)"

definition ram_delete_file :: "str \<Rightarrow> unit ram_op" where
  "ram_delete_file filename fs =
     (let fs' = filter (\<lambda>f. \<not> ram_hit filename f) fs
      in (if length fs' = length fs then Inl ''File not found'' else Inr (), fs'))"

definition ram_rename_file :: "str \<Rightarrow> str \<Rightarrow> unit ram_op" where
  "ram_rename_file old_name new_name fs =
     (if list_ex (ram_hit new_name) fs then (Inl ''Destination filename already exists'', fs)
      else ram_change old_name (\<lambda>f. f\<lparr>f_name := new_name\<rparr>) fs)"

definition ram_file_exists :: "str \<Rightarrow> ram_file list \<Rightarrow> bool" where
  "ram_file_exists filename fs = list_ex (ram_hit filename) fs"

definition ram_get_file_size :: "str \<Rightarrow> ram_file list \<Rightarrow> 32 word option" where
  "ram_get_file_size filename fs = map_option (\<lambda>f. of_nat (length (f_data f))) (find (ram_hit filename) fs)"

definition ram_list_dir :: "ram_file list \<Rightarrow> vfs_dir_entry list" where
  "ram_list_dir fs = map (\<lambda>f. \<lparr>v_name = f_name f, v_is_dir = False, v_size = of_nat (length (f_data f))\<rparr>) fs"

definition ram_stat_fs :: "ram_file list \<Rightarrow> fs_info" where
  "ram_stat_fs fs = \<lparr>total_bytes = - 1, free_bytes = - 1 - of_nat (sum_list (map (\<lambda>f. length (f_data f)) fs)), fs_tag = ''RAMFS''\<rparr>"

subsection \<open>Drivers\<close>

datatype driver = Fat12Driver nat | RamFs "ram_file list"

type_synonym 'a drv = "driver \<times> fat12 \<Rightarrow> ((string + 'a) \<times> (driver \<times> fat12)) option"

text \<open>Which implementation of the trait runs.\<close>

definition dispatch :: "'a fs \<Rightarrow> 'a ram_op \<Rightarrow> 'a drv" where
  "dispatch on_fat on_ram df =
     (case fst df of
        Fat12Driver n \<Rightarrow> map_option (\<lambda>(r, s). (r, Fat12Driver n, s)) (on_fat (snd df))
      | RamFs fs \<Rightarrow> (case on_ram fs of (r, fs) \<Rightarrow> Some (r, RamFs fs, snd df)))"

definition dispatch_query :: "(fat12 \<Rightarrow> ('a \<times> fat12) option) \<Rightarrow> (ram_file list \<Rightarrow> 'a) \<Rightarrow> driver \<times> fat12 \<Rightarrow> ('a \<times> driver \<times> fat12) option" where
  "dispatch_query on_fat on_ram df =
     (case fst df of
        Fat12Driver n \<Rightarrow> map_option (\<lambda>(r, s). (r, Fat12Driver n, s)) (on_fat (snd df))
      | RamFs fs \<Rightarrow> Some (on_ram fs, RamFs fs, snd df))"

definition drv_read_file :: "str \<Rightarrow> byte list drv" where
  "drv_read_file filename = dispatch (fat12_read_file filename) (ram_read_file filename)"

definition drv_create_file :: "str \<Rightarrow> byte list \<Rightarrow> unit drv" where
  "drv_create_file filename bs = dispatch (fat12_create_file filename bs) (ram_create_file filename bs)"

definition drv_write_file :: "str \<Rightarrow> byte list \<Rightarrow> unit drv" where
  "drv_write_file filename bs = dispatch (fat12_write_file filename bs) (ram_write_file filename bs)"

definition drv_append_file :: "str \<Rightarrow> byte list \<Rightarrow> unit drv" where
  "drv_append_file filename bs = dispatch (fat12_append_file filename bs) (ram_append_file filename bs)"

definition drv_delete_file :: "str \<Rightarrow> unit drv" where
  "drv_delete_file filename = dispatch (fat12_delete_file filename) (ram_delete_file filename)"

definition drv_rename_file :: "str \<Rightarrow> str \<Rightarrow> unit drv" where
  "drv_rename_file old_name new_name = dispatch (fat12_rename_file old_name new_name) (ram_rename_file old_name new_name)"

definition drv_file_exists :: "str \<Rightarrow> driver \<times> fat12 \<Rightarrow> (bool \<times> driver \<times> fat12) option" where
  "drv_file_exists filename = dispatch_query (fat12_file_exists filename) (ram_file_exists filename)"

definition drv_get_file_size :: "str \<Rightarrow> driver \<times> fat12 \<Rightarrow> (32 word option \<times> driver \<times> fat12) option" where
  "drv_get_file_size filename = dispatch_query (fat12_get_file_size filename) (ram_get_file_size filename)"

definition fat12_list_dir :: "vfs_dir_entry list fs" where
  "fat12_list_dir = fs_bind fat12_list_entries (\<lambda>es. fs_ok (concat (map (\<lambda>e. case get_name e of
     Inl _ \<Rightarrow> [] | Inr name \<Rightarrow> [\<lparr>v_name = name, v_is_dir = is_directory e, v_size = d_file_size e\<rparr>]) es)))"

definition drv_list_dir :: "vfs_dir_entry list drv" where
  "drv_list_dir = dispatch fat12_list_dir (\<lambda>fs. (Inr (ram_list_dir fs), fs))"

definition drv_create_dir :: "str \<Rightarrow> unit drv" where
  "drv_create_dir dirname = dispatch (fat12_create_directory dirname) (\<lambda>fs. (Inl ''RamFs: subdirectories not supported'', fs))"

definition drv_delete_dir :: "str \<Rightarrow> unit drv" where
  "drv_delete_dir dirname = dispatch (fat12_delete_directory dirname) (\<lambda>fs. (Inl ''RamFs: subdirectories not supported'', fs))"

definition drv_stat_fs :: "fs_info drv" where
  "drv_stat_fs = dispatch
     (fs_bind fat12_stat (\<lambda>(total, free). fs_ok \<lparr>total_bytes = of_nat total, free_bytes = of_nat free, fs_tag = ''FAT12''\<rparr>))
     (\<lambda>fs. (Inr (ram_stat_fs fs), fs))"

subsection \<open>The tables\<close>

record mount_entry =
  m_point :: str
  m_fs :: driver

record vfs =
  FAT :: fat12
  VFS_LOCK :: bool
  MOUNT_TABLE :: "mount_entry list option"
  NODE_TABLE :: "vfs_node list option"
  NEXT_NODE_ID :: "32 word"

definition MAX_MOUNTS :: nat where "MAX_MOUNTS = 8"

definition MAX_NODES :: nat where "MAX_NODES = 64"

type_synonym 'a vop = "vfs \<Rightarrow> ((string + 'a) \<times> vfs) option"

definition v_ok :: "'a \<Rightarrow> 'a vop" where
  "v_ok x s = Some (Inr x, s)"

definition v_err :: "string \<Rightarrow> 'a vop" where
  "v_err e s = Some (Inl e, s)"

definition v_bind :: "'a vop \<Rightarrow> ('a \<Rightarrow> 'b vop) \<Rightarrow> 'b vop" where
  "v_bind m f s = (case m s of None \<Rightarrow> None | Some (Inl e, s) \<Rightarrow> Some (Inl e, s) | Some (Inr x, s) \<Rightarrow> f x s)"

definition vfs_locked :: "'a vop \<Rightarrow> 'a vop" where
  "vfs_locked m s =
     (if VFS_LOCK s then None
      else case m (s\<lparr>VFS_LOCK := True\<rparr>) of None \<Rightarrow> None | Some (r, s) \<Rightarrow> Some (r, s\<lparr>VFS_LOCK := False\<rparr>))"

text \<open>The position of the first element with a property.\<close>

fun index_of :: "('a \<Rightarrow> bool) \<Rightarrow> 'a list \<Rightarrow> nat option" where
  "index_of P [] = None"
| "index_of P (x # xs) = (if P x then Some 0 else map_option Suc (index_of P xs))"

text \<open>A reference to a mounted driver, or to an open node, is its index in the table.\<close>

definition get_fs :: "str \<Rightarrow> nat vop" where
  "get_fs mount_point s =
     (case MOUNT_TABLE s of
        None \<Rightarrow> v_err ''VFS not initialised'' s
      | Some ms \<Rightarrow> (case index_of (\<lambda>e. m_point e = mount_point) ms of
          None \<Rightarrow> v_err ''Mount point not found'' s | Some i \<Rightarrow> v_ok i s))"

definition get_node :: "32 word \<Rightarrow> nat vop" where
  "get_node id' s =
     (case NODE_TABLE s of
        None \<Rightarrow> v_err ''VFS not initialised'' s
      | Some ns \<Rightarrow> (case index_of (\<lambda>n. n_id n = id') ns of None \<Rightarrow> v_err ''Node not found'' s | Some i \<Rightarrow> v_ok i s))"

definition v_call :: "nat \<Rightarrow> 'a drv \<Rightarrow> 'a vop" where
  "v_call i op s = do {
     ms \<leftarrow> MOUNT_TABLE s;
     (r, d, f) \<leftarrow> op (m_fs (ms ! i), FAT s);
     Some (r, s\<lparr>FAT := f, MOUNT_TABLE := Some (ms[i := (ms ! i)\<lparr>m_fs := d\<rparr>])\<rparr>) }"

definition v_query :: "nat \<Rightarrow> (driver \<times> fat12 \<Rightarrow> ('a \<times> driver \<times> fat12) option) \<Rightarrow> 'a vop" where
  "v_query i q = v_call i (\<lambda>df. map_option (\<lambda>(r, df). (Inr r, df)) (q df))"

definition v_nodes :: "vfs_node list vop" where
  "v_nodes s = (case NODE_TABLE s of None \<Rightarrow> v_err ''VFS not initialised'' s | Some ns \<Rightarrow> v_ok ns s)"

definition v_set_node :: "nat \<Rightarrow> (vfs_node \<Rightarrow> vfs_node) \<Rightarrow> unit vop" where
  "v_set_node i g s = v_ok () (s\<lparr>NODE_TABLE := map_option (\<lambda>ns. ns[i := g (ns ! i)]) (NODE_TABLE s)\<rparr>)"

definition v_node :: "nat \<Rightarrow> vfs_node vop" where
  "v_node i = v_bind v_nodes (\<lambda>ns. v_ok (ns ! i))"

definition v_lift :: "'a option \<Rightarrow> 'a vop" where
  "v_lift r s = map_option (\<lambda>x. (Inr x, s)) r"

definition split_path :: "str \<Rightarrow> string + (str \<times> str)" where
  "split_path path =
     (case index_of (\<lambda>b. b = 47) path of
        None \<Rightarrow> Inl ''Invalid path: missing mount-point separator''
      | Some slash \<Rightarrow>
          let mount = take slash path; file = drop (slash + 1) path in
          if mount = [] \<or> file = [] then Inl ''Invalid path: empty mount-point or filename'' else Inr (mount, file))"

definition vfs_init :: "vfs \<Rightarrow> vfs option" where
  "vfs_init s = map_option snd (vfs_locked (\<lambda>s. v_ok () (s\<lparr>
     MOUNT_TABLE := (if MOUNT_TABLE s = None then Some [] else MOUNT_TABLE s),
     NODE_TABLE := (if NODE_TABLE s = None then Some [] else NODE_TABLE s)\<rparr>)) s)"

definition vfs_mount :: "str \<Rightarrow> driver \<Rightarrow> unit vop" where
  "vfs_mount mount_point fs = vfs_locked (\<lambda>s.
     case MOUNT_TABLE s of
       None \<Rightarrow> v_err ''VFS not initialised'' s
     | Some t \<Rightarrow>
         if list_ex (\<lambda>e. m_point e = mount_point) t then v_err ''Mount point already in use'' s
         else if length t \<ge> MAX_MOUNTS then v_err ''Mount table full'' s
         else v_ok () (s\<lparr>MOUNT_TABLE := Some (t @ [\<lparr>m_point = mount_point, m_fs = fs\<rparr>])\<rparr>))"

definition vfs_unmount :: "str \<Rightarrow> unit vop" where
  "vfs_unmount mount_point = vfs_locked (\<lambda>s.
     case MOUNT_TABLE s of
       None \<Rightarrow> v_err ''VFS not initialised'' s
     | Some t \<Rightarrow>
         let t' = filter (\<lambda>e. m_point e \<noteq> mount_point) t; s = s\<lparr>MOUNT_TABLE := Some t'\<rparr> in
         if length t' = length t then v_err ''Mount point not found'' s else v_ok () s)"

subsection \<open>Nodes\<close>

text \<open>\<open>fs.list_dir().unwrap_or_default()\<close>, and whether there is a directory of the name.\<close>

definition v_has_dir :: "nat \<Rightarrow> str \<Rightarrow> bool vop" where
  "v_has_dir i name s = map_option (\<lambda>(r, s).
     (Inr (case r of Inl _ \<Rightarrow> False | Inr es \<Rightarrow> list_ex (\<lambda>e. eq_ignore_ascii_case (v_name e) name \<and> v_is_dir e) es), s))
     (v_call i drv_list_dir s)"

definition v_kind_size :: "nat \<Rightarrow> str \<Rightarrow> (node_kind \<times> 32 word) vop" where
  "v_kind_size i name = v_bind (v_query i (drv_file_exists name)) (\<lambda>exists'.
     if exists' then v_bind (v_query i (drv_get_file_size name)) (\<lambda>sz. v_ok (File_Node, case sz of None \<Rightarrow> 0 | Some n \<Rightarrow> n))
     else v_bind (v_has_dir i name) (\<lambda>dir. if dir then v_ok (Dir_Node, 0) else v_err ''File not found''))"

definition v_push_node :: "node_kind \<Rightarrow> str \<Rightarrow> str \<Rightarrow> 32 word \<Rightarrow> 32 word \<Rightarrow> 32 word \<Rightarrow> vfs_node vop" where
  "v_push_node kind mount name size' flags mode s =
     (let cursor = (if flags AND O_APPEND \<noteq> 0 then size' else 0);
          node = \<lparr>n_id = NEXT_NODE_ID s, n_kind = kind, n_mount = mount, n_name = name, n_size = size', n_cursor = cursor,
                   n_flags = flags, n_mode = mode\<rparr>
      in v_ok node (s\<lparr>NEXT_NODE_ID := NEXT_NODE_ID s + 1, NODE_TABLE := map_option (\<lambda>ns. ns @ [node]) (NODE_TABLE s)\<rparr>))"

text \<open>The part of \<open>vfs_open\<close> after the check for room in the node table.\<close>

definition v_open_in :: "str \<Rightarrow> str \<Rightarrow> 32 word \<Rightarrow> 32 word \<Rightarrow> vfs_node vop" where
  "v_open_in mount name flags mode =
     v_bind (get_fs mount) (\<lambda>i.
     v_bind (v_query i (drv_file_exists name)) (\<lambda>file_exists.
     if flags AND O_CREAT \<noteq> 0 \<and> flags AND O_EXCL \<noteq> 0 \<and> file_exists then v_err ''File already exists'' else
     v_bind (if flags AND O_CREAT \<noteq> 0 \<and> \<not> file_exists then v_call i (drv_create_file name []) else v_ok ()) (\<lambda>_.
     v_bind (if flags AND O_TRUNC \<noteq> 0 \<and> file_exists then v_call i (drv_write_file name []) else v_ok ()) (\<lambda>_.
     v_bind (v_kind_size i name) (\<lambda>(kind, size').
     v_push_node kind mount name size' flags mode)))))"

definition vfs_open :: "str \<Rightarrow> 32 word \<Rightarrow> 32 word \<Rightarrow> vfs_node vop" where
  "vfs_open path flags mode =
     (case split_path path of
        Inl e \<Rightarrow> v_err e
      | Inr (mount, name) \<Rightarrow> vfs_locked (v_bind v_nodes (\<lambda>ns.
          if length ns \<ge> MAX_NODES then v_err ''Node table full'' else v_open_in mount name flags mode)))"

definition vfs_close :: "32 word \<Rightarrow> unit vop" where
  "vfs_close node_id = vfs_locked (\<lambda>s.
     case NODE_TABLE s of
       None \<Rightarrow> v_err ''VFS not initialised'' s
     | Some ns \<Rightarrow>
         let ns' = filter (\<lambda>n. n_id n \<noteq> node_id) ns; s = s\<lparr>NODE_TABLE := Some ns'\<rparr> in
         if length ns' = length ns then v_err ''Node not found'' s else v_ok () s)"

definition vfs_node_stat :: "32 word \<Rightarrow> vfs_node vop" where
  "vfs_node_stat node_id = vfs_locked (v_bind (get_node node_id) v_node)"

definition vfs_seek :: "32 word \<Rightarrow> 32 word \<Rightarrow> unit vop" where
  "vfs_seek node_id offset = vfs_locked (v_bind (get_node node_id) (\<lambda>i.
     v_set_node i (\<lambda>n. n\<lparr>n_cursor := min offset (n_size n)\<rparr>)))"

definition vfs_list_nodes :: "vfs_node list vop" where
  "vfs_list_nodes = vfs_locked (\<lambda>s. v_ok (case NODE_TABLE s of None \<Rightarrow> [] | Some ns \<Rightarrow> ns) s)"

text \<open>The access mode of a node.\<close>

definition access :: "vfs_node \<Rightarrow> 32 word" where
  "access n = n_flags n AND 3"

text \<open>An addition that overflows panics.\<close>

definition add32 :: "32 word \<Rightarrow> 32 word \<Rightarrow> 32 word option" where
  "add32 a b = (if unat a + unat b < 2 ^ 32 then Some (a + b) else None)"

definition vfs_read :: "32 word \<Rightarrow> nat \<Rightarrow> byte list vop" where
  "vfs_read node_id max_count = vfs_locked (
     v_bind (get_node node_id) (\<lambda>j. v_bind (v_node j) (\<lambda>node.
     if n_kind node \<noteq> File_Node then v_err ''Node is not a file''
     else if access node = O_WRONLY then v_err ''Node not open for reading''
     else v_bind (get_fs (n_mount node)) (\<lambda>i.
     v_bind (v_call i (drv_read_file (n_name node))) (\<lambda>bs.
       let start = unat (n_cursor node);
           count = min (length bs - start) max_count;
           sl = (if count > 0 then slice start count bs else []) in
       v_bind (v_lift (add32 (n_cursor node) (of_nat count))) (\<lambda>cursor.
       v_bind (v_set_node j (\<lambda>n. n\<lparr>n_cursor := cursor\<rparr>)) (\<lambda>_. v_ok sl)))))))"

definition vfs_read_node :: "32 word \<Rightarrow> byte list vop" where
  "vfs_read_node node_id = vfs_read node_id (2 ^ 64 - 1)"

definition vfs_write_node :: "32 word \<Rightarrow> byte list \<Rightarrow> unit vop" where
  "vfs_write_node node_id bs = vfs_locked (
     v_bind (get_node node_id) (\<lambda>j. v_bind (v_node j) (\<lambda>node.
     if n_kind node \<noteq> File_Node then v_err ''Node is not a file''
     else if access node = O_RDONLY then v_err ''Node not open for writing''
     else
       let append = (n_flags node AND O_APPEND \<noteq> 0);
           cursor = (if append then n_size node else n_cursor node) in
       v_bind (get_fs (n_mount node)) (\<lambda>i.
       v_bind (if cursor = 0 then v_call i (drv_write_file (n_name node) bs)
               else v_bind (v_call i (drv_read_file (n_name node))) (\<lambda>existing.
                 v_call i (drv_write_file (n_name node) (splice (unat cursor) bs existing)))) (\<lambda>_.
       v_bind (get_node node_id) (\<lambda>j. v_bind (v_node j) (\<lambda>node.
       v_bind (v_query i (drv_get_file_size (n_name node))) (\<lambda>sz.
       let size' = (case sz of None \<Rightarrow> n_size node | Some n \<Rightarrow> n) in
       v_bind (if append then v_ok size' else v_lift (add32 (n_cursor node) (of_nat (length bs)))) (\<lambda>cursor.
       v_set_node j (\<lambda>n. n\<lparr>n_size := size', n_cursor := cursor\<rparr>))))))))))"

subsection \<open>Paths\<close>

text \<open>
  \<open>vfs_lock(); let result = get_fs(mount)?.op(file); vfs_unlock(); result\<close>: the question mark returns before the lock is released.
\<close>

definition fs_call :: "str \<Rightarrow> 'a drv \<Rightarrow> 'a vop" where
  "fs_call mount op s =
     (if VFS_LOCK s then None
      else case get_fs mount (s\<lparr>VFS_LOCK := True\<rparr>) of
          None \<Rightarrow> None
        | Some (Inl e, s) \<Rightarrow> Some (Inl e, s)
        | Some (Inr i, s) \<Rightarrow>
            (case v_call i op s of None \<Rightarrow> None | Some (r, s) \<Rightarrow> Some (r, s\<lparr>VFS_LOCK := False\<rparr>)))"

definition path_call :: "str \<Rightarrow> (str \<Rightarrow> 'a drv) \<Rightarrow> 'a vop" where
  "path_call path op = (case split_path path of Inl e \<Rightarrow> v_err e | Inr (mount, file) \<Rightarrow> fs_call mount (op file))"

definition vfs_read_file :: "str \<Rightarrow> byte list vop" where
  "vfs_read_file path = path_call path drv_read_file"

definition vfs_create_file :: "str \<Rightarrow> byte list \<Rightarrow> unit vop" where
  "vfs_create_file path bs = path_call path (\<lambda>file. drv_create_file file bs)"

definition vfs_write_file :: "str \<Rightarrow> byte list \<Rightarrow> unit vop" where
  "vfs_write_file path bs = path_call path (\<lambda>file. drv_write_file file bs)"

definition vfs_append_file :: "str \<Rightarrow> byte list \<Rightarrow> unit vop" where
  "vfs_append_file path bs = path_call path (\<lambda>file. drv_append_file file bs)"

definition vfs_delete_file :: "str \<Rightarrow> unit vop" where
  "vfs_delete_file path = path_call path drv_delete_file"

definition vfs_rename_file :: "str \<Rightarrow> str \<Rightarrow> unit vop" where
  "vfs_rename_file old_path new_path =
     (case split_path old_path of
        Inl e \<Rightarrow> v_err e
      | Inr (old_mount, old_file) \<Rightarrow> (case split_path new_path of
          Inl e \<Rightarrow> v_err e
        | Inr (new_mount, new_f) \<Rightarrow>
            if old_mount \<noteq> new_mount then v_err ''Cross-mount rename not supported''
            else fs_call old_mount (drv_rename_file old_file new_f)))"

definition vfs_file_exists :: "str \<Rightarrow> vfs \<Rightarrow> (bool \<times> vfs) option" where
  "vfs_file_exists path s =
     (case split_path path of
        Inl _ \<Rightarrow> Some (False, s)
      | Inr (mount, file) \<Rightarrow>
          map_option (\<lambda>(r, s). (case r of Inl _ \<Rightarrow> False | Inr b \<Rightarrow> b, s))
            (vfs_locked (v_bind (get_fs mount) (\<lambda>i. v_query i (drv_file_exists file))) s))"

definition vfs_get_file_size :: "str \<Rightarrow> vfs \<Rightarrow> (32 word option \<times> vfs) option" where
  "vfs_get_file_size path s =
     map_option (\<lambda>(r, s). (case r of Inl _ \<Rightarrow> None | Inr sz \<Rightarrow> sz, s))
       (path_call path (\<lambda>file df. map_option (\<lambda>(r, df). (Inr r, df)) (drv_get_file_size file df)) s)"

definition vfs_list_dir :: "str \<Rightarrow> vfs_dir_entry list vop" where
  "vfs_list_dir mount_point = fs_call mount_point drv_list_dir"

definition vfs_create_dir :: "str \<Rightarrow> unit vop" where
  "vfs_create_dir path = path_call path drv_create_dir"

definition vfs_delete_dir :: "str \<Rightarrow> unit vop" where
  "vfs_delete_dir path = path_call path drv_delete_dir"

definition vfs_stat :: "str \<Rightarrow> fs_info vop" where
  "vfs_stat mount_point = fs_call mount_point drv_stat_fs"

fun v_tags :: "nat list \<Rightarrow> (str \<times> string) list vop" where
  "v_tags [] = v_ok []"
| "v_tags (i # is) = v_bind (v_call i drv_stat_fs) (\<lambda>info s.
     v_bind (v_tags is) (\<lambda>r. v_ok ((m_point (the (MOUNT_TABLE s) ! i), fs_tag info) # r)) s)"

definition vfs_list_mounts :: "(str \<times> string) list vop" where
  "vfs_list_mounts = vfs_locked (\<lambda>s. case MOUNT_TABLE s of None \<Rightarrow> v_ok [] s | Some ms \<Rightarrow> v_tags [0..<length ms] s)"

subsection \<open>Specification\<close>

text \<open>What the drivers represent, and what they need to store bytes.\<close>

definition ram_files :: "ram_file list \<Rightarrow> (str \<times> byte list) list" where
  "ram_files fs = map (\<lambda>f. (name_key (f_name f), f_data f)) fs"

definition ram_rep :: "ram_file list \<Rightarrow> (str \<rightharpoonup> byte list) \<Rightarrow> bool" where
  "ram_rep fs m \<longleftrightarrow> distinct (map fst (ram_files fs)) \<and> m = map_of (ram_files fs)"

definition drv_rep :: "driver \<times> fat12 \<Rightarrow> (str \<rightharpoonup> byte list) \<Rightarrow> bool" where
  "drv_rep df m = (case fst df of Fat12Driver _ \<Rightarrow> fat_rep (snd df) m | RamFs fs \<Rightarrow> ram_rep fs m)"

definition drv_room :: "driver \<times> fat12 \<Rightarrow> byte list \<Rightarrow> bool" where
  "drv_room df bs = (case fst df of Fat12Driver _ \<Rightarrow> fat_room (snd df) bs | RamFs _ \<Rightarrow> True)"

definition drv_fresh :: "driver \<times> fat12 \<Rightarrow> str \<Rightarrow> byte list \<Rightarrow> bool" where
  "drv_fresh df name bs = (case fst df of Fat12Driver _ \<Rightarrow> fat_fresh (snd df) name bs | RamFs _ \<Rightarrow> True)"

text \<open>The shape of the tables.\<close>

definition vfs_inv :: "vfs \<Rightarrow> bool" where
  "vfs_inv s \<longleftrightarrow> 4 \<le> NEXT_NODE_ID s
     \<and> (\<forall>ms. MOUNT_TABLE s = Some ms \<longrightarrow> length ms \<le> MAX_MOUNTS \<and> distinct (map m_point ms))
     \<and> (\<forall>ns. NODE_TABLE s = Some ns \<longrightarrow> length ns \<le> MAX_NODES \<and> distinct (map n_id ns)
          \<and> (\<forall>k\<in>set (map n_id ns). 4 \<le> k \<and> k < NEXT_NODE_ID s))"

text \<open>An operation that keeps the invariant and allocates no node.\<close>

definition keeps :: "'a vop \<Rightarrow> bool" where
  "keeps m \<longleftrightarrow> (\<forall>s r s'. vfs_inv s \<longrightarrow> m s = Some (r, s') \<longrightarrow>
     vfs_inv s' \<and> NEXT_NODE_ID s' = NEXT_NODE_ID s \<and> map_option (map n_id) (NODE_TABLE s') = map_option (map n_id) (NODE_TABLE s)
     \<and> map_option (map m_point) (MOUNT_TABLE s') = map_option (map m_point) (MOUNT_TABLE s))"

section \<open>The RAM file system\<close>

lemma ram_hit_key: "ram_hit name f \<longleftrightarrow> name_key (f_name f) = name_key name"
  by (simp add: ram_hit_def eq_ignore_ascii_case_def name_key_def)

lemma ram_find: "map_of (ram_files fs) (name_key name) = map_option f_data (find (ram_hit name) fs)"
  by (induction fs) (auto simp: ram_files_def ram_hit_key)

lemma ram_any: "list_ex (ram_hit name) fs \<longleftrightarrow> map_of (ram_files fs) (name_key name) \<noteq> None"
  by (induction fs) (auto simp: ram_files_def ram_hit_key)

lemma ram_update_map:
  assumes "\<And>f. name_key (f_name (g f)) = name_key (f_name f)"
  shows "ram_update name g fs = None \<longleftrightarrow> map_of (ram_files fs) (name_key name) = None"
    "ram_update name g fs = Some fs' \<Longrightarrow> map fst (ram_files fs') = map fst (ram_files fs)"
    "ram_update name g fs = Some fs' \<Longrightarrow> find (ram_hit name) fs = Some f \<Longrightarrow>
      map_of (ram_files fs') = (map_of (ram_files fs))(name_key name \<mapsto> f_data (g f))"
proof -
  show "ram_update name g fs = None \<longleftrightarrow> map_of (ram_files fs) (name_key name) = None"
    by (induction fs) (auto simp: ram_files_def ram_hit_key)
  show "map fst (ram_files fs') = map fst (ram_files fs)" if "ram_update name g fs = Some fs'"
    using that by (induction fs arbitrary: fs') (auto simp: ram_files_def assms split: if_splits)
  show "map_of (ram_files fs') = (map_of (ram_files fs))(name_key name \<mapsto> f_data (g f))"
    if "ram_update name g fs = Some fs'" "find (ram_hit name) fs = Some f"
    using that
  proof (induction fs arbitrary: fs')
    case (Cons h fs)
    then show ?case by (cases "ram_hit name h") (auto simp: ram_files_def assms ram_hit_key)
  qed simp
qed

lemma ram_write_map:
  assumes "ram_rep fs m" "m (name_key name) = Some old"
  shows "\<exists>fs'. ram_write_file name bs fs = (Inr (), fs') \<and> ram_rep fs' (m(name_key name \<mapsto> bs))"
proof -
  let ?g = "\<lambda>f. f\<lparr>f_data := bs\<rparr>"
  have m: "m = map_of (ram_files fs)" "distinct (map fst (ram_files fs))" using assms(1) by (auto simp: ram_rep_def)
  note u = ram_update_map [of ?g name fs, simplified]
  obtain fs' where fs': "ram_update name ?g fs = Some fs'" using u(1) assms(2) m(1) by force
  obtain f where "find (ram_hit name) fs = Some f" using assms(2) m(1) ram_find [of fs name] by force
  then show ?thesis
    using u(2,3) [OF fs'] fs' m by (auto simp: ram_write_file_def ram_change_def ram_rep_def)
qed

lemma ram_delete_map:
  "map_of (ram_files (filter (\<lambda>f. \<not> ram_hit name f) fs)) = (map_of (ram_files fs))(name_key name := None)"
  "distinct (map fst (ram_files fs)) \<Longrightarrow> distinct (map fst (ram_files (filter P fs)))"
  by (induction fs) (auto simp: ram_files_def ram_hit_key fun_eq_iff)

interpretation ram: file_store ram_rep "\<lambda>_ _. True" "\<lambda>_ _ _. True" "\<lambda>name fs. Some (ram_read_file name fs)"
  "\<lambda>name bs fs. Some (ram_create_file name bs fs)" "\<lambda>name bs fs. Some (ram_write_file name bs fs)"
  "\<lambda>name fs. Some (ram_delete_file name fs)" "\<lambda>name fs. Some (ram_get_file_size name fs, fs)"
  "\<lambda>name fs. Some (ram_file_exists name fs, fs)"
proof
  fix fs m name bs old
  assume r: "ram_rep fs m"
  then have m: "m = map_of (ram_files fs)" "distinct (map fst (ram_files fs))" by (auto simp: ram_rep_def)
  show "Some (ram_read_file name fs) = Some (case m (name_key name) of None \<Rightarrow> Inl ''File not found'' | Some bs \<Rightarrow> Inr bs, fs)"
    using ram_find [of fs name] m(1) by (auto simp: ram_read_file_def split: option.splits)
  show "\<exists>s'. Some (ram_create_file name bs fs) = Some (Inr (), s') \<and> ram_rep s' (m(name_key name \<mapsto> bs))" if n: "m (name_key name) = None"
  proof -
    have "name_key name \<notin> fst ` set (ram_files fs)" using n m(1) by (simp add: map_of_eq_None_iff)
    moreover have "ram_files (fs @ [\<lparr>f_name = name, f_data = bs\<rparr>]) = ram_files fs @ [(name_key name, bs)]" by (simp add: ram_files_def)
    ultimately have "ram_rep (fs @ [\<lparr>f_name = name, f_data = bs\<rparr>]) (m(name_key name \<mapsto> bs))"
      using m n by (auto simp: ram_rep_def fun_eq_iff map_add_def split: option.splits)
    then show ?thesis using n m(1) ram_any by (simp add: ram_create_file_def)
  qed
  show "\<exists>s'. Some (ram_write_file name bs fs) = Some (Inr (), s') \<and> ram_rep s' (m(name_key name \<mapsto> bs))" if "m (name_key name) = Some old"
    using ram_write_map [OF r that] by simp
  show "Some (ram_write_file name bs fs) = Some (Inl ''File not found'', fs)" if "m (name_key name) = None"
    using ram_update_map(1) [of "\<lambda>f. f\<lparr>f_data := bs\<rparr>" name fs] that m(1) by (simp add: ram_write_file_def ram_change_def)
  have len: "length (filter (\<lambda>f. \<not> ram_hit name f) fs) = length fs \<longleftrightarrow> m (name_key name) = None"
    using ram_any [of name fs] m(1) by (metis (mono_tags, lifting) filter_True length_filter_less list_ex_iff nat_neq_iff)
  show "\<exists>s'. Some (ram_delete_file name fs) = Some (Inr (), s') \<and> ram_rep s' (m(name_key name := None))" if "m (name_key name) = Some old"
    using len that m ram_delete_map by (simp add: ram_delete_file_def ram_rep_def Let_def)
  show "Some (ram_delete_file name fs) = Some (Inl ''File not found'', fs)" if "m (name_key name) = None"
    using len that by (auto simp: ram_delete_file_def Let_def) (metis filter_id_conv length_filter_less nat_neq_iff)
  show "Some (ram_get_file_size name fs, fs) = Some (map_option (\<lambda>bs. of_nat (length bs)) (m (name_key name)), fs)"
    using ram_find [of fs name] m(1) by (simp add: ram_get_file_size_def option.map_comp o_def)
  show "Some (ram_file_exists name fs, fs) = Some (m (name_key name) \<noteq> None, fs)"
    using ram_any m(1) by (simp add: ram_file_exists_def)
qed

section \<open>Drivers\<close>

lemma dispatch_law:
  assumes "\<And>n. d = Fat12Driver n \<Longrightarrow> \<exists>f'. on_fat f = Some (Inr (), f') \<and> fat_rep f' m"
    "\<And>fs. d = RamFs fs \<Longrightarrow> \<exists>fs'. Some (on_ram fs) = Some (Inr (), fs') \<and> ram_rep fs' m"
  shows "\<exists>s'. dispatch on_fat on_ram (d, f) = Some (Inr (), s') \<and> drv_rep s' m"
proof (cases d)
  case (Fat12Driver n)
  then show ?thesis using assms(1) by (fastforce simp: dispatch_def drv_rep_def)
next
  case (RamFs fs)
  then obtain fs' where "on_ram fs = (Inr (), fs')" "ram_rep fs' m" using assms(2) by auto
  then show ?thesis using RamFs by (simp add: dispatch_def drv_rep_def)
qed

lemmas drv_ops = drv_read_file_def drv_create_file_def drv_write_file_def drv_delete_file_def drv_get_file_size_def drv_file_exists_def
  dispatch_def dispatch_query_def drv_rep_def drv_room_def drv_fresh_def

interpretation drv: file_store drv_rep drv_room drv_fresh drv_read_file drv_create_file drv_write_file drv_delete_file
  drv_get_file_size drv_file_exists
proof
  fix df :: "driver \<times> fat12" and m name bs old
  obtain d f where df: "df = (d, f)" by (cases df)
  assume r: "drv_rep df m"
  show "drv_read_file name df = Some (case m (name_key name) of None \<Rightarrow> Inl ''File not found'' | Some bs \<Rightarrow> Inr bs, df)"
    using r fat.rd_law [of f m name] ram.rd_law [of _ m name] by (cases d) (auto simp: df drv_ops)
  show "\<exists>s'. drv_create_file name bs df = Some (Inr (), s') \<and> drv_rep s' (m(name_key name \<mapsto> bs))"
    if "m (name_key name) = None" "drv_fresh df name bs"
    unfolding drv_create_file_def df
    by (rule dispatch_law; rule fat.cr_law ram.cr_law) (use r that in \<open>simp_all add: df drv_ops\<close>)
  show "\<exists>s'. drv_write_file name bs df = Some (Inr (), s') \<and> drv_rep s' (m(name_key name \<mapsto> bs))"
    if "m (name_key name) = Some old" "drv_room df bs"
    unfolding drv_write_file_def df
    by (rule dispatch_law; rule fat.wr_law ram.wr_law) (use r that in \<open>simp_all add: df drv_ops\<close>)
  show "drv_write_file name bs df = Some (Inl ''File not found'', df)" if "m (name_key name) = None"
    using r that fat.wr_none [of f m name bs] ram.wr_none [of _ m name bs] by (cases d) (auto simp: df drv_ops)
  show "\<exists>s'. drv_delete_file name df = Some (Inr (), s') \<and> drv_rep s' (m(name_key name := None))"
    if "m (name_key name) = Some old"
    unfolding drv_delete_file_def df
    by (rule dispatch_law; rule fat.del_law ram.del_law) (use r that in \<open>simp_all add: df drv_ops\<close>)
  show "drv_delete_file name df = Some (Inl ''File not found'', df)" if "m (name_key name) = None"
    using r that fat.del_none [of f m name] ram.del_none [of _ m name] by (cases d) (auto simp: df drv_ops)
  show "drv_get_file_size name df = Some (map_option (\<lambda>bs. of_nat (length bs)) (m (name_key name)), df)"
    using r fat.sz_law [of f m name] ram.sz_law [of _ m name] by (cases d) (auto simp: df drv_ops)
  show "drv_file_exists name df = Some (m (name_key name) \<noteq> None, df)"
    using r fat.ex_law [of f m name] ram.ex_law [of _ m name] by (cases d) (auto simp: df drv_ops)
qed

section \<open>The tables keep their shape\<close>

named_theorems keeps_intro

lemma keepsD:
  assumes "keeps m" "vfs_inv s" "m s = Some (r, s')"
  shows "vfs_inv s'" "NEXT_NODE_ID s' = NEXT_NODE_ID s" "map_option (map n_id) (NODE_TABLE s') = map_option (map n_id) (NODE_TABLE s)"
    "map_option (map m_point) (MOUNT_TABLE s') = map_option (map m_point) (MOUNT_TABLE s)"
  using assms unfolding keeps_def by blast+

lemma keeps_ok [keeps_intro]: "keeps (v_ok x)"
  by (simp add: keeps_def v_ok_def)

lemma keeps_err [keeps_intro]: "keeps (v_err e)"
  by (simp add: keeps_def v_err_def)

lemma keeps_bind [keeps_intro]:
  assumes "keeps m" "\<And>x. keeps (f x)"
  shows "keeps (v_bind m f)"
  unfolding keeps_def
proof (intro allI impI)
  fix s r s' assume inv: "vfs_inv s" and b: "v_bind m f s = Some (r, s')"
  obtain q t where q: "m s = Some (q, t)" using b by (auto simp: v_bind_def split: option.splits)
  note k = keepsD [OF assms(1) inv q]
  show "vfs_inv s' \<and> NEXT_NODE_ID s' = NEXT_NODE_ID s \<and> map_option (map n_id) (NODE_TABLE s') = map_option (map n_id) (NODE_TABLE s)
    \<and> map_option (map m_point) (MOUNT_TABLE s') = map_option (map m_point) (MOUNT_TABLE s)"
  proof (cases q)
    case (Inl e)
    then show ?thesis using b q k by (simp add: v_bind_def)
  next
    case (Inr x)
    then have "f x t = Some (r, s')" using b q by (simp add: v_bind_def)
    from keepsD [OF assms(2) k(1) this] show ?thesis using k by simp
  qed
qed

lemma keeps_if [keeps_intro]: "(b \<Longrightarrow> keeps m) \<Longrightarrow> (\<not> b \<Longrightarrow> keeps n) \<Longrightarrow> keeps (if b then m else n)"
  by simp

lemma vfs_inv_lock [simp]: "vfs_inv (s\<lparr>VFS_LOCK := b\<rparr>) = vfs_inv s"
  by (simp add: vfs_inv_def)

lemma vfs_lockedE:
  assumes "vfs_locked m s = Some (r, s')"
  obtains t where "\<not> VFS_LOCK s" "m (s\<lparr>VFS_LOCK := True\<rparr>) = Some (r, t)" "s' = t\<lparr>VFS_LOCK := False\<rparr>"
  using assms by (auto simp: vfs_locked_def split: if_splits option.splits)

lemma keeps_locked [keeps_intro]:
  assumes "keeps m"
  shows "keeps (vfs_locked m)"
  unfolding keeps_def
proof (intro allI impI)
  fix s r s' assume inv: "vfs_inv s" and l: "vfs_locked m s = Some (r, s')"
  obtain t where t: "m (s\<lparr>VFS_LOCK := True\<rparr>) = Some (r, t)" "s' = t\<lparr>VFS_LOCK := False\<rparr>" using vfs_lockedE [OF l] by blast
  have "vfs_inv (s\<lparr>VFS_LOCK := True\<rparr>)" using inv by simp
  from keepsD [OF assms this t(1)]
  show "vfs_inv s' \<and> NEXT_NODE_ID s' = NEXT_NODE_ID s \<and> map_option (map n_id) (NODE_TABLE s') = map_option (map n_id) (NODE_TABLE s)
    \<and> map_option (map m_point) (MOUNT_TABLE s') = map_option (map m_point) (MOUNT_TABLE s)"
    using t(2) by simp
qed

lemma map_update_same: "f y = f (xs ! i) \<Longrightarrow> map f (xs[i := y]) = map f xs"
  by (cases "i < length xs") (simp_all add: map_update list_update_same_conv list_update_beyond)

lemma keeps_call [keeps_intro]: "keeps (v_call i op)"
proof -
  have "map m_point (ms[i := (ms ! i)\<lparr>m_fs := d\<rparr>]) = map m_point ms" for ms d by (rule map_update_same) simp
  then show ?thesis by (auto simp: keeps_def v_call_def vfs_inv_def split: Option.bind_splits)
qed

lemma keeps_query [keeps_intro]: "keeps (v_query i q)"
  by (simp add: v_query_def keeps_call)

lemma keeps_get_fs [keeps_intro]: "keeps (get_fs mount)"
  by (auto simp: keeps_def get_fs_def v_ok_def v_err_def split: option.splits)

lemma keeps_get_node [keeps_intro]: "keeps (get_node k)"
  by (auto simp: keeps_def get_node_def v_ok_def v_err_def split: option.splits)

lemma keeps_nodes [keeps_intro]: "keeps v_nodes"
  by (auto simp: keeps_def v_nodes_def v_ok_def v_err_def split: option.splits)

lemma keeps_node [keeps_intro]: "keeps (v_node i)"
  unfolding v_node_def by (intro keeps_intro)

lemma keeps_lift [keeps_intro]: "keeps (v_lift r)"
  by (auto simp: keeps_def v_lift_def)

lemma keeps_set_node [keeps_intro]: "(\<And>n. n_id (g n) = n_id n) \<Longrightarrow> keeps (v_set_node i g)"
proof -
  assume g: "\<And>n. n_id (g n) = n_id n"
  have "map n_id (ns[i := g (ns ! i)]) = map n_id ns" for ns by (rule map_update_same) (rule g)
  then show ?thesis by (auto simp: keeps_def v_set_node_def v_ok_def vfs_inv_def option.map_comp o_def simp del: set_map)
qed

lemma keeps_has_dir [keeps_intro]: "keeps (v_has_dir i name)"
  using keeps_call [of i drv_list_dir] by (auto simp: keeps_def v_has_dir_def)

text \<open>Every sequence of calls of the interface from the state at boot.\<close>

inductive vfs_reach :: "vfs \<Rightarrow> bool" where
  boot: "MOUNT_TABLE s = None \<Longrightarrow> NODE_TABLE s = None \<Longrightarrow> NEXT_NODE_ID s = 4 \<Longrightarrow> vfs_reach s"
| init: "vfs_reach s \<Longrightarrow> vfs_init s = Some s' \<Longrightarrow> vfs_reach s'"
| mount: "vfs_reach s \<Longrightarrow> vfs_mount point d s = Some (r, s') \<Longrightarrow> vfs_reach s'"
| unmount: "vfs_reach s \<Longrightarrow> vfs_unmount point s = Some (r, s') \<Longrightarrow> vfs_reach s'"
| opens: "vfs_reach s \<Longrightarrow> NEXT_NODE_ID s \<noteq> - 1 \<Longrightarrow> vfs_open path flags mode s = Some (q, s') \<Longrightarrow> vfs_reach s'"
| close: "vfs_reach s \<Longrightarrow> vfs_close node_id s = Some (r, s') \<Longrightarrow> vfs_reach s'"
| seek: "vfs_reach s \<Longrightarrow> vfs_seek node_id pos s = Some (r, s') \<Longrightarrow> vfs_reach s'"
| reads: "vfs_reach s \<Longrightarrow> vfs_read node_id n s = Some (bs, s') \<Longrightarrow> vfs_reach s'"
| writes: "vfs_reach s \<Longrightarrow> vfs_write_node node_id data s = Some (r, s') \<Longrightarrow> vfs_reach s'"
| read_file: "vfs_reach s \<Longrightarrow> vfs_read_file path s = Some (bs, s') \<Longrightarrow> vfs_reach s'"
| write_file: "vfs_reach s \<Longrightarrow> vfs_write_file path data s = Some (r, s') \<Longrightarrow> vfs_reach s'"
| create_file: "vfs_reach s \<Longrightarrow> vfs_create_file path data s = Some (r, s') \<Longrightarrow> vfs_reach s'"
| append_file: "vfs_reach s \<Longrightarrow> vfs_append_file path data s = Some (r, s') \<Longrightarrow> vfs_reach s'"
| delete_file: "vfs_reach s \<Longrightarrow> vfs_delete_file path s = Some (r, s') \<Longrightarrow> vfs_reach s'"
| rename_file: "vfs_reach s \<Longrightarrow> vfs_rename_file path path' s = Some (r, s') \<Longrightarrow> vfs_reach s'"
| create_dir: "vfs_reach s \<Longrightarrow> vfs_create_dir path s = Some (r, s') \<Longrightarrow> vfs_reach s'"
| delete_dir: "vfs_reach s \<Longrightarrow> vfs_delete_dir path s = Some (r, s') \<Longrightarrow> vfs_reach s'"

lemma keeps_fs_call [keeps_intro]: "keeps (fs_call mount op)"
  unfolding keeps_def
proof (intro allI impI)
  fix s r s' assume inv: "vfs_inv s" and c: "fs_call mount op s = Some (r, s')"
  have inv': "vfs_inv (s\<lparr>VFS_LOCK := True\<rparr>)" using inv by simp
  obtain q t where q: "get_fs mount (s\<lparr>VFS_LOCK := True\<rparr>) = Some (q, t)" using c by (auto simp: fs_call_def split: if_splits option.splits)
  note k = keepsD [OF keeps_get_fs inv' q]
  show "vfs_inv s' \<and> NEXT_NODE_ID s' = NEXT_NODE_ID s \<and> map_option (map n_id) (NODE_TABLE s') = map_option (map n_id) (NODE_TABLE s)
    \<and> map_option (map m_point) (MOUNT_TABLE s') = map_option (map m_point) (MOUNT_TABLE s)"
  proof (cases q)
    case (Inl e)
    then show ?thesis using c q k by (auto simp: fs_call_def split: if_splits)
  next
    case (Inr i)
    then obtain u where u: "v_call i op t = Some (r, u)" "s' = u\<lparr>VFS_LOCK := False\<rparr>"
      using c q by (auto simp: fs_call_def split: if_splits option.splits)
    then show ?thesis using keepsD [OF keeps_call k(1) u(1)] k by simp
  qed
qed

lemma keeps_path_call [keeps_intro]: "keeps (path_call path op)"
  by (auto simp: path_call_def intro: keeps_intro split: sum.splits prod.splits)

lemma keeps_rename [keeps_intro]: "keeps (vfs_rename_file a b)"
  by (auto simp: vfs_rename_file_def intro: keeps_intro split: sum.splits prod.splits)

lemma keeps_read [keeps_intro]: "keeps (vfs_read k n)"
  unfolding vfs_read_def Let_def by (intro keeps_intro) simp

lemma keeps_write_node [keeps_intro]: "keeps (vfs_write_node k bs)"
  unfolding vfs_write_node_def Let_def by (intro keeps_intro) simp

lemma keeps_seek [keeps_intro]: "keeps (vfs_seek k n)"
  unfolding vfs_seek_def by (intro keeps_intro) simp

lemma keeps_kind_size [keeps_intro]: "keeps (v_kind_size i name)"
  unfolding v_kind_size_def by (intro keeps_intro)

lemma word32_less_succ: "x \<noteq> - 1 \<Longrightarrow> x < x + 1" for x :: "32 word"
proof -
  assume "x \<noteq> - 1"
  then have "unat x \<noteq> unat (- 1 :: 32 word)" by (simp add: word_unat_eq_iff)
  moreover have unat_less: "unat x < 2 ^ 32" by (rule order_less_le_trans [OF unsigned_less]) simp
  ultimately have "unat x + 1 < 2 ^ 32" using unat_less by (simp add: unsigned_minus_1_eq_mask mask_eq_exp_minus_1)
  then have "unat (x + 1) = unat x + 1" by (simp add: unat_word_ariths)
  then show "x < x + 1" by (simp add: word_less_nat_alt)
qed

text \<open>A step that may push a node when there is room for one: it does so exactly when it succeeds.\<close>

definition ids_of :: "vfs \<Rightarrow> 32 word list option" where
  "ids_of s = map_option (map n_id) (NODE_TABLE s)"

definition pushed :: "vfs \<Rightarrow> string + vfs_node \<Rightarrow> vfs \<Rightarrow> bool" where
  "pushed s r s' \<longleftrightarrow> vfs_inv s' \<and> (case r of
     Inl e \<Rightarrow> ids_of s' = ids_of s
   | Inr n \<Rightarrow> n_id n = NEXT_NODE_ID s \<and> ids_of s' = map_option (\<lambda>ks. ks @ [n_id n]) (ids_of s))"

definition pushes :: "vfs_node vop \<Rightarrow> bool" where
  "pushes m \<longleftrightarrow> (\<forall>s r s' ks. vfs_inv s \<longrightarrow> NEXT_NODE_ID s \<noteq> - 1 \<longrightarrow> ids_of s = Some ks \<longrightarrow> length ks < MAX_NODES \<longrightarrow>
     m s = Some (r, s') \<longrightarrow> pushed s r s')"

lemma pushes_err: "pushes (v_err e)"
  by (auto simp: pushes_def pushed_def v_err_def)

lemma pushes_if: "(b \<Longrightarrow> pushes m) \<Longrightarrow> (\<not> b \<Longrightarrow> pushes n) \<Longrightarrow> pushes (if b then m else n)"
  by simp

lemma pushes_bind:
  assumes "keeps m" "\<And>x. pushes (f x)"
  shows "pushes (v_bind m f)"
  unfolding pushes_def
proof (intro allI impI)
  fix s r s' ks
  assume s: "vfs_inv s" "NEXT_NODE_ID s \<noteq> - 1" "ids_of s = Some ks" "length ks < MAX_NODES"
    and b: "v_bind m f s = Some (r, s')"
  obtain q t where q: "m s = Some (q, t)" using b by (auto simp: v_bind_def split: option.splits)
  note k = keepsD [OF assms(1) s(1) q, folded ids_of_def]
  show "pushed s r s'"
  proof (cases q)
    case (Inl e)
    then show ?thesis using b q k by (auto simp: v_bind_def pushed_def)
  next
    case (Inr x)
    then have "f x t = Some (r, s')" using b q by (simp add: v_bind_def)
    then have "pushed t r s'" using assms(2) [of x, unfolded pushes_def] k s by simp
    then show ?thesis using k by (simp add: pushed_def split: sum.splits)
  qed
qed

lemma pushes_push: "pushes (v_push_node kind mount name size' flags mode)"
  unfolding pushes_def
proof (intro allI impI)
  fix s r s' ks
  assume s: "vfs_inv s" "NEXT_NODE_ID s \<noteq> - 1" "ids_of s = Some ks" "length ks < MAX_NODES"
    "v_push_node kind mount name size' flags mode s = Some (r, s')"
  obtain ns where ns: "NODE_TABLE s = Some ns" "length ns < MAX_NODES" using s(3,4) by (auto simp: ids_of_def)
  note up = word32_less_succ [OF s(2)]
  have old: "4 \<le> k \<and> k < NEXT_NODE_ID s" if "k \<in> set (map n_id ns)" for k using s(1) ns(1) that by (auto simp: vfs_inv_def)
  then have "4 \<le> k \<and> k < NEXT_NODE_ID s + 1" if "k \<in> set (map n_id ns)" for k using up that less_trans by blast
  moreover have "4 \<le> NEXT_NODE_ID s" using s(1) by (simp add: vfs_inv_def)
  moreover from this have "4 \<le> NEXT_NODE_ID s + 1" using up by (meson less_imp_le order_trans)
  moreover have "NEXT_NODE_ID s \<notin> set (map n_id ns)" using old by blast
  ultimately have "vfs_inv s'"
    using s(1,5) ns up by (auto simp: vfs_inv_def v_push_node_def v_ok_def Let_def simp del: set_map)
  then show "pushed s r s'" using s(5) by (auto simp: pushed_def v_push_node_def v_ok_def Let_def ids_of_def option.map_comp o_def)
qed

lemma pushes_open: "pushes (v_open_in mount name flags mode)"
  unfolding v_open_in_def
  by (intro pushes_bind pushes_if keeps_intro) (auto intro: pushes_push pushes_err)

lemma ids_of_lock [simp]: "ids_of (s\<lparr>VFS_LOCK := b\<rparr>) = ids_of s"
  by (simp add: ids_of_def)

lemma open_pushed:
  assumes "vfs_inv s" "vfs_open path flags mode s = Some (r, s')" "NEXT_NODE_ID s \<noteq> - 1"
  shows "pushed s r s'"
proof (cases "split_path path")
  case (Inl e)
  then show ?thesis using assms by (auto simp: vfs_open_def v_err_def pushed_def)
next
  case (Inr mn)
  obtain mount name where mn: "mn = (mount, name)" by (cases mn)
  let ?s = "s\<lparr>VFS_LOCK := True\<rparr>"
  obtain t where t: "s' = t\<lparr>VFS_LOCK := False\<rparr>"
    "v_bind v_nodes (\<lambda>ns. if length ns \<ge> MAX_NODES then v_err ''Node table full'' else v_open_in mount name flags mode) ?s = Some (r, t)"
    using assms(2) Inr mn by (auto simp: vfs_open_def elim!: vfs_lockedE)
  show ?thesis
  proof (cases "NODE_TABLE s")
    case None
    then show ?thesis using t assms(1) by (auto simp: v_bind_def v_nodes_def v_err_def pushed_def)
  next
    case (Some ns)
    show ?thesis
    proof (cases "length ns < MAX_NODES")
      case True
      then have "v_open_in mount name flags mode ?s = Some (r, t)" using Some t(2) by (simp add: v_bind_def v_nodes_def v_ok_def)
      then have "pushed ?s r t" using pushes_open [of mount name flags mode, unfolded pushes_def, rule_format, of ?s "map n_id ns" r t]
        assms(1,3) Some True by (simp add: ids_of_def)
      then show ?thesis using t(1) by (simp add: pushed_def split: sum.splits)
    next
      case False
      then show ?thesis using t Some assms(1) by (auto simp: v_bind_def v_nodes_def v_ok_def v_err_def pushed_def)
    qed
  qed
qed

lemma close_ids:
  assumes "vfs_close k s = Some (r, s')"
  shows "ids_of s' = map_option (filter (\<lambda>j. j \<noteq> k)) (ids_of s)" "NEXT_NODE_ID s' = NEXT_NODE_ID s"
  using assms unfolding vfs_close_def
  by (auto simp: v_ok_def v_err_def ids_of_def Let_def filter_map o_def elim!: vfs_lockedE split: option.splits if_splits)

lemma table_ops_inv:
  assumes "vfs_inv s"
  shows "vfs_init s = Some s' \<Longrightarrow> vfs_inv s'" "vfs_mount point d s = Some (r, s') \<Longrightarrow> vfs_inv s'"
    "vfs_unmount point s = Some (r, s') \<Longrightarrow> vfs_inv s'" "vfs_close k s = Some (r, s') \<Longrightarrow> vfs_inv s'"
proof -
  show "vfs_init s = Some s' \<Longrightarrow> vfs_inv s'"
    using assms by (auto simp: vfs_init_def v_ok_def vfs_inv_def elim!: vfs_lockedE split: if_splits cong: if_cong)
  have ex: "list_ex (\<lambda>e. m_point e = point) t \<longleftrightarrow> point \<in> m_point ` set t" for t by (auto simp: list_ex_iff)
  show "vfs_mount point d s = Some (r, s') \<Longrightarrow> vfs_inv s'"
    using assms unfolding vfs_mount_def
    by (auto simp: ex v_ok_def v_err_def vfs_inv_def elim!: vfs_lockedE split: option.splits if_splits)
  show "vfs_unmount point s = Some (r, s') \<Longrightarrow> vfs_inv s'"
    using assms unfolding vfs_unmount_def
    by (auto simp: v_ok_def v_err_def vfs_inv_def Let_def distinct_map_filter elim!: vfs_lockedE split: option.splits if_splits
        intro: order_trans [OF length_filter_le])
  show "vfs_close k s = Some (r, s') \<Longrightarrow> vfs_inv s'"
    using assms unfolding vfs_close_def
    by (auto simp: v_ok_def v_err_def vfs_inv_def Let_def distinct_map_filter elim!: vfs_lockedE split: option.splits if_splits
        intro: order_trans [OF length_filter_le])
qed


text \<open>The state at boot, over a blank volume, and a state with one RAM file system.\<close>

definition boot_vfs :: vfs where
  "boot_vfs = \<lparr>FAT = blank_volume, VFS_LOCK = False, MOUNT_TABLE = None, NODE_TABLE = None, NEXT_NODE_ID = 4\<rparr>"


section \<open>Reading and writing through a node\<close>

text \<open>The \<open>j\<close>th open node, the driver of the \<open>i\<close>th mount behind it and what that driver represents; the lock is free.\<close>

definition opened :: "vfs \<Rightarrow> nat \<Rightarrow> nat \<Rightarrow> vfs_node \<Rightarrow> driver \<times> fat12 \<Rightarrow> (str \<rightharpoonup> byte list) \<Rightarrow> bool" where
  "opened s i j node df m \<longleftrightarrow> \<not> VFS_LOCK s \<and> drv_rep df m \<and>
     (\<exists>ms ns. MOUNT_TABLE s = Some ms \<and> NODE_TABLE s = Some ns \<and> index_of (\<lambda>n. n_id n = n_id node) ns = Some j \<and> ns ! j = node
        \<and> index_of (\<lambda>e. m_point e = n_mount node) ms = Some i \<and> df = (m_fs (ms ! i), FAT s))"

lemma index_of_bound: "index_of P xs = Some i \<Longrightarrow> i < length xs \<and> P (xs ! i)"
  by (induction xs arbitrary: i) (auto split: if_splits)

lemma index_of_map: "index_of P xs = index_of id (map P xs)"
  by (induction xs) auto

lemma index_of_update: "P y = P (xs ! i) \<Longrightarrow> index_of P (xs[i := y]) = index_of P xs"
  using index_of_map [of P "xs[i := y]"] index_of_map [of P xs] map_update_same [of P y xs i] by simp

lemma opened_get:
  assumes "opened s i j node df m"
  shows "get_fs (n_mount node) (s\<lparr>VFS_LOCK := True\<rparr>) = Some (Inr i, s\<lparr>VFS_LOCK := True\<rparr>)"
    "get_node (n_id node) (s\<lparr>VFS_LOCK := True\<rparr>) = Some (Inr j, s\<lparr>VFS_LOCK := True\<rparr>)"
    "v_node j (s\<lparr>VFS_LOCK := True\<rparr>) = Some (Inr node, s\<lparr>VFS_LOCK := True\<rparr>)" "drv_rep df m" "\<not> VFS_LOCK s" "s\<lparr>VFS_LOCK := False\<rparr> = s"
  using assms by (auto simp: opened_def get_fs_def get_node_def v_node_def v_bind_def v_nodes_def v_ok_def intro: vfs.equality)

lemma opened_call:
  assumes "opened s i j node df m" "op df = Some (r, df')" "drv_rep df' m'"
  shows "\<exists>s'. v_call i op (s\<lparr>VFS_LOCK := True\<rparr>) = Some (r, s'\<lparr>VFS_LOCK := True\<rparr>) \<and> opened s' i j node df' m'"
proof -
  obtain ms ns where o: "MOUNT_TABLE s = Some ms" "NODE_TABLE s = Some ns" "index_of (\<lambda>n. n_id n = n_id node) ns = Some j" "ns ! j = node"
    "index_of (\<lambda>e. m_point e = n_mount node) ms = Some i" "df = (m_fs (ms ! i), FAT s)" "\<not> VFS_LOCK s"
    using assms(1) by (auto simp: opened_def)
  have i: "i < length ms" using index_of_bound [OF o(5)] by simp
  obtain d f where df': "df' = (d, f)" by (cases df')
  let ?ms = "ms[i := (ms ! i)\<lparr>m_fs := d\<rparr>]"
  let ?s = "s\<lparr>FAT := f, MOUNT_TABLE := Some ?ms\<rparr>"
  have "v_call i op (s\<lparr>VFS_LOCK := True\<rparr>) = Some (r, ?s\<lparr>VFS_LOCK := True\<rparr>)" using o assms(2) df' by (simp add: v_call_def)
  moreover have "index_of (\<lambda>e. m_point e = n_mount node) ?ms = Some i" using o(5) by (simp add: index_of_update)
  then have "opened ?s i j node df' m'" using o assms(3) df' i by (auto simp: opened_def)
  ultimately show ?thesis by blast
qed

lemma opened_set:
  assumes "opened s i j node df m" "n_id (g node) = n_id node" "n_mount (g node) = n_mount node"
  shows "\<exists>s'. v_set_node j g (s\<lparr>VFS_LOCK := True\<rparr>) = Some (Inr (), s'\<lparr>VFS_LOCK := True\<rparr>) \<and> opened s' i j (g node) df m"
proof -
  obtain ms ns where o: "MOUNT_TABLE s = Some ms" "NODE_TABLE s = Some ns" "index_of (\<lambda>n. n_id n = n_id node) ns = Some j" "ns ! j = node"
    "index_of (\<lambda>e. m_point e = n_mount node) ms = Some i" "df = (m_fs (ms ! i), FAT s)" "\<not> VFS_LOCK s" "drv_rep df m"
    using assms(1) by (auto simp: opened_def)
  have j: "j < length ns" using index_of_bound [OF o(3)] by simp
  have "index_of (\<lambda>n. n_id n = n_id node) (ns[j := g node]) = Some j" using o(3,4) assms(2) by (simp add: index_of_update)
  then have "opened (s\<lparr>NODE_TABLE := Some (ns[j := g node])\<rparr>) i j (g node) df m" using o assms(2,3) j by (auto simp: opened_def)
  then show ?thesis
    using o by (intro exI [of _ "s\<lparr>NODE_TABLE := Some (ns[j := g node])\<rparr>"]) (simp add: v_set_node_def v_ok_def)
qed

lemma opened_locked:
  assumes "opened s i j node df m" "b (s\<lparr>VFS_LOCK := True\<rparr>) = Some (r, s'\<lparr>VFS_LOCK := True\<rparr>)" "opened s' i' j' node' df' m'"
  shows "vfs_locked b s = Some (r, s')"
  using assms(2) opened_get(5) [OF assms(1)] opened_get(6) [OF assms(3)] by (simp add: vfs_locked_def)

lemma seek_ok:
  assumes "opened s i j node df m"
  shows "\<exists>s'. vfs_seek (n_id node) pos s = Some (Inr (), s') \<and> opened s' i j (node\<lparr>n_cursor := min pos (n_size node)\<rparr>) df m"
proof -
  obtain s' where s': "v_set_node j (\<lambda>n. n\<lparr>n_cursor := min pos (n_size n)\<rparr>) (s\<lparr>VFS_LOCK := True\<rparr>) = Some (Inr (), s'\<lparr>VFS_LOCK := True\<rparr>)"
    "opened s' i j (node\<lparr>n_cursor := min pos (n_size node)\<rparr>) df m"
    using opened_set [OF assms, of "\<lambda>n. n\<lparr>n_cursor := min pos (n_size n)\<rparr>"] by auto
  then show ?thesis
    unfolding vfs_seek_def using opened_get [OF assms]
    by (intro exI [of _ s'] conjI opened_locked [OF assms _ s'(2)]) (simp_all add: v_bind_def)
qed

lemma add32_ok: "unat a + n < 2 ^ 32 \<Longrightarrow> add32 a (of_nat n) = Some (a + of_nat n)"
  by (simp add: add32_def unat_of_nat)

lemma read_node_ok:
  assumes "opened s i j node df m" "n_kind node = File_Node" "access node \<noteq> O_WRONLY" "m (name_key (n_name node)) = Some bs"
    "count = min (length bs - unat (n_cursor node)) n" "unat (n_cursor node) + count < 2 ^ 32"
  shows "\<exists>s'. vfs_read (n_id node) n s = Some (Inr (take n (drop (unat (n_cursor node)) bs)), s')
    \<and> opened s' i j (node\<lparr>n_cursor := n_cursor node + of_nat count\<rparr>) df m"
proof -
  note g = opened_get [OF assms(1)]
  have rd: "drv_read_file (n_name node) df = Some (Inr bs, df)" using drv.rd_law [OF g(4)] assms(4) by simp
  obtain s1 where c: "v_call i (drv_read_file (n_name node)) (s\<lparr>VFS_LOCK := True\<rparr>) = Some (Inr bs, s1\<lparr>VFS_LOCK := True\<rparr>)"
    "opened s1 i j node df m"
    using opened_call [OF assms(1), of "drv_read_file (n_name node)" "Inr bs" df m] rd g(4) by blast
  let ?g = "\<lambda>n. n\<lparr>n_cursor := n_cursor node + of_nat count\<rparr>"
  obtain s2 where s2: "v_set_node j ?g (s1\<lparr>VFS_LOCK := True\<rparr>) = Some (Inr (), s2\<lparr>VFS_LOCK := True\<rparr>)" "opened s2 i j (?g node) df m"
    using opened_set [OF c(2), of ?g] by auto
  have sl: "slice (unat (n_cursor node)) count bs = take n (drop (unat (n_cursor node)) bs)"
    using assms(5) by (auto simp: slice_def min_def)
  note a = add32_ok [OF assms(6)]
  have "vfs_read (n_id node) n s = Some (Inr (take n (drop (unat (n_cursor node)) bs)), s2)"
    unfolding vfs_read_def
    by (rule opened_locked [OF assms(1) _ s2(2)])
      (use g(1-3) assms(2,3) c(1) s2(1) a in \<open>auto simp: v_bind_def Let_def v_lift_def v_ok_def sl simp flip: assms(5)\<close>)
  then show ?thesis using s2(2) by blast
qed

text \<open>The contents that a write at a position leaves: at the start of a file the rest is cut off.\<close>

definition written :: "nat \<Rightarrow> byte list \<Rightarrow> byte list \<Rightarrow> byte list" where
  "written pos bs old = (if pos = 0 then bs else splice pos bs old)"

lemma write_contents_ok:
  assumes "opened s i j node df m" "m (name_key (n_name node)) = Some old" "drv_room df (written (unat pos) bs old)"
  obtains s' df' where "(if pos = 0 then v_call i (drv_write_file (n_name node) bs)
      else v_bind (v_call i (drv_read_file (n_name node))) (\<lambda>existing.
        v_call i (drv_write_file (n_name node) (splice (unat pos) bs existing)))) (s\<lparr>VFS_LOCK := True\<rparr>) = Some (Inr (), s'\<lparr>VFS_LOCK := True\<rparr>)"
    "opened s' i j node df' (m(name_key (n_name node) \<mapsto> written (unat pos) bs old))"
proof -
  note rep = opened_get(4) [OF assms(1)]
  obtain df' where w: "drv_write_file (n_name node) (written (unat pos) bs old) df = Some (Inr (), df')"
    "drv_rep df' (m(name_key (n_name node) \<mapsto> written (unat pos) bs old))"
    using drv.wr_law [OF rep assms(2,3)] by blast
  show ?thesis
  proof (cases "pos = 0")
    case True
    then obtain s' where "v_call i (drv_write_file (n_name node) bs) (s\<lparr>VFS_LOCK := True\<rparr>) = Some (Inr (), s'\<lparr>VFS_LOCK := True\<rparr>)"
      "opened s' i j node df' (m(name_key (n_name node) \<mapsto> written (unat pos) bs old))"
      using opened_call [OF assms(1), of "drv_write_file (n_name node) bs", OF _ w(2)] w(1) by (auto simp: written_def)
    then show ?thesis using True by (intro that) simp_all
  next
    case False
    then have pos: "unat pos \<noteq> 0" by (simp add: unat_eq_0)
    have rd: "drv_read_file (n_name node) df = Some (Inr old, df)" using drv.rd_law [OF rep] assms(2) by simp
    obtain s1 where s1: "v_call i (drv_read_file (n_name node)) (s\<lparr>VFS_LOCK := True\<rparr>) = Some (Inr old, s1\<lparr>VFS_LOCK := True\<rparr>)"
      "opened s1 i j node df m" using opened_call [OF assms(1), of "drv_read_file (n_name node)" "Inr old" df m] rd rep by blast
    obtain s2 where "v_call i (drv_write_file (n_name node) (splice (unat pos) bs old)) (s1\<lparr>VFS_LOCK := True\<rparr>) = Some (Inr (), s2\<lparr>VFS_LOCK := True\<rparr>)"
      "opened s2 i j node df' (m(name_key (n_name node) \<mapsto> written (unat pos) bs old))"
      using opened_call [OF s1(2), of "drv_write_file (n_name node) (splice (unat pos) bs old)", OF _ w(2)] w(1) pos by (auto simp: written_def)
    then show ?thesis using False s1(1) by (intro that) (simp_all add: v_bind_def)
  qed
qed

lemma v_bindI: "m s = Some (Inr x, t) \<Longrightarrow> f x t = r \<Longrightarrow> v_bind m f s = r"
  by (simp add: v_bind_def)

lemma write_node_ok:
  assumes "opened s i j node df m" "n_kind node = File_Node" "access node \<noteq> O_RDONLY" "m (name_key (n_name node)) = Some old"
    "ap \<longleftrightarrow> n_flags node AND O_APPEND \<noteq> 0" "pos = (if ap then n_size node else n_cursor node)"
    "new = written (unat pos) bs old" "drv_room df new" "ap \<or> unat (n_cursor node) + length bs < 2 ^ 32"
  shows "\<exists>s' df'. vfs_write_node (n_id node) bs s = Some (Inr (), s')
    \<and> opened s' i j (node\<lparr>n_size := of_nat (length new),
         n_cursor := (if ap then of_nat (length new) else n_cursor node + of_nat (length bs))\<rparr>) df' (m(name_key (n_name node) \<mapsto> new))"
proof -
  note g = opened_get [OF assms(1)]
  let ?m = "m(name_key (n_name node) \<mapsto> new)"
  obtain s1 df' where s1: "(if pos = 0 then v_call i (drv_write_file (n_name node) bs)
      else v_bind (v_call i (drv_read_file (n_name node))) (\<lambda>existing.
        v_call i (drv_write_file (n_name node) (splice (unat pos) bs existing)))) (s\<lparr>VFS_LOCK := True\<rparr>) = Some (Inr (), s1\<lparr>VFS_LOCK := True\<rparr>)"
    "opened s1 i j node df' ?m"
    using write_contents_ok [OF assms(1,4), of pos bs] assms(7,8) by metis
  note g1 = opened_get [OF s1(2)]
  obtain s2 where s2: "v_query i (drv_get_file_size (n_name node)) (s1\<lparr>VFS_LOCK := True\<rparr>) = Some (Inr (Some (of_nat (length new))), s2\<lparr>VFS_LOCK := True\<rparr>)"
    "opened s2 i j node df' ?m"
    unfolding v_query_def
    using opened_call [OF s1(2), of "\<lambda>df. map_option (\<lambda>(r, df). (Inr r, df)) (drv_get_file_size (n_name node) df)", OF _ g1(4)]
      drv.sz_law [OF g1(4), of "n_name node"] by auto
  let ?c = "if ap then of_nat (length new) else n_cursor node + of_nat (length bs)"
  let ?g = "\<lambda>n. n\<lparr>n_size := of_nat (length new), n_cursor := ?c\<rparr>"
  obtain s3 where s3: "v_set_node j ?g (s2\<lparr>VFS_LOCK := True\<rparr>) = Some (Inr (), s3\<lparr>VFS_LOCK := True\<rparr>)" "opened s3 i j (?g node) df' ?m"
    using opened_set [OF s2(2), of ?g] by auto
  have cur: "(if ap then v_ok (of_nat (length new)) else v_lift (add32 (n_cursor node) (of_nat (length bs)))) t = Some (Inr ?c, t)" for t
    using assms(9) add32_ok [of "n_cursor node" "length bs"] by (auto simp: v_ok_def v_lift_def)
  have "vfs_write_node (n_id node) bs s = Some (Inr (), s3)"
    unfolding vfs_write_node_def
    apply (rule opened_locked [OF assms(1) _ s3(2)])
    apply (rule v_bindI, rule g(2))
    apply (rule v_bindI, rule g(3))
    apply (simp only: assms(2,3) Let_def if_False simp_thms flip: assms(5,6))
    apply (rule v_bindI, rule g(1))
    apply (rule v_bindI, rule s1(1))
    apply (rule v_bindI, rule g1(2))
    apply (rule v_bindI, rule g1(3))
    apply (rule v_bindI, rule s2(1))
    apply (simp only: option.case)
    apply (rule v_bindI, rule cur)
    apply (rule s3(1))
    done
  then show ?thesis using s3(2) by blast
qed

text \<open>
  C5. Bytes written through an open node at its cursor are read back from the same position, whichever driver is
  mounted: the file then holds the old contents overwritten at the cursor, padded with zeros up to it when it lies behind the
  end. A write at the start of a file replaces all of it.
\<close>

theorem node_write_read:
  assumes "opened s i j node df m" "n_kind node = File_Node" "access node = O_RDWR" "n_flags node AND O_APPEND = 0"
    "m (name_key (n_name node)) = Some old" "new = written (unat (n_cursor node)) bs old" "drv_room df new" "length new < 2 ^ 32"
  shows "\<exists>s1 s2 s3 node' df'. vfs_write_node (n_id node) bs s = Some (Inr (), s1)
    \<and> vfs_seek (n_id node) (n_cursor node) s1 = Some (Inr (), s2)
    \<and> vfs_read (n_id node) (length bs) s2 = Some (Inr bs, s3)
    \<and> opened s3 i j node' df' (m(name_key (n_name node) \<mapsto> new)) \<and> n_size node' = of_nat (length new)"
proof -
  let ?p = "unat (n_cursor node)" and ?m = "m(name_key (n_name node) \<mapsto> new)"
  have acc: "access node \<noteq> O_RDONLY" "access node \<noteq> O_WRONLY" using assms(3) by (simp_all add: O_RDWR_def O_RDONLY_def O_WRONLY_def)
  have len: "?p + length bs \<le> length new" using assms(6) by (auto simp: written_def splice_length)
  then have room: "?p + length bs < 2 ^ 32" using assms(8) by simp
  let ?n1 = "node\<lparr>n_size := of_nat (length new), n_cursor := n_cursor node + of_nat (length bs)\<rparr>"
  obtain s1 df' where s1: "vfs_write_node (n_id node) bs s = Some (Inr (), s1)" "opened s1 i j ?n1 df' ?m"
    using write_node_ok [OF assms(1,2) acc(1) assms(5) refl refl refl, of bs] assms(4,6,7) room by auto
  have "min (n_cursor node) (of_nat (length new)) = n_cursor node"
    using len assms(8) by (simp add: min_def word_le_nat_alt unat_of_nat)
  then obtain s2 where s2: "vfs_seek (n_id node) (n_cursor node) s1 = Some (Inr (), s2)"
    "opened s2 i j (?n1\<lparr>n_cursor := n_cursor node\<rparr>) df' ?m"
    using seek_ok [OF s1(2), of "n_cursor node"] by auto
  have "take (length bs) (drop ?p new) = bs"
    using assms(6) by (auto simp: written_def splice_def Let_def)
  moreover have "\<exists>s3. vfs_read (n_id node) (length bs) s2 = Some (Inr (take (length bs) (drop ?p new)), s3)
      \<and> opened s3 i j (?n1\<lparr>n_cursor := n_cursor node + of_nat (length bs)\<rparr>) df' ?m"
    using read_node_ok [OF s2(2), of new "length bs" "length bs"] assms(2) acc(2) room len by (auto simp: access_def)
  ultimately obtain s3 where "vfs_read (n_id node) (length bs) s2 = Some (Inr bs, s3)"
    "opened s3 i j (?n1\<lparr>n_cursor := n_cursor node + of_nat (length bs)\<rparr>) df' ?m" by auto
  then show ?thesis using s1(1) s2(1) by (intro exI conjI) (assumption | simp)+
qed

text \<open>A RAM file system with one file of three bytes, open for reading and writing at its second byte.\<close>

definition ram_node :: vfs_node where
  "ram_node = \<lparr>n_id = 4, n_kind = File_Node, n_mount = [109], n_name = [97], n_size = 3, n_cursor = 1, n_flags = O_RDWR, n_mode = 0\<rparr>"

definition ram_vfs :: vfs where
  "ram_vfs = boot_vfs\<lparr>MOUNT_TABLE := Some [\<lparr>m_point = [109], m_fs = RamFs [\<lparr>f_name = [65], f_data = [1, 2, 3]\<rparr>]\<rparr>],
     NODE_TABLE := Some [ram_node], NEXT_NODE_ID := 5\<rparr>"

lemma ram_vfs_opened:
  "opened ram_vfs 0 0 ram_node (RamFs [\<lparr>f_name = [65], f_data = [1, 2, 3]\<rparr>], blank_volume) [[97] \<mapsto> [1, 2, 3]]"
proof -
  have "name_key [65] = [97]" by (simp add: name_key_def to_ascii_lowercase_def)
  then show ?thesis
    by (simp add: opened_def ram_vfs_def boot_vfs_def ram_node_def drv_rep_def ram_rep_def ram_files_def)
qed

theorem node_write_read_witness:
  "\<exists>s1 s2 s3 node' df'. vfs_write_node 4 [9, 8, 7] ram_vfs = Some (Inr (), s1) \<and> vfs_seek 4 1 s1 = Some (Inr (), s2)
    \<and> vfs_read 4 3 s2 = Some (Inr [9, 8, 7], s3) \<and> opened s3 0 0 node' df' [[97] \<mapsto> [1, 9, 8, 7]] \<and> n_size node' = 4"
proof -
  have k: "name_key [97] = [97]" by (simp add: name_key_def to_ascii_lowercase_def)
  have w: "written (unat (n_cursor ram_node)) [9, 8, 7] [1, 2, 3] = [1, 9, 8, 7]"
    by (simp add: written_def splice_def ram_node_def)
  show ?thesis
    using node_write_read [OF ram_vfs_opened, of "[1, 2, 3]" "[1, 9, 8, 7]" "[9, 8, 7]"] w k
    by (simp add: ram_node_def access_def O_RDWR_def O_APPEND_def drv_room_def numeral_3_eq_3)
qed

section \<open>Errors that keep the lock\<close>

lemma fs_call_unknown:
  assumes "\<not> VFS_LOCK s" "MOUNT_TABLE s = Some ms" "mount \<notin> m_point ` set ms"
  shows "fs_call mount op s = Some (Inl ''Mount point not found'', s\<lparr>VFS_LOCK := True\<rparr>)"
proof -
  have "index_of (\<lambda>e. m_point e = mount) ms = None" using assms(3) by (induction ms) auto
  then show ?thesis using assms(1,2) by (simp add: fs_call_def get_fs_def v_err_def)
qed

lemma fs_call_stuck: "VFS_LOCK s \<Longrightarrow> fs_call mount op s = None"
  by (simp add: fs_call_def)



text \<open>Opening with the flag that creates a missing file always fails on a FAT12 volume, whose driver refuses an empty file.\<close>

lemma fat12_open_create_fails:
  assumes "\<not> VFS_LOCK s" "MOUNT_TABLE s = Some ms" "NODE_TABLE s = Some ns" "length ns < MAX_NODES" "split_path path = Inr (mount, file)"
    "index_of (\<lambda>e. m_point e = mount) ms = Some i" "m_fs (ms ! i) = Fat12Driver d" "fat_rep (FAT s) m" "m (name_key file) = None"
    "flags AND O_CREAT \<noteq> 0"
  shows "\<exists>e. vfs_open path flags mode s = Some (Inl e, s)"
proof -
  have ex: "drv_file_exists file (Fat12Driver d, FAT s) = Some (False, Fat12Driver d, FAT s)"
  proof -
    have "drv_rep (Fat12Driver d, FAT s) m" using assms(8) by (simp add: drv_rep_def)
    from drv.ex_law [OF this] show ?thesis using assms(9) by auto
  qed
  have l: "\<not> FAT_LOCK (FAT s)" using assms(8) by (simp add: fat_rep_def)
  have "\<exists>e. fat12_create_file file [] (FAT s) = Some (Inl e, FAT s)"
    using l by (cases "FAT_INITIALIZED (FAT s)")
      (auto simp: fat12_create_file_def fat_locked_def fs_bind_def fs_initialized_def fs_unless_def fs_ok_def fs_err_def)
  then obtain e where cr: "drv_create_file file [] (Fat12Driver d, FAT s) = Some (Inl e, Fat12Driver d, FAT s)"
    by (auto simp: drv_create_file_def dispatch_def)
  have [simp]: "ms[i := (ms ! i)\<lparr>m_fs := Fat12Driver d\<rparr>] = ms" using assms(7) by (metis list_update_id mount_entry.surjective mount_entry.update_convs(2) mount_entry.select_convs(2))
  show ?thesis using assms ex cr
    by (auto simp: vfs_open_def vfs_locked_def v_bind_def v_nodes_def v_ok_def v_open_in_def get_fs_def v_query_def v_call_def)
qed

end
