(* ===== verification/Spec2Isabelle.thy ===== *)
theory Spec2Isabelle
  imports StrTok StrSearch SortFns TimeFns KHeap Paging Vfs
begin

text \<open>
  A verification library for the Eucalypt kernel (Rust, \<open>src/\<close>) and for the C library it is ported with (newlib,
  \<open>src/ports/newlib/newlib/libc/\<close>).

  \<^bold>\<open>The program and how its parts interact.\<close> The boot loader hands the kernel a memory map. The frame allocator turns it into a
  bitmap of free physical frames; the page tables take their frames from it; the kernel heap manages one region of the map with an
  intrusive free list. The FAT12 driver keeps a cached allocation table over an IDE drive; the virtual file system mounts it and a
  RAM file system behind one trait, and offers calls by path and by open node. Programs for the kernel are linked with newlib,
  whose string, sorting, number and time functions are plain C over memory.

  \<^bold>\<open>Theories of the C library.\<close>
  \<^item> \<open>Prelude\<close>: the C machine. Memory is a partial map from addresses to bytes; an access to an unmapped address, or a misaligned
    access to a \<open>long\<close>, is \<open>None\<close>. It also has the macros of \<open>string/local.h\<close> that test eight bytes at a time, and
    the lemma collections (\<open>mem_simps\<close>) that carry the proofs of the components.
  \<^item> \<open>MemFns\<close> and \<open>StrFns\<close>: \<open>memcpy\<close>, \<open>memmove\<close>, \<open>memset\<close>, \<open>memcmp\<close>, \<open>memchr\<close>, \<open>strlen\<close>, \<open>strcpy\<close>, \<open>strlcat\<close>, \<open>strcmp\<close>, \<open>strchr\<close> and their
    relatives, each in the body for speed and, with the suffix \<open>_small\<close>, in the body for size. The lemmas show that the unrolled and
    word-at-a-time loops compute what the byte loops do, that they write only their destination, and that they end.
  \<^item> \<open>StrTok\<close>, \<open>Ctype\<close>, \<open>StrMisc\<close>, \<open>TwoWay\<close>, \<open>StrSearch\<close>: tokenizers, character classes, comparison without case, the substring
    searches. The searches are shown to return the first occurrence.
  \<^item> \<open>SortFns\<close>: \<open>bsearch\<close> and \<open>qsort\<close> for any comparison function that is a consistent order; \<open>qsort\<close> returns, and its result is a sorted
    permutation. The swaps over bytes are shown to implement the swaps of list elements.
  \<^item> \<open>NumFns\<close>: \<open>strtol\<close> and its family, \<open>itoa\<close>, \<open>a64l\<close>, \<open>l64a\<close> and the small functions of \<open>stdlib\<close>; parsing inverts printing, and values
    out of range are clamped.
  \<^item> \<open>TimeFns\<close>: \<open>gmtime_r\<close>, \<open>localtime_r\<close>, \<open>mktime\<close> and the change-over times, against the day count of the Gregorian calendar.

  \<^bold>\<open>Theories of the kernel.\<close> The statics of a crate are the fields of a record and every function is a state transformer.
  \<^item> \<open>FrameAlloc\<close> (\<open>memory/src/frame_allocator.rs\<close>, \<open>addr.rs\<close>): the bitmap, refined to the set of free frames; the locale of an
    allocator that never returns a frame in use is interpreted on it.
  \<^item> \<open>KHeap\<close> (\<open>memory/src/allocator.rs\<close>): the free list, refined to a list of blocks through the locale of a queue of addresses,
    first fit allocation, and \<open>sbrk\<close>. The invariant is that no two blocks overlap.
  \<^item> \<open>Paging\<close> (\<open>memory/src/vmm.rs\<close>, \<open>addr.rs\<close>, \<open>mmio.rs\<close>): four-level tables in physical memory. The reference is the walk that
    the processor does (\<open>translate\<close>); mapping changes the translation of one page and nothing else.
  \<^item> \<open>Fat12\<close>, \<open>FatTable\<close>, \<open>FatDisk\<close>, \<open>FatFiles\<close> (\<open>fat12/src/lib.rs\<close>): the driver over a drive whose sectors may fail, its
    table of 12-bit entries, chains, directory and files. The invariant of a volume is that every entry of the root directory owns
    a chain of its own; under it each operation is an operation on a map from names to contents.
  \<^item> \<open>FileStore\<close>: that map as the locale \<open>file_store\<close>, with what follows from the contract alone. It is interpreted three times, on the FAT12
    driver, on the RAM file system and on the dispatch between them.
  \<^item> \<open>Vfs\<close> (\<open>vfs/src/lib.rs\<close>): mounts, nodes, paths and the lock. The lemmas on nodes hold for whatever driver is mounted,
    through the last interpretation; the tables are shown sound for every reachable state.

  \<^bold>\<open>Errors, overflow and loops.\<close> An error of the kernel is the message in a sum type. A panic, a fault, a spin on a lock that is held and
  a loop that never ends are the outer \<open>None\<close>, so a theorem that gives \<open>Some\<close> also says that the code returns. The kernel is built
  with the development profile, where integer overflow panics. Loops that may not end are \<open>partial_function\<close>s without fuel; the
  theorems about them show that they return. No theorem depends on a bound of the model; bounds in hypotheses are those of the
  data: a needle of at most 256 bytes for \<open>memmem\<close> and less than 255 for \<open>strstr\<close> (longer ones take the two way search), years within
  a thousand million of the epoch, \<open>2 ^ 35\<close> frames of physical memory.

  \<^bold>\<open>Not modelled.\<close> The two way search is modelled and executable but its correctness is not proved. Floating point conversion,
  \<open>printf\<close> and \<open>scanf\<close>, locales and wide characters, the file streams, parsing of the TZ variable, the hash tables and trees of \<open>search\<close>, the mathematical
  library and the code for machines and systems other than this target are not modelled. Of the kernel, the drivers (AHCI, IDE,
  PCI, USB, the framebuffer), the descriptor tables and the start of further processors are register input and output
  and inline assembly; the IDE drive is a parameter of the FAT12 model. The scheduler, the processes and the system calls, and the
  native file system, which nothing mounts, are not part of the library. Interrupts and more than one processor are not modelled: a
  lock is either free or held.
\<close>

end
